(* ===== verification/Prelude.thy ===== *)
theory Prelude
  imports Main "HOL-Library.Word"
begin

text \<open>
  Shared vocabulary of the development: the names of the machine types the sources use, the
  little-endian reading of a list of words (bytes of a buffer, 32-bit limbs of a big integer),
  the byte-order helpers of \<^verbatim>\<open>src/src/crypto/common.h\<close>, and the generic facts on lists and words that
  the component theories use.  The collections \<open>le_simps\<close> and \<open>val_simps\<close> gather the facts that
  compute the value of a byte or limb list.
\<close>

unbundle bit_operations_syntax

named_theorems le_simps "computing with little-endian word lists"
named_theorems val_simps "the value of the result of a big-integer operation"

type_synonym byte = "8 word"
type_synonym bytes = "byte list"
type_synonym u16 = "16 word"
type_synonym u32 = "32 word"
type_synonym u64 = "64 word"

text \<open>A 256-bit hash is its 32 bytes.\<close>

type_synonym uint256 = bytes

definition null_hash :: uint256 where
  "null_hash = replicate 32 0"

section \<open>Lists\<close>

lemma sum_list_bound: "(\<And>x. x \<in> set xs \<Longrightarrow> x \<le> (m :: nat)) \<Longrightarrow> sum_list xs \<le> length xs * m"
  by (induction xs) (auto simp: add_mono)

section \<open>Little-endian word lists\<close>

text \<open>The number a list of words stands for, least significant word first.\<close>

fun le_val :: "'a::len word list \<Rightarrow> nat" where
  "le_val [] = 0"
| "le_val (w # ws) = unat w + 2 ^ LENGTH('a) * le_val ws"

text \<open>The first \<open>n\<close> words of a number, least significant word first.\<close>

fun le_words :: "nat \<Rightarrow> nat \<Rightarrow> 'a::len word list" where
  "le_words 0 x = []"
| "le_words (Suc n) x = word_of_nat x # le_words n (x div 2 ^ LENGTH('a))"

lemma length_le_words [simp]: "length (le_words n x) = n"
  by (induction n arbitrary: x) auto

lemma le_val_less: "le_val (ws :: 'a::len word list) < 2 ^ (LENGTH('a) * length ws)"
proof (induction ws)
  case Nil
  then show ?case by simp
next
  case (Cons w ws)
  have "le_val ws + 1 \<le> 2 ^ (LENGTH('a) * length ws)" using Cons.IH by simp
  then have "2 ^ LENGTH('a) * (le_val ws + 1) \<le> 2 ^ LENGTH('a) * 2 ^ (LENGTH('a) * length ws)"
    by (rule mult_le_mono2)
  then have "2 ^ LENGTH('a) * le_val ws + 2 ^ LENGTH('a) \<le> 2 ^ (LENGTH('a) * length (w # ws))"
    by (simp add: power_add)
  with unsigned_less [of w, where ?'a = nat] show ?case
    unfolding le_val.simps by linarith
qed

lemma le_val_append [le_simps]:
  "le_val ((xs :: 'a::len word list) @ ys) = le_val xs + 2 ^ (LENGTH('a) * length xs) * le_val ys"
  by (induction xs) (simp_all add: power_add algebra_simps)

lemma le_val_replicate_0 [simp]: "le_val (replicate n 0) = 0"
  by (induction n) auto

lemma le_val_le_words [le_simps]:
  "le_val (le_words n x :: 'a::len word list) = x mod 2 ^ (LENGTH('a) * n)"
proof (induction n arbitrary: x)
  case 0
  then show ?case by simp
next
  case (Suc n)
  then show ?case
    by (simp add: unat_of_nat power_add mod_mult2_eq mult.commute add.commute)
qed

lemma le_words_le_val: "le_words (length ws) (le_val ws) = ws"
proof (induction ws)
  case Nil
  then show ?case by simp
next
  case (Cons w ws)
  have "(unat w + 2 ^ LENGTH('a) * le_val ws) div 2 ^ LENGTH('a) = le_val ws"
    using unsigned_less [of w, where ?'a = nat] by (simp add: div_add1_eq)
  moreover have "(word_of_nat (unat w + 2 ^ LENGTH('a) * le_val ws) :: 'a word) = w"
    by simp
  ultimately show ?case using Cons.IH by simp
qed

lemma le_val_inject:
  "length xs = length ys \<Longrightarrow> le_val xs = le_val ys \<longleftrightarrow> xs = ys"
  by (metis le_words_le_val)

lemma le_val_eq_0_iff: "le_val ws = 0 \<longleftrightarrow> (\<forall>w \<in> set ws. w = 0)"
  by (induction ws) (auto simp: unat_eq_0)

section \<open>Byte order helpers\<close>

text \<open>
  The readers and writers of \<^verbatim>\<open>src/src/crypto/common.h\<close>: a pointer into a buffer is the list of
  bytes from there on, a writer gives the bytes it stores.
\<close>

definition ReadLE16 :: "bytes \<Rightarrow> u16" where
  "ReadLE16 p = word_of_nat (le_val (take 2 p))"

definition ReadLE32 :: "bytes \<Rightarrow> u32" where
  "ReadLE32 p = word_of_nat (le_val (take 4 p))"

definition ReadLE64 :: "bytes \<Rightarrow> u64" where
  "ReadLE64 p = word_of_nat (le_val (take 8 p))"

definition ReadBE16 :: "bytes \<Rightarrow> u16" where
  "ReadBE16 p = word_of_nat (le_val (rev (take 2 p)))"

definition ReadBE32 :: "bytes \<Rightarrow> u32" where
  "ReadBE32 p = word_of_nat (le_val (rev (take 4 p)))"

definition ReadBE64 :: "bytes \<Rightarrow> u64" where
  "ReadBE64 p = word_of_nat (le_val (rev (take 8 p)))"

definition WriteLE16 :: "u16 \<Rightarrow> bytes" where
  "WriteLE16 x = le_words 2 (unat x)"

definition WriteLE32 :: "u32 \<Rightarrow> bytes" where
  "WriteLE32 x = le_words 4 (unat x)"

definition WriteLE64 :: "u64 \<Rightarrow> bytes" where
  "WriteLE64 x = le_words 8 (unat x)"

definition WriteBE32 :: "u32 \<Rightarrow> bytes" where
  "WriteBE32 x = rev (le_words 4 (unat x))"

definition WriteBE64 :: "u64 \<Rightarrow> bytes" where
  "WriteBE64 x = rev (le_words 8 (unat x))"

lemma le_words_bytes_word [simp]:
  "8 * n = LENGTH('a) \<Longrightarrow> le_val (le_words n (unat (x :: 'a::len word)) :: bytes) = unat x"
  using unsigned_less [of x, where ?'a = nat] by (simp add: le_val_le_words)

lemma length_WriteLE16 [simp]: "length (WriteLE16 x) = 2"
  by (simp add: WriteLE16_def)

lemma ReadLE16_Write [simp]: "ReadLE16 (WriteLE16 x @ r) = x"
  by (simp add: ReadLE16_def WriteLE16_def)

lemma length_WriteLE32 [simp]: "length (WriteLE32 x) = 4"
  by (simp add: WriteLE32_def)

lemma ReadLE32_Write [simp]: "ReadLE32 (WriteLE32 x @ r) = x"
  by (simp add: ReadLE32_def WriteLE32_def)

lemma length_WriteLE64 [simp]: "length (WriteLE64 x) = 8"
  by (simp add: WriteLE64_def)

lemma ReadLE64_Write [simp]: "ReadLE64 (WriteLE64 x @ r) = x"
  by (simp add: ReadLE64_def WriteLE64_def)

lemma length_WriteBE32 [simp]: "length (WriteBE32 x) = 4"
  by (simp add: WriteBE32_def)

lemma ReadBE32_Write [simp]: "ReadBE32 (WriteBE32 x @ r) = x"
  by (simp add: ReadBE32_def WriteBE32_def)

lemma length_WriteBE64 [simp]: "length (WriteBE64 x) = 8"
  by (simp add: WriteBE64_def)

lemma ReadBE64_Write [simp]: "ReadBE64 (WriteBE64 x @ r) = x"
  by (simp add: ReadBE64_def WriteBE64_def)

lemma WriteLE32_ReadLE32: "4 \<le> length p \<Longrightarrow> WriteLE32 (ReadLE32 p) = take 4 p"
  using le_val_less [of "take 4 p"] le_words_le_val [of "take 4 p"]
  by (simp add: ReadLE32_def WriteLE32_def unat_of_nat min_absorb2)

section \<open>The high bit of a byte\<close>

lemma high_bit_unat: "(b :: byte) AND 0x80 \<noteq> 0 \<longleftrightarrow> 128 \<le> unat b"
proof -
  have "b AND 0x80 = push_bit 7 (of_bool (bit b 7))"
    by (rule bit_word_eqI) (auto simp: bit_simps less_Suc_eq numeral_eq_Suc)
  then have "b AND 0x80 \<noteq> 0 \<longleftrightarrow> bit (unat b) 7" by (simp add: bit_unsigned_iff)
  also have "\<dots> \<longleftrightarrow> odd (unat b div 128)" by (simp add: bit_iff_odd)
  also have "\<dots> \<longleftrightarrow> 128 \<le> unat b"
  proof (cases "128 \<le> unat b")
    case True
    then have "unat b div 128 = 1" using unsigned_less [of b, where ?'a = nat] by (intro div_nat_eqI) auto
    then show ?thesis using True by simp
  qed simp
  finally show ?thesis .
qed

lemma unat_and_7f: "unat (b AND 0x7f :: byte) = unat b mod 128"
proof -
  have "b AND 0x7f = take_bit 7 b" by (simp add: take_bit_eq_mask mask_eq_exp_minus_1)
  then have "unat (b AND 0x7f) = take_bit 7 (unat b)" by (simp only: unsigned_take_bit_eq)
  then show ?thesis by (simp add: take_bit_eq_mod)
qed

lemma unat_or_80: "unat b < 128 \<Longrightarrow> unat (b OR 0x80 :: byte) = unat b + 128"
proof -
  assume "unat b < 128"
  have "unat (b OR 0x80) = unat b OR 128" by (simp add: unsigned_or_eq)
  also have "\<dots> = unat b + 128"
  proof (rule disjunctive_add [symmetric])
    fix n
    show "\<not> bit (unat b) n \<or> \<not> bit (128::nat) n"
    proof (cases "n = 7")
      case True
      then show ?thesis using \<open>unat b < 128\<close> by (simp add: bit_iff_odd)
    next
      case False
      have "(128::nat) = 2 ^ 7" by simp
      then show ?thesis using False by (metis bit_exp_iff)
    qed
  qed
  finally show ?thesis .
qed


end
