(* ===== verification/ArithUint256.thy ===== *)
theory ArithUint256
  imports Prelude
begin

text \<open>
  The 256-bit unsigned integers of \<^verbatim>\<open>src/src/arith_uint256.h\<close> and \<^verbatim>\<open>arith_uint256.cpp\<close>: the limb
  array \<open>pn[WIDTH]\<close> is a list of 32-bit words, least significant first, and every operator is the
  loop of the source over the limbs, with its 64-bit intermediate values.  The locale
  \<open>modular_uint\<close> states what a client relies on (each operator computes the number it should,
  modulo \<open>2 ^ 256\<close>) and is interpreted on the limb operators; the compact encoding of difficulty
  targets (\<open>SetCompact\<close>, \<open>GetCompact\<close>) is built on them.
\<close>

unbundle bit_operations_syntax

section \<open>Data and operators\<close>

text \<open>\<open>base_uint<256>\<close>: eight 32-bit limbs.\<close>

type_synonym base_uint = "u32 list"

definition WIDTH :: nat where
  "WIDTH = 8"

definition wf_uint :: "base_uint \<Rightarrow> bool" where
  "wf_uint a \<longleftrightarrow> length a = WIDTH"

datatype uint_error = DivisionByZero

definition uint_zero :: base_uint where
  "uint_zero = replicate WIDTH 0"

definition uint_of_u64 :: "u64 \<Rightarrow> base_uint" where
  "uint_of_u64 b = ucast b # ucast (drop_bit 32 b) # replicate (WIDTH - 2) 0"

definition uint_not :: "base_uint \<Rightarrow> base_uint" where
  "uint_not a = map NOT a"

fun uint_inc :: "base_uint \<Rightarrow> base_uint" where
  "uint_inc [] = []"
| "uint_inc (p # ps) = (if p + 1 = 0 then (p + 1) # uint_inc ps else (p + 1) # ps)"

fun uint_dec :: "base_uint \<Rightarrow> base_uint" where
  "uint_dec [] = []"
| "uint_dec (p # ps) = (if p - 1 = 0xffffffff then (p - 1) # uint_dec ps else (p - 1) # ps)"

definition uint_neg :: "base_uint \<Rightarrow> base_uint" where
  "uint_neg a = uint_inc (map NOT a)"

definition uint_xor :: "base_uint \<Rightarrow> base_uint \<Rightarrow> base_uint" where
  "uint_xor a b = map2 (XOR) a b"

definition uint_and :: "base_uint \<Rightarrow> base_uint \<Rightarrow> base_uint" where
  "uint_and a b = map2 (AND) a b"

definition uint_or :: "base_uint \<Rightarrow> base_uint \<Rightarrow> base_uint" where
  "uint_or a b = map2 (OR) a b"

text \<open>\<open>operator+=\<close>: the limbs are added with a 64-bit carry.\<close>

fun add_loop :: "u64 \<Rightarrow> base_uint \<Rightarrow> base_uint \<Rightarrow> base_uint" where
  "add_loop carry (p # ps) (b # bs) =
     (let n = carry + ucast p + ucast b
      in ucast (n AND 0xffffffff) # add_loop (drop_bit 32 n) ps bs)"
| "add_loop carry _ _ = []"

definition uint_add :: "base_uint \<Rightarrow> base_uint \<Rightarrow> base_uint" where
  "uint_add a b = add_loop 0 a b"

definition uint_sub :: "base_uint \<Rightarrow> base_uint \<Rightarrow> base_uint" where
  "uint_sub a b = uint_add a (uint_neg b)"

definition uint_add_u64 :: "base_uint \<Rightarrow> u64 \<Rightarrow> base_uint" where
  "uint_add_u64 a b64 = uint_add a (uint_of_u64 b64)"

definition uint_sub_u64 :: "base_uint \<Rightarrow> u64 \<Rightarrow> base_uint" where
  "uint_sub_u64 a b64 = uint_add a (uint_neg (uint_of_u64 b64))"

text \<open>\<open>operator*=(uint32_t)\<close>.\<close>

fun mul_u32_loop :: "u64 \<Rightarrow> u32 \<Rightarrow> base_uint \<Rightarrow> base_uint" where
  "mul_u32_loop carry b32 [] = []"
| "mul_u32_loop carry b32 (p # ps) =
     (let n = carry + ucast b32 * ucast p
      in ucast (n AND 0xffffffff) # mul_u32_loop (drop_bit 32 n) b32 ps)"

definition uint_mul_u32 :: "base_uint \<Rightarrow> u32 \<Rightarrow> base_uint" where
  "uint_mul_u32 a b32 = mul_u32_loop 0 b32 a"

text \<open>
  \<open>operator*=(base_uint)\<close>: the inner loop runs over the limbs of the accumulator from \<open>j\<close> on
  (as long as \<open>i + j < WIDTH\<close>), the outer loop over \<open>j\<close>.
\<close>

fun mul_inner :: "u64 \<Rightarrow> u32 \<Rightarrow> base_uint \<Rightarrow> base_uint \<Rightarrow> base_uint" where
  "mul_inner carry pj (a # as) (b # bs) =
     (let n = carry + ucast a + ucast pj * ucast b
      in ucast (n AND 0xffffffff) # mul_inner (drop_bit 32 n) pj as bs)"
| "mul_inner carry pj as _ = as"

definition mul_step :: "base_uint \<Rightarrow> base_uint \<Rightarrow> nat \<Rightarrow> base_uint \<Rightarrow> base_uint" where
  "mul_step pn b j a = take j a @ mul_inner 0 (pn ! j) (drop j a) b"

definition uint_mul :: "base_uint \<Rightarrow> base_uint \<Rightarrow> base_uint" where
  "uint_mul a b = fold (mul_step a b) [0..<WIDTH] uint_zero"

text \<open>\<open>operator<<=\<close> and \<open>operator>>=\<close>: one step of the loop per limb \<open>i\<close> of the old value \<open>a\<close>.\<close>

definition shl_step :: "base_uint \<Rightarrow> nat \<Rightarrow> nat \<Rightarrow> nat \<Rightarrow> base_uint \<Rightarrow> base_uint" where
  "shl_step a k shift i pn =
     (let pn1 = (if i + k + 1 < WIDTH \<and> shift \<noteq> 0
                 then pn[i + k + 1 := pn ! (i + k + 1) OR drop_bit (32 - shift) (a ! i)] else pn)
      in if i + k < WIDTH then pn1[i + k := pn1 ! (i + k) OR push_bit shift (a ! i)] else pn1)"

definition uint_shl :: "base_uint \<Rightarrow> nat \<Rightarrow> base_uint" where
  "uint_shl a shift = fold (shl_step a (shift div 32) (shift mod 32)) [0..<WIDTH] uint_zero"

definition shr_step :: "base_uint \<Rightarrow> nat \<Rightarrow> nat \<Rightarrow> nat \<Rightarrow> base_uint \<Rightarrow> base_uint" where
  "shr_step a k shift i pn =
     (let pn1 = (if k + 1 \<le> i \<and> shift \<noteq> 0
                 then pn[i - k - 1 := pn ! (i - k - 1) OR push_bit (32 - shift) (a ! i)] else pn)
      in if k \<le> i then pn1[i - k := pn1 ! (i - k) OR drop_bit shift (a ! i)] else pn1)"

definition uint_shr :: "base_uint \<Rightarrow> nat \<Rightarrow> base_uint" where
  "uint_shr a shift = fold (shr_step a (shift div 32) (shift mod 32)) [0..<WIDTH] uint_zero"

text \<open>\<open>CompareTo\<close>: from the most significant limb down.  \<open>EqualTo\<close> compares with a 64-bit value.\<close>

fun compare_from :: "nat \<Rightarrow> base_uint \<Rightarrow> base_uint \<Rightarrow> int" where
  "compare_from 0 a b = 0"
| "compare_from (Suc i) a b =
     (if a ! i < b ! i then - 1 else if a ! i > b ! i then 1 else compare_from i a b)"

definition CompareTo :: "base_uint \<Rightarrow> base_uint \<Rightarrow> int" where
  "CompareTo a b = compare_from WIDTH a b"

definition EqualTo :: "base_uint \<Rightarrow> u64 \<Rightarrow> bool" where
  "EqualTo a b =
     (if \<exists>i \<in> set [2..<WIDTH]. a ! i \<noteq> 0 then False
      else if (ucast (a ! 1) :: u64) \<noteq> drop_bit 32 b then False
      else if (ucast (a ! 0) :: u64) \<noteq> b AND 0xffffffff then False
      else True)"

text \<open>\<open>bits\<close>: the position of the highest set bit plus one, zero for the value zero.\<close>

fun limb_bits :: "nat \<Rightarrow> u32 \<Rightarrow> nat" where
  "limb_bits 0 w = 1"
| "limb_bits (Suc nbits) w = (if bit w (Suc nbits) then Suc nbits + 1 else limb_bits nbits w)"

fun bits_from :: "nat \<Rightarrow> base_uint \<Rightarrow> nat" where
  "bits_from 0 a = 0"
| "bits_from (Suc pos) a =
     (if a ! pos \<noteq> 0 then 32 * pos + limb_bits 31 (a ! pos) else bits_from pos a)"

definition uint_bits :: "base_uint \<Rightarrow> nat" where
  "uint_bits a = bits_from WIDTH a"

definition GetLow64 :: "base_uint \<Rightarrow> u64" where
  "GetLow64 a = ucast (a ! 0) OR push_bit 32 (ucast (a ! 1))"

text \<open>
  \<open>operator/=\<close>: shift-and-subtract division.  \<open>div_loop n\<close> runs the iterations
  \<open>shift = n - 1, \<dots>, 0\<close>.
\<close>

fun div_loop :: "nat \<Rightarrow> base_uint \<Rightarrow> base_uint \<Rightarrow> base_uint \<Rightarrow> base_uint" where
  "div_loop 0 num d q = q"
| "div_loop (Suc shift) num d q =
     (if CompareTo num d \<ge> 0
      then div_loop shift (uint_sub num d) (uint_shr d 1)
             (q[shift div 32 := q ! (shift div 32) OR push_bit (shift mod 32) 1])
      else div_loop shift num (uint_shr d 1) q)"

definition uint_div :: "base_uint \<Rightarrow> base_uint \<Rightarrow> uint_error + base_uint" where
  "uint_div a b =
     (let num_bits = uint_bits a; div_bits = uint_bits b
      in if div_bits = 0 then Inl DivisionByZero
         else if div_bits > num_bits then Inr uint_zero
         else let shift = num_bits - div_bits
              in Inr (div_loop (Suc shift) a (uint_shl b shift) uint_zero))"

section \<open>The compact encoding\<close>

text \<open>
  \<open>SetCompact\<close> returns the decoded number together with \<open>*pfNegative\<close> and \<open>*pfOverflow\<close>;
  \<open>GetCompact\<close> returns \<open>None\<close> where one of its assertions would fail.
\<close>

definition SetCompact :: "u32 \<Rightarrow> base_uint \<times> bool \<times> bool" where
  "SetCompact nCompact =
     (let nSize = unat (drop_bit 24 nCompact);
          nWord0 = nCompact AND 0x007fffff;
          nWord = (if nSize \<le> 3 then drop_bit (8 * (3 - nSize)) nWord0 else nWord0);
          this = (if nSize \<le> 3 then uint_of_u64 (ucast nWord)
                  else uint_shl (uint_of_u64 (ucast nWord)) (8 * (nSize - 3)));
          fNegative = (nWord \<noteq> 0 \<and> nCompact AND 0x00800000 \<noteq> 0);
          fOverflow = (nWord \<noteq> 0 \<and> (nSize > 34 \<or> (nWord > 0xff \<and> nSize > 33)
                                     \<or> (nWord > 0xffff \<and> nSize > 32)))
      in (this, fNegative, fOverflow))"

definition GetCompact :: "base_uint \<Rightarrow> bool \<Rightarrow> u32 option" where
  "GetCompact a fNegative =
     (let nSize0 = (uint_bits a + 7) div 8;
          nCompact0 = (if nSize0 \<le> 3 then ucast (push_bit (8 * (3 - nSize0)) (GetLow64 a))
                       else ucast (GetLow64 (uint_shr a (8 * (nSize0 - 3))))) :: u32;
          carried = (nCompact0 AND 0x00800000 \<noteq> 0);
          nCompact1 = (if carried then drop_bit 8 nCompact0 else nCompact0);
          nSize = (if carried then nSize0 + 1 else nSize0)
      in if nCompact1 AND NOT 0x007fffff \<noteq> 0 then None
         else if \<not> nSize < 256 then None
         else let nCompact2 = nCompact1 OR push_bit 24 (word_of_nat nSize)
              in Some (nCompact2 OR
                       (if fNegative \<and> nCompact2 AND 0x007fffff \<noteq> 0 then 0x00800000 else 0)))"

text \<open>
  \<open>ArithToUint256\<close> and \<open>UintToArith256\<close>: a \<open>uint256\<close> is a buffer of 32 bytes, four per limb
  in little-endian order (\<open>WriteLE32\<close>, \<open>ReadLE32\<close>).
\<close>

definition ArithToUint256 :: "base_uint \<Rightarrow> bytes" where
  "ArithToUint256 a = concat (map WriteLE32 a)"

definition UintToArith256 :: "bytes \<Rightarrow> base_uint" where
  "UintToArith256 a = map (\<lambda>x. ReadLE32 (drop (x * 4) a)) [0..<WIDTH]"

section \<open>The value of the limb operators\<close>

text \<open>Splitting a 64-bit intermediate value into the limb stored and the carry.\<close>

lemma limb_low: "(ucast (n AND 0xffffffff :: u64) :: u32) = ucast n"
proof -
  have m: "(0xffffffff :: u64) = mask 32" by (simp add: mask_eq_exp_minus_1)
  show ?thesis unfolding m by (rule bit_word_eqI) (auto simp: bit_simps)
qed

lemma unat_split_u64:
  "unat (n :: u64) = unat (ucast n :: u32) + 2 ^ 32 * unat (drop_bit 32 n)"
proof -
  have "unat (drop_bit 32 n) = unat n div 2 ^ 32"
    by (simp only: unat_drop_bit_eq) (simp only: drop_bit_eq_div)
  moreover have "unat (ucast n :: u32) = unat n mod 2 ^ 32"
    by (simp add: unsigned_ucast_eq take_bit_eq_mod)
  ultimately show ?thesis by (simp only: mod_mult_div_eq)
qed

lemma limb_sum:
  assumes "unat (n :: u64) = s"
  shows "unat (ucast n :: u32) + 2 ^ 32 * (unat (drop_bit 32 n) + v) = s + 2 ^ 32 * v"
  unfolding assms [symmetric] by (subst (2) unat_split_u64) (simp only: algebra_simps)

lemma unat_carry_less: "unat (drop_bit 32 (n :: u64)) < 2 ^ 32"
proof -
  have "unat n div 2 ^ 32 < 2 ^ 32"
    using unsigned_less [of n, where ?'a = nat] by (intro less_mult_imp_div_less) simp
  then show ?thesis by (simp only: unat_drop_bit_eq) (simp only: drop_bit_eq_div)
qed

lemma unat_ucast_u32_u64 [simp]: "unat (ucast (p :: u32) :: u64) = unat p"
  using unsigned_less [of p, where ?'a = nat] by (simp add: unsigned_ucast_eq take_bit_eq_mod)

lemma le_val_cons_mod:
  fixes x :: u32
  assumes "le_val xs = c mod 2 ^ (32 * k)" 
  shows "le_val (x # xs) = (unat x + 2 ^ 32 * c) mod 2 ^ (32 * Suc k)"
proof -
  have "unat x < 2 ^ 32" using unsigned_less [of x, where ?'a = nat] by simp
  have "(unat x + 2 ^ 32 * c) mod (2 ^ 32 * 2 ^ (32 * k))
      = 2 ^ 32 * ((unat x + 2 ^ 32 * c) div 2 ^ 32 mod 2 ^ (32 * k)) + (unat x + 2 ^ 32 * c) mod 2 ^ 32"
    by (rule mod_mult2_eq)
  also have "\<dots> = 2 ^ 32 * (c mod 2 ^ (32 * k)) + unat x"
    using \<open>unat x < 2 ^ 32\<close> by (simp add: div_add1_eq)
  finally show ?thesis using assms by (simp add: power_add)
qed

lemma length_add_loop [simp]: "length (add_loop c a b) = min (length a) (length b)"
  by (induction c a b rule: add_loop.induct) (auto simp: Let_def)

lemma unat_plus_bound: "unat x + unat y < 2 ^ 64 \<Longrightarrow> unat (x + y :: u64) = unat x + unat y"
  by (simp add: unat_word_ariths)

lemma unat_mult_bound: "unat x * unat y < 2 ^ 64 \<Longrightarrow> unat (x * y :: u64) = unat x * unat y"
  by (simp add: unat_word_ariths)

lemma u32_bound: "unat (p :: u32) \<le> 2 ^ 32 - 1"
  using unsigned_less [of p, where ?'a = nat] by simp

lemma unat_mul_add:
  fixes x y z :: u32
  assumes "unat c < 2 ^ 32"
  shows "unat (c + ucast x + ucast y * ucast z :: u64) = unat c + unat x + unat y * unat z"
proof -
  have x: "unat x \<le> 4294967295" using u32_bound [of x] by simp
  have c: "unat c \<le> 4294967295" using assms by simp
  have "unat y * unat z \<le> (2 ^ 32 - 1) * (2 ^ 32 - 1)"
    by (rule mult_le_mono [OF u32_bound u32_bound])
  then have yz: "unat y * unat z \<le> 18446744065119617025" by simp
  have m: "unat (ucast y * ucast z :: u64) = unat y * unat z"
    by (rule trans [OF unat_mult_bound]) (use yz in simp_all)
  have a: "unat (c + ucast x :: u64) = unat c + unat x"
    by (rule trans [OF unat_plus_bound]) (use x c in simp_all)
  show ?thesis
    by (rule trans [OF unat_plus_bound]) (use x c yz m a in simp_all)
qed

lemma le_val_add_loop:
  assumes "length a = length b" "unat c < 2 ^ 32"
  shows "le_val (add_loop c a b) = (unat c + le_val a + le_val b) mod 2 ^ (32 * length a)"
  using assms
proof (induction c a b rule: add_loop.induct)
  case (1 carry p ps b bs)
  define n where "n = carry + ucast p + (ucast b :: u64)"
  have n: "unat n = unat carry + unat p + unat b"
    using unat_mul_add [of carry p b 1] 1(3) by (simp add: n_def)
  have "le_val (add_loop (drop_bit 32 n) ps bs)
      = (unat (drop_bit 32 n) + (le_val ps + le_val bs)) mod 2 ^ (32 * length ps)"
    using 1 unat_carry_less by (simp add: n_def add.assoc)
  from le_val_cons_mod [OF this, of "ucast n"]
  have "le_val (add_loop carry (p # ps) (b # bs))
      = (unat (ucast n :: u32) + 2 ^ 32 * (unat (drop_bit 32 n) + (le_val ps + le_val bs)))
        mod 2 ^ (32 * Suc (length ps))"
    by (simp only: add_loop.simps Let_def limb_low n_def)
  also have "unat (ucast n :: u32) + 2 ^ 32 * (unat (drop_bit 32 n) + (le_val ps + le_val bs))
      = unat carry + le_val (p # ps) + le_val (b # bs)"
    by (subst limb_sum [OF n]) (simp add: distrib_left mult.left_commute)
  finally show ?case by simp
qed auto

lemma le_val_mul_u32_loop:
  assumes "unat c < 2 ^ 32"
  shows "le_val (mul_u32_loop c b a) = (unat c + unat b * le_val a) mod 2 ^ (32 * length a)"
  using assms
proof (induction c b a rule: mul_u32_loop.induct)
  case (2 carry b p ps)
  define n where "n = carry + ucast b * (ucast p :: u64)"
  have n: "unat n = unat carry + unat b * unat p"
    using unat_mul_add [of carry 0 b p] 2(2) by (simp add: n_def)
  have "le_val (mul_u32_loop (drop_bit 32 n) b ps)
      = (unat (drop_bit 32 n) + unat b * le_val ps) mod 2 ^ (32 * length ps)"
    using 2 unat_carry_less by (simp add: n_def)
  from le_val_cons_mod [OF this, of "ucast n"]
  have "le_val (mul_u32_loop carry b (p # ps))
      = (unat (ucast n :: u32) + 2 ^ 32 * (unat (drop_bit 32 n) + unat b * le_val ps))
        mod 2 ^ (32 * Suc (length ps))"
    by (simp only: mul_u32_loop.simps Let_def limb_low n_def)
  also have "unat (ucast n :: u32) + 2 ^ 32 * (unat (drop_bit 32 n) + unat b * le_val ps)
      = unat carry + unat b * le_val (p # ps)"
    by (subst limb_sum [OF n]) (simp add: distrib_left mult.left_commute)
  finally show ?case by simp
qed auto

lemma length_mul_u32_loop [simp]: "length (mul_u32_loop c b a) = length a"
  by (induction c b a rule: mul_u32_loop.induct) (auto simp: Let_def)

lemma length_mul_inner [simp]: "length (mul_inner c x a b) = length a"
  by (induction c x a b rule: mul_inner.induct) (auto simp: Let_def)

lemma le_val_mul_inner:
  assumes "length a \<le> length b" "unat c < 2 ^ 32"
  shows "le_val (mul_inner c x a b) = (unat c + le_val a + unat x * le_val b) mod 2 ^ (32 * length a)"
  using assms
proof (induction c x a b rule: mul_inner.induct)
  case (1 carry x a as b bs)
  define n where "n = carry + ucast a + ucast x * (ucast b :: u64)"
  have n: "unat n = unat carry + unat a + unat x * unat b"
    using unat_mul_add [of carry a x b] 1(3) by (simp add: n_def)
  have "le_val (mul_inner (drop_bit 32 n) x as bs)
      = (unat (drop_bit 32 n) + (le_val as + unat x * le_val bs)) mod 2 ^ (32 * length as)"
    using 1 unat_carry_less by (simp add: n_def add.assoc)
  from le_val_cons_mod [OF this, of "ucast n"]
  have "le_val (mul_inner carry x (a # as) (b # bs))
      = (unat (ucast n :: u32) + 2 ^ 32 * (unat (drop_bit 32 n) + (le_val as + unat x * le_val bs)))
        mod 2 ^ (32 * Suc (length as))"
    by (simp only: mul_inner.simps Let_def limb_low n_def)
  also have "unat (ucast n :: u32) + 2 ^ 32 * (unat (drop_bit 32 n) + (le_val as + unat x * le_val bs))
      = unat carry + le_val (a # as) + unat x * le_val (b # bs)"
    by (subst limb_sum [OF n]) (simp add: distrib_left mult.left_commute)
  finally show ?case by simp
qed auto

text \<open>Negation, increment and decrement.\<close>

lemma unat_not_u32: "unat (NOT (w :: u32)) = 2 ^ 32 - 1 - unat w"
proof -
  have "NOT w = - 1 - w" by (simp add: not_eq_complement)
  then show ?thesis by (simp add: unat_sub unsigned_minus_1_eq_mask mask_eq_exp_minus_1)
qed

lemma le_val_not [val_simps]: "le_val (map NOT (a :: u32 list)) = 2 ^ (32 * length a) - 1 - le_val a"
proof (induction a)
  case (Cons w ws)
  have "le_val ws < 2 ^ (32 * length ws)" using le_val_less [of ws] by simp
  moreover have "unat w < 2 ^ 32" using unsigned_less [of w, where ?'a = nat] by simp
  ultimately have "2 ^ 32 - 1 - unat w + 2 ^ 32 * (2 ^ (32 * length ws) - 1 - le_val ws)
      = 2 ^ 32 * 2 ^ (32 * length ws) - 1 - (unat w + 2 ^ 32 * le_val ws)"
    by (simp add: algebra_simps)
  then show ?case using Cons by (simp add: unat_not_u32 power_add)
qed simp

lemma inc_limb: "p + 1 = 0 \<longleftrightarrow> unat (p :: u32) = 2 ^ 32 - 1"
  using unsigned_less [of p, where ?'a = nat] by (auto simp: word_unat_eq_iff unat_word_ariths mod_Suc)

lemma le_val_inc [val_simps]: "le_val (uint_inc a) = (le_val a + 1) mod 2 ^ (32 * length a)"
proof (induction a)
  case (Cons p ps)
  have b: "le_val (p # ps) < 2 ^ (32 * length (p # ps))" using le_val_less [of "p # ps"] by simp
  show ?case
  proof (cases "p + 1 = 0")
    case True
    then have "unat p + 1 = 2 ^ 32" by (simp add: inc_limb)
    then have "le_val (p # ps) + 1 = unat (0 :: u32) + 2 ^ 32 * (le_val ps + 1)" by simp
    then show ?thesis using le_val_cons_mod [OF Cons.IH, of 0] True by simp
  next
    case False
    then have u: "unat (p + 1) = unat p + 1"
      using u32_bound [of p] by (simp add: inc_limb unat_word_ariths)
    have "le_val ((p + 1) # ps) < 2 ^ (32 * length (p # ps))" using le_val_less [of "(p + 1) # ps"] by simp
    then show ?thesis using False u by simp
  qed
qed simp

lemma length_uint_inc [simp]: "length (uint_inc a) = length a"
  by (induction a) auto

lemma length_uint_dec [simp]: "length (uint_dec a) = length a"
  by (induction a) auto

lemma le_val_dec [val_simps]:
  "le_val (uint_dec a) = (if le_val a = 0 then 2 ^ (32 * length a) - 1 else le_val a - 1)"
proof (induction a)
  case (Cons p ps)
  show ?case
  proof (cases "p = 0")
    case True
    then show ?thesis using Cons le_val_less [of ps] by (auto simp: power_add diff_mult_distrib2 unsigned_minus_1_eq_mask mask_eq_exp_minus_1)
  next
    case False
    then have "unat (p - 1) = unat p - 1" "unat p > 0" by (auto simp: unat_minus_one unat_gt_0)
    moreover have "p - 1 \<noteq> 0xffffffff" using u32_bound [of p] calculation by (auto simp: word_unat_eq_iff)
    ultimately show ?thesis by simp
  qed
qed simp

text \<open>Reading single bits of a limb list.\<close>

lemma bit_le_val:
  "bit (le_val (ws :: 'a::len word list)) m \<longleftrightarrow>
     m div LENGTH('a) < length ws \<and> bit (ws ! (m div LENGTH('a))) (m mod LENGTH('a))"
proof (induction ws arbitrary: m)
  case (Cons w ws)
  let ?L = "LENGTH('a)"
  have "bit (unat w + push_bit ?L (le_val ws)) m \<longleftrightarrow> bit (unat w) m \<or> bit (push_bit ?L (le_val ws)) m"
    by (rule bit_disjunctive_add_iff) (auto simp: bit_simps dest: bit_imp_le_length)
  also have "\<dots> \<longleftrightarrow> (if m < ?L then bit w m else bit (le_val ws) (m - ?L))"
    by (auto simp: bit_simps dest: bit_imp_le_length)
  finally show ?case
    using Cons.IH [of "m - ?L"]
    by (auto simp: push_bit_eq_mult mult.commute nth_Cons' le_div_geq le_mod_geq)
qed simp

lemma bit_le_val_u32:
  "bit (le_val (ws :: u32 list)) m \<longleftrightarrow> m div 32 < length ws \<and> bit (ws ! (m div 32)) (m mod 32)"
  by (simp add: bit_le_val)

text \<open>The shifts: the contents of each limb after the first \<open>n\<close> steps of the loop.\<close>

definition shl_limb :: "base_uint \<Rightarrow> nat \<Rightarrow> nat \<Rightarrow> nat \<Rightarrow> nat \<Rightarrow> u32" where
  "shl_limb a k s n j =
     (if k \<le> j \<and> j - k < n then push_bit s (a ! (j - k)) else 0)
     OR (if s \<noteq> 0 \<and> k < j \<and> j - k - 1 < n then drop_bit (32 - s) (a ! (j - k - 1)) else 0)"

lemma shl_step_map:
  "shl_step a k s n (map (shl_limb a k s n) [0..<WIDTH]) = map (shl_limb a k s (Suc n)) [0..<WIDTH]"
proof (rule nth_equalityI)
  fix j
  assume "j < length (shl_step a k s n (map (shl_limb a k s n) [0..<WIDTH]))"
  then have j: "j < WIDTH" by (auto simp: shl_step_def Let_def split: if_splits)
  consider "j = n + k" | "j = n + k + 1" | "j \<noteq> n + k" "j \<noteq> n + k + 1" by blast
  then show "shl_step a k s n (map (shl_limb a k s n) [0..<WIDTH]) ! j
      = map (shl_limb a k s (Suc n)) [0..<WIDTH] ! j"
  proof cases
    case 1
    then show ?thesis using j
      by (cases n) (auto simp: shl_step_def Let_def shl_limb_def ac_simps)
  next
    case 2
    then show ?thesis using j by (auto simp: shl_step_def Let_def shl_limb_def)
  next
    case 3
    then have "k \<le> j \<and> j - k < Suc n \<longleftrightarrow> k \<le> j \<and> j - k < n"
      "k < j \<and> j - k - 1 < Suc n \<longleftrightarrow> k < j \<and> j - k - 1 < n" by arith+
    then show ?thesis using j 3 by (simp add: shl_step_def Let_def shl_limb_def)
  qed
qed (simp add: shl_step_def Let_def)

lemma shl_fold:
  "fold (shl_step a k s) [0..<n] uint_zero = map (shl_limb a k s n) [0..<WIDTH]"
proof (induction n)
  case 0
  then show ?case by (auto simp: uint_zero_def shl_limb_def map_replicate_const intro!: nth_equalityI)
next
  case (Suc n)
  then show ?case by (simp add: shl_step_map)
qed

definition shr_limb :: "base_uint \<Rightarrow> nat \<Rightarrow> nat \<Rightarrow> nat \<Rightarrow> nat \<Rightarrow> u32" where
  "shr_limb a k s n j =
     (if j + k < n then drop_bit s (a ! (j + k)) else 0)
     OR (if s \<noteq> 0 \<and> j + k + 1 < n then push_bit (32 - s) (a ! (j + k + 1)) else 0)"

lemma shr_step_map:
  assumes "n < WIDTH"
  shows "shr_step a k s n (map (shr_limb a k s n) [0..<WIDTH]) = map (shr_limb a k s (Suc n)) [0..<WIDTH]"
proof (rule nth_equalityI)
  fix j
  assume "j < length (shr_step a k s n (map (shr_limb a k s n) [0..<WIDTH]))"
  then have j: "j < WIDTH" by (auto simp: shr_step_def Let_def split: if_splits)
  consider "n = j + k" | "n = j + k + 1" | "n \<noteq> j + k" "n \<noteq> j + k + 1" by blast
  then show "shr_step a k s n (map (shr_limb a k s n) [0..<WIDTH]) ! j
      = map (shr_limb a k s (Suc n)) [0..<WIDTH] ! j"
  proof cases
    case 1
    then show ?thesis using j assms
      by (cases j) (auto simp: shr_step_def Let_def shr_limb_def ac_simps)
  next
    case 2
    then show ?thesis using j assms by (auto simp: shr_step_def Let_def shr_limb_def)
  next
    case 3
    then have "k \<le> n \<longrightarrow> n - k \<noteq> j" "k + 1 \<le> n \<longrightarrow> n - k - 1 \<noteq> j" by arith+
    then have "shr_step a k s n (map (shr_limb a k s n) [0..<WIDTH]) ! j = shr_limb a k s n j"
      using j unfolding shr_step_def Let_def by simp
    moreover from 3 have "j + k < Suc n \<longleftrightarrow> j + k < n" "j + k + 1 < Suc n \<longleftrightarrow> j + k + 1 < n"
      by arith+
    ultimately show ?thesis using j by (simp add: shr_limb_def)
  qed
qed (simp add: shr_step_def Let_def)

lemma shr_fold:
  "n \<le> WIDTH \<Longrightarrow>
   fold (shr_step a k s) [0..<n] uint_zero = map (shr_limb a k s n) [0..<WIDTH]"
proof (induction n)
  case 0
  then show ?case by (auto simp: uint_zero_def shr_limb_def map_replicate_const intro!: nth_equalityI)
next
  case (Suc n)
  then show ?case by (simp add: shr_step_map)
qed

lemma uint_shl_limbs: "uint_shl a n = map (shl_limb a (n div 32) (n mod 32) WIDTH) [0..<WIDTH]"
  by (simp add: uint_shl_def shl_fold)

lemma uint_shr_limbs: "uint_shr a n = map (shr_limb a (n div 32) (n mod 32) WIDTH) [0..<WIDTH]"
  by (simp add: uint_shr_def shr_fold)

lemma length_uint_shl [simp]: "length (uint_shl a n) = WIDTH"
  by (simp add: uint_shl_limbs)

lemma length_uint_shr [simp]: "length (uint_shr a n) = WIDTH"
  by (simp add: uint_shr_limbs)

lemma div_mod_32: "(32 * q + r) div 32 = q" "(32 * q + r) mod 32 = r" if "r < 32" for q r :: nat
  using that by simp_all

lemma div_mod_32_cases:
  fixes m :: nat
  obtains q r where "m = 32 * q + r" "r < 32" "m div 32 = q" "m mod 32 = r"
  by (metis div_mod_32 mod_less_divisor mult_div_mod_eq zero_less_numeral)

lemma div_mod_sub_ge:
  fixes m n :: nat
  assumes "n mod 32 \<le> m mod 32"
  shows "n \<le> m \<longleftrightarrow> n div 32 \<le> m div 32"
    and "n \<le> m \<Longrightarrow> (m - n) div 32 = m div 32 - n div 32"
    and "n \<le> m \<Longrightarrow> (m - n) mod 32 = m mod 32 - n mod 32"
proof -
  obtain q r where m: "m = 32 * q + r" "r < 32" "m div 32 = q" "m mod 32 = r" by (rule div_mod_32_cases)
  obtain q' r' where n: "n = 32 * q' + r'" "r' < 32" "n div 32 = q'" "n mod 32 = r'" by (rule div_mod_32_cases)
  have r: "r' \<le> r" using assms m n by simp
  show le: "n \<le> m \<longleftrightarrow> n div 32 \<le> m div 32" unfolding m(3) n(3) using m(1,2) n(1,2) r by linarith
  assume "n \<le> m"
  then have "q' \<le> q" using le m n by simp
  then have "m - n = 32 * (q - q') + (r - r')" unfolding m(1) n(1) using r by simp
  moreover have "r - r' < 32" using m by simp
  ultimately show "(m - n) div 32 = m div 32 - n div 32" "(m - n) mod 32 = m mod 32 - n mod 32"
    unfolding m(3,4) n(3,4) using div_mod_32 [of "r - r'" "q - q'"] by simp_all
qed

lemma div_mod_sub_less:
  fixes m n :: nat
  assumes "m mod 32 < n mod 32"
  shows "n \<le> m \<longleftrightarrow> n div 32 < m div 32"
    and "n \<le> m \<Longrightarrow> (m - n) div 32 = m div 32 - n div 32 - 1"
    and "n \<le> m \<Longrightarrow> (m - n) mod 32 = m mod 32 + (32 - n mod 32)"
proof -
  obtain q r where m: "m = 32 * q + r" "r < 32" "m div 32 = q" "m mod 32 = r" by (rule div_mod_32_cases)
  obtain q' r' where n: "n = 32 * q' + r'" "r' < 32" "n div 32 = q'" "n mod 32 = r'" by (rule div_mod_32_cases)
  have r: "r < r'" using assms m n by simp
  show le: "n \<le> m \<longleftrightarrow> n div 32 < m div 32" unfolding m(3) n(3) using m(1,2) n(1,2) r by linarith
  assume "n \<le> m"
  then have "q' < q" using le m n by simp
  then obtain d where "q = q' + 1 + d" by (metis add.commute add.left_commute less_iff_Suc_add plus_1_eq_Suc)
  then have "m - n = 32 * (q - q' - 1) + (r + (32 - r'))" unfolding m(1) n(1) using r n(2) by simp
  moreover have "r + (32 - r') < 32" using r n by simp
  ultimately show "(m - n) div 32 = m div 32 - n div 32 - 1" "(m - n) mod 32 = m mod 32 + (32 - n mod 32)"
    unfolding m(3,4) n(3,4) using div_mod_32 [of "r + (32 - r')" "q - q' - 1"] by simp_all
qed

lemma div_mod_add_less:
  fixes m n :: nat
  assumes "m mod 32 + n mod 32 < 32"
  shows "(m + n) div 32 = m div 32 + n div 32" and "(m + n) mod 32 = m mod 32 + n mod 32"
  using assms div_add1_eq [of m n 32] mod_add_eq [of m 32 n] mod_less [of "m mod 32 + n mod 32" 32]
    div_less [of "m mod 32 + n mod 32" 32]
  by (simp_all only: add_0_right)

lemma div_mod_add_ge:
  fixes m n :: nat
  assumes "\<not> m mod 32 + n mod 32 < 32"
  shows "(m + n) div 32 = m div 32 + n div 32 + 1" and "(m + n) mod 32 = m mod 32 - (32 - n mod 32)"
proof -
  have "m mod 32 < 32" "n mod 32 < 32" by simp_all
  then have "(m mod 32 + n mod 32) div 32 = 1" "(m mod 32 + n mod 32) mod 32 = m mod 32 + n mod 32 - 32"
    using assms by (auto simp: le_div_geq le_mod_geq)
  then show "(m + n) div 32 = m div 32 + n div 32 + 1" "(m + n) mod 32 = m mod 32 - (32 - n mod 32)"
    using div_add1_eq [of m n 32] mod_add_eq [of m 32 n] \<open>n mod 32 < 32\<close> by (simp_all only:) simp
qed

lemma bit_shl_limb_raw:
  assumes "i < WIDTH" "j < 32" "s < 32"
  shows "bit (shl_limb a k s WIDTH i) j \<longleftrightarrow>
    (if s \<le> j then k \<le> i \<and> bit (a ! (i - k)) (j - s)
     else k < i \<and> bit (a ! (i - k - 1)) (j + (32 - s)))"
  using assms by (auto simp: shl_limb_def bit_simps add.commute dest: bit_imp_le_length)

lemma bit_shl_limb:
  assumes "wf_uint a" "m < 32 * WIDTH"
  shows "bit (shl_limb a (n div 32) (n mod 32) WIDTH (m div 32)) (m mod 32) \<longleftrightarrow>
         n \<le> m \<and> bit (le_val a) (m - n)"
proof -
  have i: "m div 32 < WIDTH" using assms by (simp add: WIDTH_def)
  note raw = bit_shl_limb_raw [OF i, of "m mod 32" "n mod 32" a "n div 32", simplified]
  have "(m - n) div 32 < length a" using assms by (simp add: wf_uint_def WIDTH_def)
  then have v: "bit (le_val a) (m - n) = bit (a ! ((m - n) div 32)) ((m - n) mod 32)"
    by (simp add: bit_le_val_u32)
  show ?thesis
  proof (cases "n mod 32 \<le> m mod 32")
    case True
    show ?thesis unfolding raw v using True div_mod_sub_ge [OF True] by metis
  next
    case False
    then have F: "m mod 32 < n mod 32" by simp
    show ?thesis unfolding raw v using False div_mod_sub_less [OF F] by (metis One_nat_def)
  qed
qed

lemma bit_shr_limb_raw:
  assumes "j < 32" "s < 32"
  shows "bit (shr_limb a k s WIDTH i) j \<longleftrightarrow>
    (if j + s < 32 then i + k < WIDTH \<and> bit (a ! (i + k)) (j + s)
     else i + k + 1 < WIDTH \<and> bit (a ! (i + k + 1)) (j - (32 - s)))"
  using assms by (auto simp: shr_limb_def bit_simps add.commute dest: bit_imp_le_length)

lemma bit_shr_limb:
  assumes "wf_uint a"
  shows "bit (shr_limb a (n div 32) (n mod 32) WIDTH (m div 32)) (m mod 32) \<longleftrightarrow>
         bit (le_val a) (m + n)"
proof -
  note raw = bit_shr_limb_raw [of "m mod 32" "n mod 32" a "n div 32" "m div 32", simplified]
  have v: "bit (le_val a) (m + n) \<longleftrightarrow>
      (m + n) div 32 < WIDTH \<and> bit (a ! ((m + n) div 32)) ((m + n) mod 32)"
    using assms by (simp add: bit_le_val_u32 wf_uint_def)
  show ?thesis
  proof (cases "m mod 32 + n mod 32 < 32")
    case True
    show ?thesis unfolding raw v using True div_mod_add_less [OF True] by metis
  next
    case False
    show ?thesis unfolding raw v using False div_mod_add_ge [OF False] by (metis Suc_eq_plus1)
  qed
qed

lemma le_val_shl [val_simps]:
  assumes "wf_uint a"
  shows "le_val (uint_shl a n) = (le_val a * 2 ^ n) mod 2 ^ 256"
proof -
  have "le_val (uint_shl a n) = take_bit 256 (push_bit n (le_val a))"
  proof (rule bit_eqI)
    fix m
    have "bit (le_val (uint_shl a n)) m \<longleftrightarrow>
        m < 256 \<and> bit (shl_limb a (n div 32) (n mod 32) WIDTH (m div 32)) (m mod 32)"
      unfolding bit_le_val_u32 by (auto simp: uint_shl_limbs WIDTH_def)
    then show "bit (le_val (uint_shl a n)) m = bit (take_bit 256 (push_bit n (le_val a))) m"
      using assms bit_shl_limb [of a m n] by (auto simp: bit_simps WIDTH_def)
  qed
  then show ?thesis by (simp add: take_bit_eq_mod push_bit_eq_mult)
qed

lemma le_val_shr [val_simps]:
  assumes "wf_uint a"
  shows "le_val (uint_shr a n) = le_val a div 2 ^ n"
proof -
  have "le_val (uint_shr a n) = drop_bit n (le_val a)"
  proof (rule bit_eqI)
    fix m
    have "bit (le_val (uint_shr a n)) m \<longleftrightarrow>
        m div 32 < WIDTH \<and> bit (shr_limb a (n div 32) (n mod 32) WIDTH (m div 32)) (m mod 32)"
      unfolding bit_le_val_u32 by (auto simp: uint_shr_limbs)
    moreover have "bit (le_val a) (m + n) \<Longrightarrow> m div 32 < WIDTH"
      using assms div_le_mono [of m "m + n" 32] unfolding bit_le_val_u32 wf_uint_def by linarith
    ultimately show "bit (le_val (uint_shr a n)) m = bit (drop_bit n (le_val a)) m"
      using assms bit_shr_limb [of a n m] by (auto simp: bit_simps add.commute)
  qed
  then show ?thesis by (simp add: drop_bit_eq_div)
qed

text \<open>Values of the remaining operators.\<close>

lemma wf_uint_ops [simp, intro]:
  "wf_uint uint_zero" "wf_uint (uint_of_u64 x)" "wf_uint (uint_shl a n)" "wf_uint (uint_shr a n)"
  "wf_uint a \<Longrightarrow> wf_uint (uint_not a)" "wf_uint a \<Longrightarrow> wf_uint (uint_neg a)"
  "wf_uint a \<Longrightarrow> wf_uint (uint_inc a)" "wf_uint a \<Longrightarrow> wf_uint (uint_dec a)"
  "wf_uint a \<Longrightarrow> wf_uint b \<Longrightarrow> wf_uint (uint_add a b)"
  "wf_uint a \<Longrightarrow> wf_uint b \<Longrightarrow> wf_uint (uint_sub a b)"
  "wf_uint a \<Longrightarrow> wf_uint (uint_add_u64 a x)" "wf_uint a \<Longrightarrow> wf_uint (uint_sub_u64 a x)"
  "wf_uint a \<Longrightarrow> wf_uint (uint_mul_u32 a y)"
  by (simp_all add: wf_uint_def uint_zero_def uint_of_u64_def uint_not_def uint_neg_def uint_add_def
      uint_sub_def uint_add_u64_def uint_sub_u64_def uint_mul_u32_def WIDTH_def)

lemma wf_uint_less: "wf_uint a \<Longrightarrow> le_val a < 2 ^ 256"
  using le_val_less [of a] by (simp add: wf_uint_def WIDTH_def)

lemma wf_uint_inject: "wf_uint a \<Longrightarrow> wf_uint b \<Longrightarrow> le_val a = le_val b \<longleftrightarrow> a = b"
  by (simp add: wf_uint_def le_val_inject)

lemma uval_zero [val_simps]: "le_val uint_zero = 0"
  by (simp add: uint_zero_def)

lemma unat_ucast_less: "unat (w :: u64) < 2 ^ 32 \<Longrightarrow> unat (ucast w :: u32) = unat w"
  by (simp add: unsigned_ucast_eq take_bit_eq_mod)

lemma uval_of_u64 [val_simps]: "le_val (uint_of_u64 b) = unat b"
  using unat_split_u64 [of b] unat_ucast_less [OF unat_carry_less [of b]]
  by (simp only: uint_of_u64_def le_val.simps) simp

lemma uval_not [val_simps]: "wf_uint a \<Longrightarrow> le_val (uint_not a) = 2 ^ 256 - 1 - le_val a"
  by (simp add: uint_not_def le_val_not wf_uint_def WIDTH_def)

lemma uval_neg [val_simps]: "wf_uint a \<Longrightarrow> le_val (uint_neg a) = (2 ^ 256 - le_val a) mod 2 ^ 256"
proof -
  assume a: "wf_uint a"
  then have "2 ^ 256 - 1 - le_val a + 1 = 2 ^ 256 - le_val a"
    using wf_uint_less [of a] by simp
  with a show ?thesis
    by (simp only: uint_neg_def le_val_inc le_val_not wf_uint_def WIDTH_def length_map) simp
qed

lemma uval_add [val_simps]:
  "wf_uint a \<Longrightarrow> wf_uint b \<Longrightarrow> le_val (uint_add a b) = (le_val a + le_val b) mod 2 ^ 256"
  by (simp add: uint_add_def le_val_add_loop wf_uint_def WIDTH_def)

lemma uval_sub [val_simps]:
  "wf_uint a \<Longrightarrow> wf_uint b \<Longrightarrow> le_val (uint_sub a b) = (le_val a + (2 ^ 256 - le_val b)) mod 2 ^ 256"
  by (simp add: uint_sub_def uval_add uval_neg mod_add_right_eq)

lemma uval_sub_le:
  "wf_uint a \<Longrightarrow> wf_uint b \<Longrightarrow> le_val b \<le> le_val a \<Longrightarrow> le_val (uint_sub a b) = le_val a - le_val b"
proof -
  assume ab: "wf_uint a" "wf_uint b" "le_val b \<le> le_val a"
  then have "le_val a + (2 ^ 256 - le_val b) = le_val a - le_val b + 2 ^ 256"
    using wf_uint_less [of b] by simp
  moreover have "le_val a - le_val b < 2 ^ 256" using wf_uint_less [of a] ab by simp
  ultimately show ?thesis using ab by (simp only: uval_sub mod_add_self2 mod_less)
qed

lemma uval_mul_u32 [val_simps]:
  "wf_uint a \<Longrightarrow> le_val (uint_mul_u32 a b) = (le_val a * unat b) mod 2 ^ 256"
  by (simp add: uint_mul_u32_def le_val_mul_u32_loop wf_uint_def WIDTH_def mult.commute)

lemma length_mul_step [simp]: "length (mul_step pn b j a) = length a"
  by (simp add: mul_step_def)

lemma le_val_mul_step:
  assumes "length a = n" "length b = n" "j \<le> n"
  shows "le_val (mul_step pn b j a) = (le_val a + 2 ^ (32 * j) * (unat (pn ! j) * le_val b)) mod 2 ^ (32 * n)"
proof -
  let ?m = "2 ^ (32 * (n - j)) :: nat"
  have split: "le_val a = le_val (take j a) + 2 ^ (32 * j) * le_val (drop j a)"
    using assms le_val_append [of "take j a" "drop j a"] by simp
  have lt: "le_val (take j a) < 2 ^ (32 * j)"
    using assms le_val_less [of "take j a"] by simp
  have "le_val (mul_step pn b j a)
      = le_val (take j a) + 2 ^ (32 * j) * ((le_val (drop j a) + unat (pn ! j) * le_val b) mod ?m)"
    using assms by (simp add: mul_step_def le_val_append le_val_mul_inner)
  also have "\<dots> = (le_val (take j a) + 2 ^ (32 * j) * (le_val (drop j a) + unat (pn ! j) * le_val b))
      mod (2 ^ (32 * j) * ?m)"
    using lt by (simp add: mod_mult2_eq)
  also have "2 ^ (32 * j) * ?m = (2 ^ (32 * n) :: nat)"
    using assms by (simp add: power_add [symmetric] flip: distrib_left)
  finally show ?thesis unfolding split by (simp add: distrib_left add.assoc)
qed

lemma le_val_mul_fold:
  assumes "length b = n" "length pn = n" "k \<le> n"
  shows "length (fold (mul_step pn b) [0..<k] (replicate n 0)) = n \<and>
    le_val (fold (mul_step pn b) [0..<k] (replicate n 0)) = (le_val (take k pn) * le_val b) mod 2 ^ (32 * n)"
  using assms(3)
proof (induction k)
  case (Suc k)
  then have "take (Suc k) pn = take k pn @ [pn ! k]" using assms by (simp add: take_Suc_conv_app_nth)
  then have "le_val (take (Suc k) pn) = le_val (take k pn) + 2 ^ (32 * k) * unat (pn ! k)"
    using Suc assms by (simp add: le_val_append min_absorb2)
  then show ?case
    using Suc assms by (simp add: le_val_mul_step [of _ n] mod_add_left_eq distrib_right mult.assoc)
qed simp

lemma wf_uint_mul [simp, intro]: "wf_uint a \<Longrightarrow> wf_uint b \<Longrightarrow> wf_uint (uint_mul a b)"
  using le_val_mul_fold [of b WIDTH a WIDTH] by (simp add: uint_mul_def wf_uint_def uint_zero_def)

lemma uval_mul [val_simps]:
  "wf_uint a \<Longrightarrow> wf_uint b \<Longrightarrow> le_val (uint_mul a b) = (le_val a * le_val b) mod 2 ^ 256"
  using le_val_mul_fold [of b WIDTH a WIDTH] by (simp add: uint_mul_def wf_uint_def uint_zero_def WIDTH_def)

text \<open>Comparison.\<close>

lemma compare_from:
  assumes "i \<le> length a" "i \<le> length b"
  shows "compare_from i a b = sgn (int (le_val (take i a)) - int (le_val (take i b)))"
  using assms
proof (induction i)
  case (Suc i)
  have a: "le_val (take (Suc i) a) = le_val (take i a) + 2 ^ (32 * i) * unat (a ! i)"
    using Suc by (simp add: take_Suc_conv_app_nth le_val_append min_absorb2)
  have b: "le_val (take (Suc i) b) = le_val (take i b) + 2 ^ (32 * i) * unat (b ! i)"
    using Suc by (simp add: take_Suc_conv_app_nth le_val_append min_absorb2)
  have la: "le_val (take i a) < 2 ^ (32 * i)" and lb: "le_val (take i b) < 2 ^ (32 * i)"
    using Suc le_val_less [of "take i a"] le_val_less [of "take i b"] by simp_all
  have mono: "x + M * u < y + M * v" if "x < M" "u < v" for x y u v M :: nat
  proof -
    have "M * (u + 1) \<le> M * v" using that by (intro mult_le_mono2) simp
    then show ?thesis using that by simp
  qed
  consider "a ! i < b ! i" | "a ! i > b ! i" | "a ! i = b ! i" by (metis linorder_less_linear)
  then show ?case
  proof cases
    case 1
    then have "le_val (take (Suc i) a) < le_val (take (Suc i) b)"
      unfolding a b by (intro mono [OF la]) (simp add: word_less_nat_alt)
    then show ?thesis using 1 by simp
  next
    case 2
    then have "le_val (take (Suc i) b) < le_val (take (Suc i) a)"
      unfolding a b by (intro mono [OF lb]) (simp add: word_less_nat_alt)
    then show ?thesis using 2 by auto
  next
    case 3
    then show ?thesis using Suc unfolding a b by simp
  qed
qed simp

lemma CompareTo_val [val_simps]:
  "wf_uint a \<Longrightarrow> wf_uint b \<Longrightarrow> CompareTo a b = sgn (int (le_val a) - int (le_val b))"
  by (simp add: CompareTo_def compare_from wf_uint_def)

text \<open>The bit length.\<close>

lemma bit_imp_ge: "bit (x :: nat) n \<Longrightarrow> 2 ^ n \<le> x"
  by (metis bit_iff_odd div_less even_zero not_le)

lemma no_bits_imp_less: "(\<And>i. n \<le> i \<Longrightarrow> \<not> bit (x :: nat) i) \<Longrightarrow> x < 2 ^ n"
  by (subst take_bit_nat_eq_self_iff [symmetric], rule bit_eqI)
     (metis bit_take_bit_iff not_le)

lemma limb_bits:
  assumes "\<And>i. n < i \<Longrightarrow> \<not> bit w i" "w \<noteq> 0" 
  shows "unat w < 2 ^ limb_bits n w \<and> 2 ^ (limb_bits n w - 1) \<le> unat w \<and> 0 < limb_bits n w \<and> limb_bits n w \<le> Suc n"
  using assms
proof (induction n)
  case 0
  have "unat w < 2 ^ 1" using 0 by (intro no_bits_imp_less) (simp add: bit_simps)
  moreover have "unat w \<noteq> 0" using 0 by (simp add: unat_eq_0)
  ultimately show ?case by auto
next
  case (Suc n)
  show ?case
  proof (cases "bit w (Suc n)")
    case True
    then have "2 ^ Suc n \<le> unat w" by (intro bit_imp_ge) (auto simp: bit_simps dest: bit_imp_le_length)
    moreover have "unat w < 2 ^ (Suc n + 1)" using Suc(2) by (intro no_bits_imp_less) (simp add: bit_simps)
    ultimately show ?thesis using True by simp
  next
    case False
    have "\<not> bit w i" if "n < i" for i using Suc(2) that False by (cases "i = Suc n") auto
    with Suc have "unat w < 2 ^ limb_bits n w \<and> 2 ^ (limb_bits n w - 1) \<le> unat w \<and> 0 < limb_bits n w \<and> limb_bits n w \<le> Suc n"
      by blast
    with False show ?thesis by simp
  qed
qed

lemma bits_from:
  assumes "n \<le> length a"
  shows "le_val (take n a) < 2 ^ bits_from n a \<and>
         (0 < bits_from n a \<longrightarrow> 2 ^ (bits_from n a - 1) \<le> le_val (take n a)) \<and> bits_from n a \<le> 32 * n"
  using assms
proof (induction n)
  case (Suc n)
  have t: "le_val (take (Suc n) a) = le_val (take n a) + 2 ^ (32 * n) * unat (a ! n)"
    using Suc by (simp add: take_Suc_conv_app_nth le_val_append min_absorb2)
  have lt: "le_val (take n a) < 2 ^ (32 * n)" using Suc le_val_less [of "take n a"] by simp
  show ?case
  proof (cases "a ! n = 0")
    case True
    then show ?thesis using Suc t by simp
  next
    case False
    let ?l = "limb_bits 31 (a ! n)"
    have "\<not> bit (a ! n) i" if "31 < i" for i using that by (auto dest: bit_imp_le_length)
    from limb_bits [of 31, OF this False]
    have l: "unat (a ! n) < 2 ^ ?l" "2 ^ (?l - 1) \<le> unat (a ! n)" "0 < ?l" "?l \<le> 32" by simp_all
    have "2 ^ (32 * n) * (unat (a ! n) + 1) \<le> 2 ^ (32 * n) * 2 ^ ?l" using l(1) by (intro mult_le_mono2) simp
    then have "le_val (take (Suc n) a) < 2 ^ (32 * n + ?l)" using t lt by (simp add: power_add)
    moreover have "2 ^ (32 * n + (?l - 1)) \<le> le_val (take (Suc n) a)"
      using mult_le_mono2 [OF l(2), of "2 ^ (32 * n)"] unfolding t power_add by linarith
    ultimately show ?thesis using False l(3,4) by simp
  qed
qed simp

lemma uint_bits:
  assumes "wf_uint a"
  shows "le_val a < 2 ^ uint_bits a" and "0 < uint_bits a \<Longrightarrow> 2 ^ (uint_bits a - 1) \<le> le_val a"
    and "uint_bits a \<le> 256" and "uint_bits a = 0 \<longleftrightarrow> le_val a = 0"
proof -
  show a: "le_val a < 2 ^ uint_bits a" "0 < uint_bits a \<Longrightarrow> 2 ^ (uint_bits a - 1) \<le> le_val a"
    "uint_bits a \<le> 256"
    using bits_from [of WIDTH a] assms by (simp_all add: uint_bits_def wf_uint_def WIDTH_def)
  show "uint_bits a = 0 \<longleftrightarrow> le_val a = 0"
    using a by (cases "uint_bits a") auto
qed

text \<open>Division.\<close>

lemma CompareTo_iff:
  assumes "wf_uint a" "wf_uint b"
  shows "0 \<le> CompareTo a b \<longleftrightarrow> le_val b \<le> le_val a" "0 < CompareTo a b \<longleftrightarrow> le_val b < le_val a"
    "CompareTo a b < 0 \<longleftrightarrow> le_val a < le_val b" "CompareTo a b \<le> 0 \<longleftrightarrow> le_val a \<le> le_val b"
    "CompareTo a b = 0 \<longleftrightarrow> a = b"
  using assms by (auto simp: CompareTo_val sgn_if simp flip: wf_uint_inject)

lemma le_val_list_update:
  assumes "i < length q"
  shows "le_val (q[i := w]) + 2 ^ (32 * i) * unat (q ! i) = le_val q + 2 ^ (32 * i) * unat (w :: u32)"
  using assms
proof (induction q arbitrary: i)
  case (Cons x xs)
  show ?case
  proof (cases i)
    case (Suc k)
    then have "2 ^ 32 * (le_val (xs[k := w]) + 2 ^ (32 * k) * unat (xs ! k)) = 2 ^ 32 * (le_val xs + 2 ^ (32 * k) * unat w)"
      using Cons by simp
    then show ?thesis using Suc by (simp add: distrib_left power_add)
  qed simp
qed simp

lemma unat_or_bit:
  assumes "\<not> bit (x :: u32) j" "j < 32"
  shows "unat (x OR push_bit j 1) = unat x + 2 ^ j"
proof -
  have "unat (x OR push_bit j 1) = unat x OR push_bit j 1"
    by (rule bit_eqI) (use assms(2) in \<open>auto simp: bit_simps dest: bit_imp_le_length\<close>)
  also have "\<dots> = unat x + push_bit j 1"
    by (rule disjunctive_add [symmetric]) (use assms in \<open>auto simp: bit_simps\<close>)
  finally show ?thesis by (simp add: push_bit_eq_mult)
qed

lemma le_val_set_bit:
  assumes "wf_uint q" "s < 256" "\<not> bit (le_val q) s"
  shows "le_val (q[s div 32 := q ! (s div 32) OR push_bit (s mod 32) 1]) = le_val q + 2 ^ s"
proof -
  have i: "s div 32 < length q" using assms by (simp add: wf_uint_def WIDTH_def)
  then have "\<not> bit (q ! (s div 32)) (s mod 32)" using assms(3) by (simp add: bit_le_val_u32)
  then have "unat (q ! (s div 32) OR push_bit (s mod 32) 1) = unat (q ! (s div 32)) + 2 ^ (s mod 32)"
    by (intro unat_or_bit) simp_all
  moreover have "2 ^ (32 * (s div 32)) * 2 ^ (s mod 32) = (2 ^ s :: nat)"
    by (simp flip: power_add)
  ultimately show ?thesis
    using le_val_list_update [OF i, of "q ! (s div 32) OR push_bit (s mod 32) 1"] by (simp add: distrib_left)
qed

lemma div_loop_val:
  assumes "wf_uint num" "wf_uint d" "wf_uint q" "n \<le> 256" "0 < D"
    and "0 < n \<longrightarrow> le_val d = D * 2 ^ (n - 1)" "le_val num < D * 2 ^ n" "2 ^ n dvd le_val q"
  shows "wf_uint (div_loop n num d q) \<and> le_val (div_loop n num d q) = le_val q + le_val num div D"
  using assms
proof (induction n num d q rule: div_loop.induct)
  case (2 s num d q)
  let ?d' = "uint_shr d 1"
  have d: "le_val d = D * 2 ^ s" using 2 by simp
  have d': "0 < s \<longrightarrow> le_val ?d' = D * 2 ^ (s - 1)"
    using 2(4) d by (cases s) (simp_all add: le_val_shr)
  show ?case
  proof (cases "CompareTo num d \<ge> 0")
    case True
    let ?q' = "q[s div 32 := q ! (s div 32) OR push_bit (s mod 32) 1]"
    have ge: "le_val d \<le> le_val num" using True 2(3,4) by (simp add: CompareTo_iff)
    then have num': "le_val (uint_sub num d) = le_val num - D * 2 ^ s" using 2(3,4) d by (simp add: uval_sub_le)
    have nb: "\<not> bit (le_val q) s" using 2(10) by (auto simp: bit_iff_odd elim!: dvdE)
    then have q': "le_val ?q' = le_val q + 2 ^ s" using 2 by (intro le_val_set_bit) auto
    have "2 ^ s dvd le_val q" using 2(10) by (metis dvd_trans le_imp_power_dvd le_SucI order_refl)
    moreover have "le_val num - D * 2 ^ s < D * 2 ^ s" using 2 ge d by simp
    moreover have "wf_uint ?q'" using 2(5) by (simp add: wf_uint_def)
    ultimately have "wf_uint (div_loop s (uint_sub num d) ?d' ?q') \<and>
        le_val (div_loop s (uint_sub num d) ?d' ?q') = le_val ?q' + le_val (uint_sub num d) div D"
      using 2 True num' q' d' by simp
    moreover have "le_val num div D = 2 ^ s + (le_val num - D * 2 ^ s) div D"
      using ge d 2(7) by (metis add.commute add_diff_inverse_nat div_mult_self4 leD less_numeral_extra(3) mult.commute)
    ultimately show ?thesis using True q' num' by simp
  next
    case False
    then have "le_val num < D * 2 ^ s" using 2(3,4) d by (simp add: CompareTo_iff)
    moreover have "2 ^ s dvd le_val q" using 2(10) by (metis dvd_trans le_imp_power_dvd le_SucI order_refl)
    ultimately show ?thesis using 2 False d' by simp
  qed
qed simp

lemma uint_div_val:
  assumes "wf_uint a" "wf_uint b" "le_val b \<noteq> 0"
  shows "\<exists>c. uint_div a b = Inr c \<and> wf_uint c \<and> le_val c = le_val a div le_val b"
proof (cases "uint_bits b > uint_bits a")
  case True
  have "le_val a < 2 ^ uint_bits a" using assms by (simp add: uint_bits)
  also have "\<dots> \<le> 2 ^ (uint_bits b - 1)" using True by (intro power_increasing) auto
  also have "\<dots> \<le> le_val b" using assms True by (intro uint_bits) auto
  finally show ?thesis using True by (simp add: uint_div_def uval_zero)
next
  case False
  define s where "s = uint_bits a - uint_bits b"
  have db: "0 < uint_bits b" using uint_bits(4) [OF assms(2)] assms(3) by simp
  have "le_val b * 2 ^ s < 2 ^ uint_bits b * 2 ^ s" using uint_bits(1) [OF assms(2)] by simp
  also have "\<dots> = 2 ^ uint_bits a" using False by (simp add: s_def flip: power_add)
  also have "\<dots> \<le> 2 ^ 256" using uint_bits(3) [OF assms(1)] by (intro power_increasing) auto
  finally have d: "le_val (uint_shl b s) = le_val b * 2 ^ s" using assms by (simp add: le_val_shl)
  have "le_val a < 2 ^ uint_bits a" using assms by (simp add: uint_bits)
  also have "\<dots> = 2 ^ (uint_bits b - 1) * 2 ^ Suc s" using False db by (simp add: s_def flip: power_add power_Suc)
  also have "\<dots> \<le> le_val b * 2 ^ Suc s" using uint_bits(2) [OF assms(2) db] by (rule mult_le_mono1)
  finally have n: "le_val a < le_val b * 2 ^ Suc s" .
  have "Suc s \<le> 256" using uint_bits(3) [OF assms(1)] db by (simp add: s_def)
  with div_loop_val [of a "uint_shl b s" uint_zero "Suc s" "le_val b"] n d assms
  show ?thesis using False db by (auto simp: uint_div_def Let_def uval_zero s_def)
qed

lemma uint_div_zero: "wf_uint a \<Longrightarrow> wf_uint b \<Longrightarrow> le_val b = 0 \<Longrightarrow> uint_div a b = Inl DivisionByZero"
  by (simp add: uint_div_def uint_bits(4))

text \<open>The 64-bit views.\<close>

lemma GetLow64_val:
  assumes "2 \<le> length a"
  shows "unat (GetLow64 a) = le_val a mod 2 ^ 64"
proof -
  have "unat (GetLow64 a) = take_bit 64 (le_val a)"
  proof (rule bit_eqI)
    fix m :: nat
    have "m < 64 \<Longrightarrow> m div 32 = (if m < 32 then 0 else 1)" "m < 64 \<Longrightarrow> m mod 32 = (if m < 32 then m else m - 32)"
      by (auto simp: le_div_geq le_mod_geq)
    moreover have "bit (a ! 0) m \<Longrightarrow> m < 32" by (auto dest: bit_imp_le_length)
    ultimately show "bit (unat (GetLow64 a)) m = bit (take_bit 64 (le_val a)) m"
      using assms
      by (auto simp: bit_simps GetLow64_def bit_le_val_u32 split: if_splits dest: bit_imp_le_length)
  qed
  then show ?thesis by (simp add: take_bit_eq_mod)
qed

lemma u64_low_mask: "(0xffffffff :: u64) = mask 32"
  by (simp add: mask_eq_exp_minus_1)

lemma EqualTo_iff: "wf_uint a \<Longrightarrow> EqualTo a b \<longleftrightarrow> le_val a = unat b"
proof -
  assume a: "wf_uint a"
  have lo: "b AND 0xffffffff = (ucast (ucast b :: u32) :: u64)"
    unfolding u64_low_mask by (rule bit_word_eqI) (auto simp: bit_simps)
  have hi: "drop_bit 32 b = (ucast (ucast (drop_bit 32 b) :: u32) :: u64)"
    by (rule bit_word_eqI) (auto simp: bit_simps dest: bit_imp_le_length)
  have inj: "(ucast x :: u64) = ucast y \<longleftrightarrow> x = y" for x y :: u32
    by (metis unat_ucast_u32_u64 word_unat_eq_iff)
  obtain a0 a1 a2 a3 a4 a5 a6 a7 where a8: "a = [a0, a1, a2, a3, a4, a5, a6, a7]"
    using a by (auto simp: wf_uint_def WIDTH_def numeral_eq_Suc length_Suc_conv)
  have "EqualTo a b \<longleftrightarrow> a = uint_of_u64 b"
    unfolding EqualTo_def lo
    apply (subst hi)
    unfolding inj uint_of_u64_def WIDTH_def a8 by (auto simp: numeral_eq_Suc)
  then show ?thesis using wf_uint_inject [OF a, of "uint_of_u64 b"] by (simp add: uval_of_u64)
qed

text \<open>Conversion to and from the byte buffer.\<close>

lemma length_ArithToUint256 [simp]: "wf_uint a \<Longrightarrow> length (ArithToUint256 a) = 32"
proof -
  have "length (concat (map WriteLE32 a)) = 4 * length a" by (induction a) simp_all
  then show "wf_uint a \<Longrightarrow> length (ArithToUint256 a) = 32"
    by (simp add: ArithToUint256_def wf_uint_def WIDTH_def)
qed

lemma drop_WriteLE32s: "x < length a \<Longrightarrow> ReadLE32 (drop (x * 4) (concat (map WriteLE32 a))) = a ! x"
proof (induction a arbitrary: x)
  case (Cons w ws)
  then show ?case by (cases x) auto
qed simp

lemma UintToArith256_inverse: "wf_uint a \<Longrightarrow> UintToArith256 (ArithToUint256 a) = a"
  by (rule nth_equalityI)
     (simp_all add: UintToArith256_def ArithToUint256_def drop_WriteLE32s wf_uint_def)

lemma le_val_WriteLE32s: "le_val (concat (map WriteLE32 a)) = le_val a"
proof (induction a)
  case (Cons w ws)
  then show ?case by (simp add: le_val_append) (simp add: WriteLE32_def)
qed simp

lemma wf_UintToArith256 [simp]: "wf_uint (UintToArith256 h)"
  by (simp add: UintToArith256_def wf_uint_def)

lemma le_val_ArithToUint256 [val_simps]: "le_val (ArithToUint256 a) = le_val a"
  by (simp add: ArithToUint256_def le_val_WriteLE32s)

lemma ArithToUint256_inverse:
  assumes "length h = 32"
  shows "ArithToUint256 (UintToArith256 h) = h"
proof -
  have "concat (map (\<lambda>x. take 4 (drop (x * 4) h)) [0..<n]) = take (4 * n) h" for n
  proof (induction n)
    case (Suc n)
    have "take (4 * n + 4) h = take (4 * n) h @ take 4 (drop (4 * n) h)" by (rule take_add)
    then show ?case using Suc by (simp add: mult.commute add.commute)
  qed simp
  moreover have "map WriteLE32 (UintToArith256 h) = map (\<lambda>x. take 4 (drop (x * 4) h)) [0..<WIDTH]"
    using assms by (auto simp: UintToArith256_def WriteLE32_ReadLE32 WIDTH_def)
  ultimately show ?thesis using assms by (simp add: ArithToUint256_def WIDTH_def)
qed

lemma le_val_UintToArith256 [val_simps]: "length h = 32 \<Longrightarrow> le_val (UintToArith256 h) = le_val h"
  by (metis ArithToUint256_inverse le_val_ArithToUint256)

section \<open>The interface of modular unsigned arithmetic\<close>

text \<open>
  What the difficulty and chain-work code relies on: the operators compute on the numbers
  below \<open>M\<close>, and division reports a zero divisor.
\<close>

locale modular_uint =
  fixes ok :: "'a \<Rightarrow> bool" and val :: "'a \<Rightarrow> nat" and M :: nat
    and lit :: "u64 \<Rightarrow> 'a" and cpl :: "'a \<Rightarrow> 'a"
    and plus :: "'a \<Rightarrow> 'a \<Rightarrow> 'a" and minus :: "'a \<Rightarrow> 'a \<Rightarrow> 'a" and times :: "'a \<Rightarrow> 'a \<Rightarrow> 'a"
    and quot :: "'a \<Rightarrow> 'a \<Rightarrow> uint_error + 'a"
    and lsh :: "'a \<Rightarrow> nat \<Rightarrow> 'a" and rsh :: "'a \<Rightarrow> nat \<Rightarrow> 'a" and cmp :: "'a \<Rightarrow> 'a \<Rightarrow> int"
  assumes val_bound: "ok a \<Longrightarrow> val a < M"
    and val_inj: "ok a \<Longrightarrow> ok b \<Longrightarrow> val a = val b \<Longrightarrow> a = b"
    and lit_law: "ok (lit x)" "val (lit x) = unat x"
    and cpl_law: "ok a \<Longrightarrow> ok (cpl a)" "ok a \<Longrightarrow> val (cpl a) = M - 1 - val a"
    and plus_law: "ok a \<Longrightarrow> ok b \<Longrightarrow> ok (plus a b)" "ok a \<Longrightarrow> ok b \<Longrightarrow> val (plus a b) = (val a + val b) mod M"
    and minus_law: "ok a \<Longrightarrow> ok b \<Longrightarrow> ok (minus a b)"
      "ok a \<Longrightarrow> ok b \<Longrightarrow> val (minus a b) = (val a + (M - val b)) mod M"
    and times_law: "ok a \<Longrightarrow> ok b \<Longrightarrow> ok (times a b)" "ok a \<Longrightarrow> ok b \<Longrightarrow> val (times a b) = (val a * val b) mod M"
    and quot_law: "ok a \<Longrightarrow> ok b \<Longrightarrow> val b \<noteq> 0 \<Longrightarrow> \<exists>c. quot a b = Inr c \<and> ok c \<and> val c = val a div val b"
    and quot_zero: "ok a \<Longrightarrow> ok b \<Longrightarrow> val b = 0 \<Longrightarrow> quot a b = Inl DivisionByZero"
    and lsh_law: "ok a \<Longrightarrow> ok (lsh a n)" "ok a \<Longrightarrow> val (lsh a n) = (val a * 2 ^ n) mod M"
    and rsh_law: "ok a \<Longrightarrow> ok (rsh a n)" "ok a \<Longrightarrow> val (rsh a n) = val a div 2 ^ n"
    and cmp_law: "ok a \<Longrightarrow> ok b \<Longrightarrow> cmp a b = sgn (int (val a) - int (val b))"
begin

text \<open>Undoing an addition, whatever wraps around.\<close>

lemma minus_plus: "ok a \<Longrightarrow> ok b \<Longrightarrow> minus (plus a b) b = a"
proof (rule val_inj)
  assume ab: "ok a" "ok b"
  then show "ok (minus (plus a b) b)" "ok a" by (simp_all add: plus_law minus_law)
  have b: "val b \<le> M" using val_bound [OF ab(2)] by simp
  have "val (minus (plus a b) b) = ((val a + val b) mod M + (M - val b)) mod M"
    using ab by (simp add: plus_law minus_law)
  also have "\<dots> = (val a + val b + (M - val b)) mod M" by (simp add: mod_add_left_eq)
  also have "val a + val b + (M - val b) = val a + M" using b by simp
  finally show "val (minus (plus a b) b) = val a" using val_bound [OF ab(1)] by simp
qed

text \<open>The scaling \<open>a * t / s\<close> of a target is exact when the product fits.\<close>

lemma scale:
  assumes "ok a" "ok t" "ok s" "val a * val t < M" "val s \<noteq> 0"
  shows "\<exists>c. quot (times a t) s = Inr c \<and> ok c \<and> val c = val a * val t div val s"
  using assms quot_law [of "times a t" s] by (auto simp: times_law)

text \<open>\<open>~t / (t + 1) + 1\<close> is \<open>M / (t + 1)\<close>, a quotient whose dividend does not fit.\<close>

lemma inverse_work:
  assumes "ok t" "0 < val t" "val t + 1 < M" "1 < M"
  shows "\<exists>c. quot (cpl t) (plus t (lit 1)) = Inr c \<and> ok (plus c (lit 1))
             \<and> val (plus c (lit 1)) = M div (val t + 1)"
proof -
  have one: "ok (lit 1)" "val (lit 1) = 1" by (simp_all add: lit_law)
  have t1: "ok (plus t (lit 1))" "val (plus t (lit 1)) = val t + 1"
    using assms one by (simp_all add: plus_law)
  obtain c where c: "quot (cpl t) (plus t (lit 1)) = Inr c" "ok c" "val c = (M - 1 - val t) div (val t + 1)"
    using quot_law [of "cpl t" "plus t (lit 1)"] assms t1 by (auto simp: cpl_law)
  have "M = M - 1 - val t + (val t + 1)" using assms by simp
  then have "M div (val t + 1) = (M - 1 - val t) div (val t + 1) + 1"
    by (metis add_gr_0 div_add_self2 less_numeral_extra(1) not_gr_zero)
  moreover have "M div (val t + 1) < M" using assms by (intro div_less_dividend) auto
  ultimately show ?thesis using c one by (auto simp: plus_law)
qed

end

interpretation u256: modular_uint wf_uint le_val "2 ^ 256" uint_of_u64 uint_not uint_add uint_sub uint_mul
  uint_div uint_shl uint_shr CompareTo
  by unfold_locales
     ((rule uint_div_val; assumption) |
      simp only: wf_uint_less wf_uint_inject wf_uint_ops wf_uint_mul val_simps uint_div_zero)+

section \<open>Compact encoding\<close>

lemma unat_and_mask23: "unat (c AND 0x007fffff :: u32) = unat c mod 2 ^ 23"
proof -
  have "(0x007fffff :: u32) = mask 23" by (simp add: mask_eq_exp_minus_1)
  then show ?thesis by (simp only: take_bit_eq_mask [symmetric] unsigned_take_bit_eq) (simp add: take_bit_eq_mod)
qed

lemma and_bit23: "c AND 0x00800000 \<noteq> 0 \<longleftrightarrow> bit (c :: u32) 23"
proof -
  have "(0x00800000 :: u32) = push_bit 23 1" by (simp add: push_bit_eq_mult)
  then show ?thesis by (simp add: bit_iff_and_push_bit_not_eq_0)
qed

lemma unat_drop_bit: "unat (drop_bit k (c :: 'a::len word)) = unat c div 2 ^ k"
  by (simp only: unat_drop_bit_eq) (simp only: drop_bit_eq_div)

text \<open>The number a compact word denotes, before it is reduced to 256 bits.\<close>

definition compact_num :: "u32 \<Rightarrow> nat" where
  "compact_num c =
     (let s = unat c div 2 ^ 24; m = unat c mod 2 ^ 23
      in if s \<le> 3 then m div 2 ^ (8 * (3 - s)) else m * 2 ^ (8 * (s - 3)))"

lemma compact_overflow:
  fixes m s :: nat
  assumes "m < 2 ^ 23" "3 < s"
  shows "m \<noteq> 0 \<and> (34 < s \<or> 0xff < m \<and> 33 < s \<or> 0xffff < m \<and> 32 < s) \<longleftrightarrow> 2 ^ 256 \<le> m * 2 ^ (8 * (s - 3))"
proof -
  consider "34 < s" | "s = 34" | "s = 33" | "s \<le> 32" by linarith
  then show ?thesis
  proof cases
    case 1
    then have "(2 :: nat) ^ 256 \<le> 2 ^ (8 * (s - 3))" by (intro power_increasing) simp_all
    then have "m \<noteq> 0 \<longrightarrow> 2 ^ 256 \<le> m * 2 ^ (8 * (s - 3))" by (cases m) simp_all
    then show ?thesis using 1 by (cases "m = 0") auto
  next
    case 4
    then have "(2 :: nat) ^ (8 * (s - 3)) \<le> 2 ^ 232" by (intro power_increasing) simp_all
    then have "m * 2 ^ (8 * (s - 3)) \<le> 2 ^ 23 * 2 ^ 232" using assms(1) by (intro mult_le_mono) simp_all
    also have "\<dots> < 2 ^ 256" by simp
    finally show ?thesis using 4 by simp
  qed auto
qed

lemma SetCompact_num:
  "SetCompact c = (fst (SetCompact c), compact_num c \<noteq> 0 \<and> bit c 23, 2 ^ 256 \<le> compact_num c)
   \<and> wf_uint (fst (SetCompact c)) \<and> le_val (fst (SetCompact c)) = compact_num c mod 2 ^ 256"
proof -
  define s where "s = unat c div 2 ^ 24"
  define m where "m = unat c mod 2 ^ 23"
  have sd: "unat (drop_bit 24 c) = s" by (simp only: unat_drop_bit s_def)
  have md: "unat (c AND 0x007fffff) = m" by (simp only: unat_and_mask23 m_def)
  have m: "m < 2 ^ 23" by (simp add: m_def)
  show ?thesis
  proof (cases "s \<le> 3")
    case True
    let ?w = "drop_bit (8 * (3 - s)) (c AND 0x007fffff)"
    have w: "unat ?w = m div 2 ^ (8 * (3 - s))" by (simp only: unat_drop_bit md)
    have n: "compact_num c = unat ?w" unfolding w compact_num_def Let_def s_def [symmetric] m_def [symmetric] using True by simp
    have "unat ?w \<le> m" unfolding w by (rule div_le_dividend)
    then have less: "unat ?w < 2 ^ 256" using m by simp
    have "SetCompact c = (uint_of_u64 (ucast ?w), ?w \<noteq> 0 \<and> c AND 0x00800000 \<noteq> 0, False)"
      using True unfolding SetCompact_def Let_def sd by auto
    then show ?thesis using less by (simp add: n uval_of_u64 and_bit23 unat_eq_0)
  next
    case False
    let ?w = "c AND 0x007fffff"
    have n: "compact_num c = m * 2 ^ (8 * (s - 3))"
      using False by (simp only: compact_num_def Let_def s_def m_def) simp
    have v: "le_val (uint_of_u64 (ucast ?w)) = m" by (simp only: uval_of_u64 unat_ucast_u32_u64 md)
    have o: "?w \<noteq> 0 \<and> (34 < s \<or> 0xff < ?w \<and> 33 < s \<or> 0xffff < ?w \<and> 32 < s) \<longleftrightarrow> 2 ^ 256 \<le> compact_num c"
      unfolding n using False compact_overflow [OF m, of s] by (simp add: word_less_nat_alt unat_eq_0 [symmetric] md)
    have "SetCompact c = (uint_shl (uint_of_u64 (ucast ?w)) (8 * (s - 3)), ?w \<noteq> 0 \<and> c AND 0x00800000 \<noteq> 0,
        2 ^ 256 \<le> compact_num c)"
      using False unfolding o [symmetric] SetCompact_def Let_def sd by auto
    moreover have "?w \<noteq> 0 \<longleftrightarrow> compact_num c \<noteq> 0" unfolding n by (simp add: unat_eq_0 [symmetric] md)
    ultimately show ?thesis by (simp add: le_val_shl v n and_bit23)
  qed
qed

text \<open>
  The first three bytes of a number, as \<open>GetCompact\<close> takes them: \<open>compact_top v n\<close> for a number \<open>v\<close>
  of \<open>n\<close> bytes.
\<close>

definition compact_top :: "nat \<Rightarrow> nat \<Rightarrow> nat" where
  "compact_top v n = (if n \<le> 3 then v * 2 ^ (8 * (3 - n)) else v div 2 ^ (8 * (n - 3)))"

lemma compact_top_bounds:
  assumes "wf_uint a" "n = (uint_bits a + 7) div 8"
  shows "compact_top (le_val a) n < 2 ^ 24" "le_val a \<noteq> 0 \<Longrightarrow> 2 ^ 16 \<le> compact_top (le_val a) n"
proof -
  let ?v = "le_val a"
  have n8: "uint_bits a \<le> 8 * n" "uint_bits a \<noteq> 0 \<longrightarrow> 8 * n \<le> uint_bits a + 7"
    using assms(2) by presburger+
  have "?v < 2 ^ uint_bits a" using assms by (simp add: uint_bits)
  also have "\<dots> \<le> 2 ^ (8 * n)" using n8 by (intro power_increasing) auto
  finally have hi: "?v < 2 ^ (8 * n)" .
  show "compact_top ?v n < 2 ^ 24"
  proof (cases "n \<le> 3")
    case True
    have "?v * 2 ^ (8 * (3 - n)) < 2 ^ (8 * n) * 2 ^ (8 * (3 - n))" using hi by simp
    also have "\<dots> = 2 ^ (8 * n + 8 * (3 - n))" by (rule power_add [symmetric])
    also have "8 * n + 8 * (3 - n) = 24" using True by simp
    finally show ?thesis using True by (simp add: compact_top_def)
  next
    case False
    then have "8 * n = 24 + 8 * (n - 3)" by simp
    then have "(2 :: nat) ^ (8 * n) = 2 ^ 24 * 2 ^ (8 * (n - 3))" by (metis power_add)
    then show ?thesis using False hi by (simp add: compact_top_def less_mult_imp_div_less)
  qed
  assume "?v \<noteq> 0"
  then have b: "0 < uint_bits a" using uint_bits(4) [OF assms(1)] by simp
  have "(2 :: nat) ^ (8 * n - 8) \<le> 2 ^ (uint_bits a - 1)" using n8 b by (intro power_increasing) auto
  also have "\<dots> \<le> ?v" using uint_bits(2) [OF assms(1) b] .
  finally have lo: "2 ^ (8 * n - 8) \<le> ?v" .
  have n1: "1 \<le> n" using n8 b by simp
  show "2 ^ 16 \<le> compact_top ?v n"
  proof (cases "n \<le> 3")
    case True
    have "16 = 8 * n - 8 + 8 * (3 - n)" using True n1 by simp
    then have "(2 :: nat) ^ 16 = 2 ^ (8 * n - 8) * 2 ^ (8 * (3 - n))" by (metis power_add)
    also have "\<dots> \<le> ?v * 2 ^ (8 * (3 - n))" using lo by simp
    finally show ?thesis using True by (simp add: compact_top_def)
  next
    case False
    then have "8 * n - 8 = 16 + 8 * (n - 3)" by simp
    then have "(2 :: nat) ^ (8 * n - 8) = 2 ^ 16 * 2 ^ (8 * (n - 3))" by (metis power_add)
    then show ?thesis using False lo by (simp add: compact_top_def less_eq_div_iff_mult_less_eq)
  qed
qed

lemma unat_push_bit:
  "unat (w :: 'a::len word) * 2 ^ k < 2 ^ LENGTH('a) \<Longrightarrow> unat (push_bit k w) = unat w * 2 ^ k"
  by (simp only: unsigned_push_bit_eq) (simp add: push_bit_eq_mult take_bit_eq_mod)

lemma compact_top_Suc: "compact_top v n div 2 ^ 8 = compact_top v (Suc n)"
proof -
  consider "n \<le> 2" | "n = 3" | "3 < n" by linarith
  then show ?thesis
  proof cases
    case 1
    then have "8 * (3 - n) = 8 * (3 - Suc n) + 8" by simp
    then have "(2 :: nat) ^ (8 * (3 - n)) = 2 ^ (8 * (3 - Suc n)) * 2 ^ 8" by (metis power_add)
    then have "compact_top v n = compact_top v (Suc n) * 2 ^ 8" using 1 by (simp add: compact_top_def)
    then show ?thesis by simp
  next
    case 3
    then have "8 * (Suc n - 3) = 8 * (n - 3) + 8" by simp
    then have "(2 :: nat) ^ (8 * (Suc n - 3)) = 2 ^ (8 * (n - 3)) * 2 ^ 8" by (simp only: power_add)
    then show ?thesis using 3 by (simp add: compact_top_def div_mult2_eq del: power_Suc)
  qed (simp add: compact_top_def)
qed

lemma unat_nCompact0:
  assumes "wf_uint a" "n = (uint_bits a + 7) div 8"
  shows "unat ((if n \<le> 3 then ucast (push_bit (8 * (3 - n)) (GetLow64 a))
                else ucast (GetLow64 (uint_shr a (8 * (n - 3))))) :: u32) = compact_top (le_val a) n"
proof -
  have b: "compact_top (le_val a) n < 2 ^ 24" using compact_top_bounds [OF assms] by simp
  have l: "2 \<le> length a" using assms by (simp add: wf_uint_def WIDTH_def)
  have u: "unat (ucast (w :: u64) :: u32) = unat w mod 2 ^ 32" for w
    by (simp add: unsigned_ucast_eq take_bit_eq_mod)
  show ?thesis
  proof (cases "n \<le> 3")
    case True
    then have t: "le_val a * 2 ^ (8 * (3 - n)) < 2 ^ 24" using b by (simp add: compact_top_def)
    then have "le_val a < 2 ^ 24" by (metis le_less_trans mult.right_neutral mult_le_mono2 one_le_numeral one_le_power)
    then have "unat (GetLow64 a) = le_val a" using GetLow64_val [OF l] by simp
    then have "unat (push_bit (8 * (3 - n)) (GetLow64 a)) = le_val a * 2 ^ (8 * (3 - n))"
      using t unat_push_bit [of "GetLow64 a" "8 * (3 - n)"] by simp
    then show ?thesis using True t by (simp add: u compact_top_def)
  next
    case False
    then have "le_val (uint_shr a (8 * (n - 3))) < 2 ^ 24" using b assms by (simp add: compact_top_def le_val_shr)
    then show ?thesis
      using False assms GetLow64_val [of "uint_shr a (8 * (n - 3))"]
      by (simp add: u compact_top_def le_val_shr WIDTH_def)
  qed
qed

text \<open>Word-level pieces of the encoder.\<close>

lemma bit23_iff: "unat (w :: u32) < 2 ^ 24 \<Longrightarrow> bit w 23 \<longleftrightarrow> 2 ^ 23 \<le> unat w"
proof -
  assume w: "unat w < 2 ^ 24"
  have "bit w 23 \<longleftrightarrow> bit (unat w) 23" by (simp add: bit_simps)
  also have "\<dots> \<longleftrightarrow> odd (unat w div 2 ^ 23)" by (simp add: bit_iff_odd)
  also have "unat w div 2 ^ 23 = (if 2 ^ 23 \<le> unat w then 1 else 0)"
    using w by (auto simp: div_if)
  finally show ?thesis by simp
qed

lemma and_not_mask23: "unat (w :: u32) < 2 ^ 23 \<Longrightarrow> w AND NOT 0x007fffff = 0"
proof -
  assume "unat w < 2 ^ 23"
  then have "take_bit 23 w = w" by (simp add: word_unat_eq_iff unsigned_take_bit_eq take_bit_nat_eq_self_iff)
  then have "w = w AND mask 23" by (simp add: take_bit_eq_mask)
  moreover have "(0x007fffff :: u32) = mask 23" by (simp add: mask_eq_exp_minus_1)
  ultimately show ?thesis by (metis and.assoc and.right_neutral and_zero_eq bit.conj_cancel_right)
qed

lemma unat_or_high:
  assumes "unat (x :: u32) < 2 ^ k" "k < 32" "h * 2 ^ k < 2 ^ 32"
  shows "unat (x OR push_bit k (word_of_nat h)) = unat x + h * 2 ^ k"
proof -
  have "h < 2 ^ 32" using assms(3) by (metis le_less_trans mult.right_neutral mult_le_mono2 one_le_numeral one_le_power)
  then have h: "unat (push_bit k (word_of_nat h) :: u32) = push_bit k h"
    using assms(3) unat_push_bit [of "word_of_nat h :: u32" k] by (simp add: unat_of_nat push_bit_eq_mult)
  have "take_bit k (unat x) = unat x" using assms(1) by (simp add: take_bit_nat_eq_self_iff)
  then have "\<not> bit (unat x) i \<or> \<not> bit (push_bit k h) i" for i
    by (metis bit_push_bit_iff_nat bit_take_bit_iff not_le)
  then have "unat x + push_bit k h = unat x OR push_bit k h" by (rule disjunctive_add)
  then show ?thesis by (simp only: unsigned_or_eq h) (simp add: push_bit_eq_mult)
qed

text \<open>The parts of a compact word.\<close>

lemma compact_num_form:
  assumes "unat c = m + (if b then 2 ^ 23 else 0) + s * 2 ^ 24" "m < 2 ^ 23"
  shows "compact_num c = (if s \<le> 3 then m div 2 ^ (8 * (3 - s)) else m * 2 ^ (8 * (s - 3)))" "bit c 23 = b"
proof -
  define r where "r = m + (if b then 2 ^ 23 else 0)"
  have "r < 2 ^ 24" using assms(2) by (simp add: r_def)
  then have s: "unat c div 2 ^ 24 = s"
    unfolding assms(1) r_def [symmetric] by (subst div_mult_self1) simp_all
  have c: "unat c = m + ((if b then 1 else 0) + s * 2) * 2 ^ 23" using assms(1) by (simp add: algebra_simps)
  have "unat c mod 2 ^ 23 = (m + ((if b then 1 else 0) + s * 2) * 2 ^ 23) mod 2 ^ 23" by (simp only: c)
  also have "\<dots> = m" using assms(2) by (simp only: mod_mult_self1 mod_less)
  finally show "compact_num c = (if s \<le> 3 then m div 2 ^ (8 * (3 - s)) else m * 2 ^ (8 * (s - 3)))"
    unfolding compact_num_def Let_def s by simp
  have "unat c div 2 ^ 23 = (m + ((if b then 1 else 0) + s * 2) * 2 ^ 23) div 2 ^ 23" by (simp only: c)
  also have "\<dots> = (if b then 1 else 0) + s * 2" using assms(2) by (subst div_mult_self1) simp_all
  finally have "bit (unat c) 23 = b" by (simp add: bit_iff_odd)
  then show "bit c 23 = b" by (simp add: bit_simps)
qed

lemma GetCompact_form:
  assumes "wf_uint a"
  shows "\<exists>c m s. GetCompact a neg = Some c \<and> unat c = m + (if neg \<and> m \<noteq> 0 then 2 ^ 23 else 0) + s * 2 ^ 24
     \<and> m < 2 ^ 23 \<and> s \<le> 33 \<and> m = compact_top (le_val a) s \<and> (le_val a \<noteq> 0 \<longrightarrow> 2 ^ 15 \<le> m)
     \<and> (le_val a = 0 \<longrightarrow> s = 0)"
proof -
  define n where "n = (uint_bits a + 7) div 8"
  define c0 where "c0 = ((if n \<le> 3 then ucast (push_bit (8 * (3 - n)) (GetLow64 a))
                else ucast (GetLow64 (uint_shr a (8 * (n - 3))))) :: u32)"
  have n32: "n \<le> 32" using uint_bits(3) [OF assms] by (simp add: n_def)
  have c0: "unat c0 = compact_top (le_val a) n" unfolding c0_def by (rule unat_nCompact0 [OF assms n_def])
  note b = compact_top_bounds [OF assms n_def]
  define carry where "carry = (c0 AND 0x00800000 \<noteq> 0)"
  have carry: "carry \<longleftrightarrow> 2 ^ 23 \<le> unat c0" unfolding carry_def and_bit23 using b c0 by (simp add: bit23_iff)
  define c1 where "c1 = (if carry then drop_bit 8 c0 else c0)"
  define s where "s = (if carry then n + 1 else n)"
  have c1: "unat c1 = compact_top (le_val a) s \<and> unat c1 < 2 ^ 23 \<and> (le_val a \<noteq> 0 \<longrightarrow> 2 ^ 15 \<le> unat c1)"
  proof (cases carry)
    case True
    then have "unat c1 = compact_top (le_val a) n div 2 ^ 8" by (simp only: c1_def if_True unat_drop_bit c0)
    moreover note compact_top_Suc [of "le_val a" n]
    ultimately show ?thesis using True b carry c0 by (auto simp: s_def)
  next
    case False
    then show ?thesis using b carry c0 by (auto simp: s_def c1_def)
  qed
  have g: "GetCompact a neg = (let c2 = c1 OR push_bit 24 (word_of_nat s) in
     Some (c2 OR (if neg \<and> c2 AND 0x007fffff \<noteq> 0 then 0x00800000 else 0)))"
    unfolding GetCompact_def Let_def n_def [symmetric] c0_def [symmetric] carry_def [symmetric] c1_def [symmetric] s_def [symmetric]
    using and_not_mask23 c1 n32 by (simp add: s_def)
  define c2 where "c2 = c1 OR push_bit 24 (word_of_nat s)"
  have s33: "s \<le> 33" using n32 by (simp add: s_def)
  then have c2: "unat c2 = unat c1 + s * 2 ^ 24" unfolding c2_def using c1 by (intro unat_or_high) simp_all
  have "(unat c1 + s * 2 ^ 24) mod 2 ^ 23 = (unat c1 + s * 2 * 2 ^ 23) mod 2 ^ 23" by (simp add: mult.commute)
  also have "\<dots> = unat c1" using c1 by (simp only: mod_mult_self1) simp
  finally have m: "unat (c2 AND 0x007fffff) = unat c1" unfolding unat_and_mask23 c2 .
  have "unat (c2 OR 0x00800000) = unat c2 + 2 ^ 23"
  proof -
    have "\<not> bit c2 23" using compact_num_form(2) [of c2 "unat c1" False s] c1 c2 by simp
    then have "unat (c2 OR push_bit 23 1) = unat c2 + 2 ^ 23" by (intro unat_or_bit) simp_all
    then show ?thesis by (simp add: push_bit_eq_mult)
  qed
  then have "unat (c2 OR (if neg \<and> c2 AND 0x007fffff \<noteq> 0 then 0x00800000 else 0))
      = unat c1 + (if neg \<and> unat c1 \<noteq> 0 then 2 ^ 23 else 0) + s * 2 ^ 24"
    using m c2 by (auto simp: unat_eq_0 [symmetric])
  moreover have "le_val a = 0 \<longrightarrow> s = 0"
    using uint_bits(4) [OF assms] carry c0 by (auto simp: s_def n_def compact_top_def)
  ultimately show ?thesis
    using g c1 s33 unfolding c2_def [symmetric] Let_def
    by (intro exI [where x = "c2 OR (if neg \<and> c2 AND 0x007fffff \<noteq> 0 then 0x00800000 else 0)"]
        exI [where x = "unat c1"] exI [where x = s]) blast
qed

text \<open>
  What encoding and decoding do to a number: below three bytes nothing, otherwise the bytes after the
  leading ones are cleared.
\<close>

lemma compact_num_top:
  assumes "m = compact_top v s" "v \<noteq> 0 \<longrightarrow> 2 ^ 15 \<le> m"
    and "n = (if s \<le> 3 then m div 2 ^ (8 * (3 - s)) else m * 2 ^ (8 * (s - 3)))"
  shows "n \<le> v" "(v - n) * 2 ^ 15 \<le> n" "n = 0 \<longleftrightarrow> v = 0" "compact_top n s = m"
proof -
  let ?k = "8 * (s - 3)"
  have "n \<le> v \<and> (v - n) * 2 ^ 15 \<le> n \<and> (n = 0 \<longleftrightarrow> v = 0) \<and> compact_top n s = m"
  proof (cases "s \<le> 3")
    case True
    then show ?thesis using assms by (auto simp: compact_top_def)
  next
    case False
    then have n: "n = v div 2 ^ ?k * 2 ^ ?k" and m: "m = v div 2 ^ ?k" using assms by (simp_all add: compact_top_def)
    have r: "v - n = v mod 2 ^ ?k" unfolding n by (simp add: minus_div_mult_eq_mod)
    have "(v - n) * 2 ^ 15 \<le> n"
    proof (cases "v = 0")
      case False
      have "v mod 2 ^ ?k * 2 ^ 15 \<le> 2 ^ ?k * (v div 2 ^ ?k)"
        using False assms(2) m by (intro mult_le_mono) simp_all
      then show ?thesis unfolding r by (subst n) (simp add: mult.commute)
    qed simp
    moreover have "n = 0 \<longleftrightarrow> v = 0"
      using assms(2) m n by (metis div_0 le_zero_eq mult_is_0 power_not_zero zero_neq_numeral)
    ultimately show ?thesis using False n m by (simp add: compact_top_def)
  qed
  then show "n \<le> v" "(v - n) * 2 ^ 15 \<le> n" "n = 0 \<longleftrightarrow> v = 0" "compact_top n s = m" by auto
qed

lemma compact_top_less: "s < s' \<Longrightarrow> compact_top v s < 2 ^ 23 \<Longrightarrow> compact_top v s' < 2 ^ 15"
proof (induction s' rule: less_induct)
  case (less t)
  then obtain u where t: "t = Suc u" by (cases t) auto
  have "compact_top v u < 2 ^ 23"
    using less t by (cases "s = u") (auto intro: less_trans [of _ "2 ^ 15"])
  then have "compact_top v u div 2 ^ 8 < 2 ^ 15" by (intro less_mult_imp_div_less) simp
  then show ?case by (simp only: t compact_top_Suc)
qed

lemma compact_size_unique:
  assumes "2 ^ 15 \<le> compact_top v s" "compact_top v s < 2 ^ 23" "2 ^ 15 \<le> compact_top v s'" "compact_top v s' < 2 ^ 23"
  shows "s = s'"
  using assms compact_top_less by (metis linorder_neqE_nat not_le)

lemma GetCompact_SetCompact:
  assumes "wf_uint a"
  shows "\<exists>c b. GetCompact a False = Some c \<and> SetCompact c = (b, False, False) \<and> wf_uint b
    \<and> le_val b \<le> le_val a \<and> (le_val a - le_val b) * 2 ^ 15 \<le> le_val b \<and> GetCompact b False = Some c"
proof -
  obtain c m s where g: "GetCompact a False = Some c" "unat c = m + s * 2 ^ 24" "m < 2 ^ 23"
    "m = compact_top (le_val a) s" "le_val a \<noteq> 0 \<longrightarrow> 2 ^ 15 \<le> m" "le_val a = 0 \<longrightarrow> s = 0"
    using GetCompact_form [OF assms, of False] by auto
  let ?n = "compact_num c" and ?b = "fst (SetCompact c)"
  have n: "?n = (if s \<le> 3 then m div 2 ^ (8 * (3 - s)) else m * 2 ^ (8 * (s - 3)))" and bit: "\<not> bit c 23"
    using compact_num_form [of c m False s] g by simp_all
  note t = compact_num_top [OF g(4,5) n]
  have "?n < 2 ^ 256" using t(1) wf_uint_less [OF assms] by simp
  then have b: "SetCompact c = (?b, False, False)" "wf_uint ?b" "le_val ?b = ?n"
    using SetCompact_num [of c] bit by simp_all
  obtain c' m' s' where g': "GetCompact ?b False = Some c'" "unat c' = m' + s' * 2 ^ 24" "m' < 2 ^ 23"
    "m' = compact_top ?n s'" "?n \<noteq> 0 \<longrightarrow> 2 ^ 15 \<le> m'" "?n = 0 \<longrightarrow> s' = 0"
    using GetCompact_form [OF b(2), of False] b(3) by auto
  have "s' = s"
    using g g' t(3,4) by (cases "?n = 0") (auto intro!: compact_size_unique [of ?n])
  then have "c' = c" using g g' t(4) by (simp add: word_unat_eq_iff)
  then show ?thesis using g(1) b g'(1) t by auto
qed

section \<open>Properties\<close>

text \<open>
  C15: The limb loops of \<open>base_uint\<close> compute what the operators stand for.  On eight-limb operands,
  addition, subtraction, negation and both multiplications give the result modulo \<open>2 ^ 256\<close>, the shifts
  multiply and divide by powers of two (losing what leaves the 256 bits), and \<open>CompareTo\<close> is the sign of
  the difference; \<open>bits\<close> is the bit length.
\<close>

theorem uint_operators_modular:
  assumes "wf_uint a" "wf_uint b"
  shows "le_val (uint_add a b) = (le_val a + le_val b) mod 2 ^ 256
    \<and> le_val (uint_sub a b) = (le_val a + (2 ^ 256 - le_val b)) mod 2 ^ 256
    \<and> le_val (uint_neg a) = (2 ^ 256 - le_val a) mod 2 ^ 256
    \<and> le_val (uint_mul a b) = (le_val a * le_val b) mod 2 ^ 256
    \<and> le_val (uint_mul_u32 a w) = (le_val a * unat w) mod 2 ^ 256
    \<and> le_val (uint_shl a n) = (le_val a * 2 ^ n) mod 2 ^ 256
    \<and> le_val (uint_shr a n) = le_val a div 2 ^ n
    \<and> CompareTo a b = sgn (int (le_val a) - int (le_val b))
    \<and> le_val a < 2 ^ uint_bits a \<and> (0 < uint_bits a \<longrightarrow> 2 ^ (uint_bits a - 1) \<le> le_val a)"
  using assms uint_bits(1,2) [OF assms(1)] by (intro conjI impI) (simp_all only: val_simps)

theorem uint_operators_modular_witness:
  "le_val (uint_mul (uint_neg (uint_of_u64 3)) (uint_of_u64 7)) = 2 ^ 256 - 21
   \<and> CompareTo (uint_neg (uint_of_u64 3)) (uint_of_u64 7) = 1"
  using uint_operators_modular [of "uint_neg (uint_of_u64 3)" "uint_of_u64 7" 0 0]
    uint_operators_modular [of "uint_of_u64 3" "uint_of_u64 3" 0 0]
  by (simp add: uval_of_u64)

text \<open>
  The shift-and-subtract loop of \<open>operator/=\<close> is division: for a nonzero divisor it returns the
  quotient of the two numbers, and it raises the division-by-zero error exactly when the divisor is zero.
\<close>

theorem uint_div_correct:
  assumes "wf_uint a" "wf_uint b"
  shows "(if le_val b = 0 then uint_div a b = Inl DivisionByZero
          else \<exists>c. uint_div a b = Inr c \<and> wf_uint c \<and> le_val c = le_val a div le_val b)"
  using assms uint_div_val uint_div_zero by simp

theorem uint_div_correct_witness:
  "(\<exists>c. uint_div (uint_not uint_zero) (uint_of_u64 10) = Inr c \<and> le_val c = (2 ^ 256 - 1) div 10)
   \<and> uint_div (uint_of_u64 10) uint_zero = Inl DivisionByZero"
  using uint_div_correct [of "uint_not uint_zero" "uint_of_u64 10"] uint_div_correct [of "uint_of_u64 10" uint_zero]
  by (auto simp: val_simps)

text \<open>
  C10: Decoding a compact difficulty is exact: the overflow flag of \<open>SetCompact\<close> is raised precisely when
  the number denoted (mantissa times a power of 256) needs more than 256 bits, the negative flag precisely
  when the sign bit is set on a nonzero number, and the limbs hold the number modulo \<open>2 ^ 256\<close>.
\<close>

theorem SetCompact_exact:
  "\<exists>a. SetCompact c = (a, compact_num c \<noteq> 0 \<and> bit c 23, 2 ^ 256 \<le> compact_num c)
       \<and> wf_uint a \<and> le_val a = compact_num c mod 2 ^ 256"
  using SetCompact_num [of c] by blast

text \<open>
  C16: Encoding a target and decoding it again: \<open>GetCompact\<close> never trips its assertions on an
  eight-limb value, \<open>SetCompact\<close> reads its result back without a flag, the value read is the original
  rounded down with a relative error of at most \<open>2 ^ -15\<close>, and encoding that value gives the same word.
\<close>

theorem GetCompact_roundtrip:
  assumes "wf_uint a"
  shows "\<exists>c b. GetCompact a False = Some c \<and> SetCompact c = (b, False, False) \<and> wf_uint b
    \<and> le_val b \<le> le_val a \<and> (le_val a - le_val b) * 2 ^ 15 \<le> le_val b \<and> GetCompact b False = Some c"
  using assms by (rule GetCompact_SetCompact)

theorem GetCompact_roundtrip_witness:
  "\<exists>c b. GetCompact (uint_of_u64 0x123456789a) False = Some c \<and> SetCompact c = (b, False, False)
    \<and> le_val b \<le> 0x123456789a \<and> GetCompact b False = Some c"
  using GetCompact_roundtrip [of "uint_of_u64 0x123456789a"] by (auto simp: uval_of_u64)

end
