(* ===== verification/BlockIndex.thy ===== *)
theory BlockIndex
  imports ArithUint256
begin

text \<open>
  The block index of \<^verbatim>\<open>src/src/chain.h\<close>, \<^verbatim>\<open>chain.cpp\<close> and \<open>BlockManager::AddToBlockIndex\<close> of
  \<^verbatim>\<open>validation.cpp\<close>.  \<open>CBlockIndex\<close> objects live in an explicit store from pointers to records, because
  \<open>pprev\<close> and \<open>pskip\<close> alias them; a null pointer is \<open>None\<close>.  A function that dereferences pointers returns
  \<open>None\<close> where the code would dereference an invalid pointer, fail an assertion or not return.  The loops
  over the pointers are \<open>partial_function\<close>s, and the lemmas show that on a well-formed store they return.
\<close>

unbundle bit_operations_syntax

section \<open>Data\<close>

type_synonym ptr = nat

record CBlockHeader =
  hdr_nVersion :: u32
  hdr_hashPrevBlock :: uint256
  hdr_hashMerkleRoot :: uint256
  hdr_nTime :: u32
  hdr_nBits :: u32
  hdr_nNonce :: u32

record CBlockIndex =
  phashBlock :: uint256
  pprev :: "ptr option"
  pskip :: "ptr option"
  nHeight :: int
  nFile :: int
  nDataPos :: u32
  nUndoPos :: u32
  nChainWork :: base_uint
  nTx :: u32
  nChainTx :: u32
  nStatus :: u32
  nVersion :: u32
  hashMerkleRoot :: uint256
  nTime :: u32
  nBits :: u32
  nNonce :: u32
  nSequenceId :: int
  nTimeMax :: u32

type_synonym index_store = "ptr \<Rightarrow> CBlockIndex option"

text \<open>\<open>CBlockIndex(const CBlockHeader&)\<close>.  The hash pointer is set by the caller.\<close>

definition new_CBlockIndex :: "CBlockHeader \<Rightarrow> CBlockIndex" where
  "new_CBlockIndex block =
     \<lparr>phashBlock = [], pprev = None, pskip = None, nHeight = 0, nFile = 0, nDataPos = 0, nUndoPos = 0,
      nChainWork = uint_zero, nTx = 0, nChainTx = 0, nStatus = 0, nVersion = hdr_nVersion block,
      hashMerkleRoot = hdr_hashMerkleRoot block, nTime = hdr_nTime block, nBits = hdr_nBits block,
      nNonce = hdr_nNonce block, nSequenceId = 0, nTimeMax = 0\<rparr>"

section \<open>Status flags\<close>

definition BLOCK_VALID_UNKNOWN :: u32 where "BLOCK_VALID_UNKNOWN = 0"
definition BLOCK_VALID_RESERVED :: u32 where "BLOCK_VALID_RESERVED = 1"
definition BLOCK_VALID_TREE :: u32 where "BLOCK_VALID_TREE = 2"
definition BLOCK_VALID_TRANSACTIONS :: u32 where "BLOCK_VALID_TRANSACTIONS = 3"
definition BLOCK_VALID_CHAIN :: u32 where "BLOCK_VALID_CHAIN = 4"
definition BLOCK_VALID_SCRIPTS :: u32 where "BLOCK_VALID_SCRIPTS = 5"
definition BLOCK_VALID_MASK :: u32 where
  "BLOCK_VALID_MASK = BLOCK_VALID_RESERVED OR BLOCK_VALID_TREE OR BLOCK_VALID_TRANSACTIONS
                      OR BLOCK_VALID_CHAIN OR BLOCK_VALID_SCRIPTS"
definition BLOCK_HAVE_DATA :: u32 where "BLOCK_HAVE_DATA = 8"
definition BLOCK_HAVE_UNDO :: u32 where "BLOCK_HAVE_UNDO = 16"
definition BLOCK_HAVE_MASK :: u32 where "BLOCK_HAVE_MASK = BLOCK_HAVE_DATA OR BLOCK_HAVE_UNDO"
definition BLOCK_FAILED_VALID :: u32 where "BLOCK_FAILED_VALID = 32"
definition BLOCK_FAILED_CHILD :: u32 where "BLOCK_FAILED_CHILD = 64"
definition BLOCK_FAILED_MASK :: u32 where "BLOCK_FAILED_MASK = BLOCK_FAILED_VALID OR BLOCK_FAILED_CHILD"
definition BLOCK_CONFLICT_CHAINLOCK :: u32 where "BLOCK_CONFLICT_CHAINLOCK = 128"

text \<open>The values in the order of the enumeration.\<close>

definition BlockStatus :: "u32 list" where
  "BlockStatus = [
     BLOCK_VALID_UNKNOWN, BLOCK_VALID_RESERVED, BLOCK_VALID_TREE, BLOCK_VALID_TRANSACTIONS, BLOCK_VALID_CHAIN,
     BLOCK_VALID_SCRIPTS, BLOCK_VALID_MASK, BLOCK_HAVE_DATA, BLOCK_HAVE_UNDO, BLOCK_HAVE_MASK, BLOCK_FAILED_VALID,
     BLOCK_FAILED_CHILD, BLOCK_FAILED_MASK, BLOCK_CONFLICT_CHAINLOCK]"

lemmas block_status_defs =
  BLOCK_VALID_UNKNOWN_def BLOCK_VALID_RESERVED_def BLOCK_VALID_TREE_def BLOCK_VALID_TRANSACTIONS_def
  BLOCK_VALID_CHAIN_def BLOCK_VALID_SCRIPTS_def BLOCK_VALID_MASK_def BLOCK_HAVE_DATA_def
  BLOCK_HAVE_UNDO_def BLOCK_HAVE_MASK_def BLOCK_FAILED_VALID_def BLOCK_FAILED_CHILD_def
  BLOCK_FAILED_MASK_def BLOCK_CONFLICT_CHAINLOCK_def

text \<open>\<open>IsValid\<close> and \<open>RaiseValidity\<close>; \<open>None\<close> is a failed assertion.\<close>

definition IsValid :: "CBlockIndex \<Rightarrow> u32 \<Rightarrow> bool option" where
  "IsValid b nUpTo =
     (if nUpTo AND NOT BLOCK_VALID_MASK \<noteq> 0 then None
      else if nStatus b AND BLOCK_FAILED_MASK \<noteq> 0 then Some False
      else Some (nStatus b AND BLOCK_VALID_MASK \<ge> nUpTo))"

definition RaiseValidity :: "CBlockIndex \<Rightarrow> u32 \<Rightarrow> (CBlockIndex \<times> bool) option" where
  "RaiseValidity b nUpTo =
     (if nUpTo AND NOT BLOCK_VALID_MASK \<noteq> 0 then None
      else if nStatus b AND BLOCK_FAILED_MASK \<noteq> 0 then Some (b, False)
      else if nStatus b AND BLOCK_VALID_MASK < nUpTo
           then Some (b\<lparr>nStatus := (nStatus b AND NOT BLOCK_VALID_MASK) OR nUpTo\<rparr>, True)
      else Some (b, False))"

text \<open>Positions in the block files (\<open>FlatFilePos\<close>), null unless the data is there.\<close>

record FlatFilePos =
  pos_nFile :: int
  pos_nPos :: u32

definition FlatFilePos_null :: FlatFilePos where
  "FlatFilePos_null = \<lparr>pos_nFile = - 1, pos_nPos = 0\<rparr>"

definition GetBlockPos :: "CBlockIndex \<Rightarrow> FlatFilePos" where
  "GetBlockPos b = (if nStatus b AND BLOCK_HAVE_DATA \<noteq> 0
                    then \<lparr>pos_nFile = nFile b, pos_nPos = nDataPos b\<rparr> else FlatFilePos_null)"

definition GetUndoPos :: "CBlockIndex \<Rightarrow> FlatFilePos" where
  "GetUndoPos b = (if nStatus b AND BLOCK_HAVE_UNDO \<noteq> 0
                   then \<lparr>pos_nFile = nFile b, pos_nPos = nUndoPos b\<rparr> else FlatFilePos_null)"

definition GetBlockHeader :: "index_store \<Rightarrow> CBlockIndex \<Rightarrow> CBlockHeader option" where
  "GetBlockHeader st b =
     (case pprev b of
        None \<Rightarrow> Some \<lparr>hdr_nVersion = nVersion b, hdr_hashPrevBlock = null_hash,
                      hdr_hashMerkleRoot = hashMerkleRoot b, hdr_nTime = nTime b, hdr_nBits = nBits b,
                      hdr_nNonce = nNonce b\<rparr>
      | Some q \<Rightarrow> (case st q of None \<Rightarrow> None
          | Some c \<Rightarrow> Some \<lparr>hdr_nVersion = nVersion b, hdr_hashPrevBlock = phashBlock c,
                      hdr_hashMerkleRoot = hashMerkleRoot b, hdr_nTime = nTime b, hdr_nBits = nBits b,
                      hdr_nNonce = nNonce b\<rparr>))"

text \<open>\<open>CBlockFileInfo\<close>: the statistics of one block file.\<close>

record CBlockFileInfo =
  fi_nBlocks :: u32
  fi_nSize :: u32
  fi_nUndoSize :: u32
  fi_nHeightFirst :: u32
  fi_nHeightLast :: u32
  fi_nTimeFirst :: u64
  fi_nTimeLast :: u64

definition CBlockFileInfo_null :: CBlockFileInfo where
  "CBlockFileInfo_null = \<lparr>fi_nBlocks = 0, fi_nSize = 0, fi_nUndoSize = 0, fi_nHeightFirst = 0,
                          fi_nHeightLast = 0, fi_nTimeFirst = 0, fi_nTimeLast = 0\<rparr>"

definition AddBlock :: "u32 \<Rightarrow> u64 \<Rightarrow> CBlockFileInfo \<Rightarrow> CBlockFileInfo" where
  "AddBlock nHeightIn nTimeIn f =
     (let f1 = (if fi_nBlocks f = 0 \<or> fi_nHeightFirst f > nHeightIn
                then f\<lparr>fi_nHeightFirst := nHeightIn\<rparr> else f);
          f2 = (if fi_nBlocks f1 = 0 \<or> fi_nTimeFirst f1 > nTimeIn
                then f1\<lparr>fi_nTimeFirst := nTimeIn\<rparr> else f1);
          f3 = f2\<lparr>fi_nBlocks := fi_nBlocks f2 + 1\<rparr>;
          f4 = (if nHeightIn > fi_nHeightLast f3 then f3\<lparr>fi_nHeightLast := nHeightIn\<rparr> else f3)
      in if nTimeIn > fi_nTimeLast f4 then f4\<lparr>fi_nTimeLast := nTimeIn\<rparr> else f4)"

section \<open>Walking back\<close>

definition InvertLowestOne :: "int \<Rightarrow> int" where
  "InvertLowestOne n = n AND (n - 1)"

definition GetSkipHeight :: "int \<Rightarrow> int" where
  "GetSkipHeight height =
     (if height < 2 then 0
      else if height AND 1 \<noteq> 0 then InvertLowestOne (InvertLowestOne (height - 1)) + 1
      else InvertLowestOne height)"

text \<open>The loop of \<open>GetAncestor\<close>, from the block \<open>pindexWalk\<close> at height \<open>heightWalk\<close>.\<close>

partial_function (option) ancestor_walk :: "index_store \<Rightarrow> int \<Rightarrow> ptr \<Rightarrow> int \<Rightarrow> ptr option" where
  [code]: "ancestor_walk st height pindexWalk heightWalk =
     (if heightWalk > height then
        (case st pindexWalk of
           None \<Rightarrow> None
         | Some b \<Rightarrow>
             (let heightSkip = GetSkipHeight heightWalk;
                  heightSkipPrev = GetSkipHeight (heightWalk - 1)
              in if pskip b \<noteq> None \<and>
                    (heightSkip = height \<or>
                     (heightSkip > height \<and> \<not> (heightSkipPrev < heightSkip - 2 \<and> heightSkipPrev \<ge> height)))
                 then ancestor_walk st height (the (pskip b)) heightSkip
                 else (case pprev b of
                         None \<Rightarrow> None
                       | Some q \<Rightarrow> ancestor_walk st height q (heightWalk - 1))))
      else Some pindexWalk)"

text \<open>\<open>GetAncestor\<close>: \<open>Some None\<close> is the null pointer.\<close>

definition GetAncestor :: "index_store \<Rightarrow> ptr \<Rightarrow> int \<Rightarrow> ptr option option" where
  "GetAncestor st p height =
     (case st p of
        None \<Rightarrow> None
      | Some b \<Rightarrow>
          if height > nHeight b \<or> height < 0 then Some None
          else (case ancestor_walk st height p (nHeight b) of None \<Rightarrow> None | Some q \<Rightarrow> Some (Some q)))"

definition BuildSkip :: "index_store \<Rightarrow> ptr \<Rightarrow> index_store option" where
  "BuildSkip st p =
     (case st p of
        None \<Rightarrow> None
      | Some b \<Rightarrow>
          (case pprev b of
             None \<Rightarrow> Some st
           | Some q \<Rightarrow> (case GetAncestor st q (GetSkipHeight (nHeight b)) of
                          None \<Rightarrow> None
                        | Some a \<Rightarrow> Some (st(p \<mapsto> b\<lparr>pskip := a\<rparr>)))))"

text \<open>
  \<open>GetMedianTimePast\<close>: the times of the last eleven blocks are collected from the end of the array
  towards its front (so the array holds them oldest first), sorted, and the middle one is returned.
\<close>

fun median_times :: "index_store \<Rightarrow> nat \<Rightarrow> ptr option \<Rightarrow> int list \<Rightarrow> int list option" where
  "median_times st n None acc = Some acc"
| "median_times st 0 p acc = Some acc"
| "median_times st (Suc n) (Some p) acc =
     (case st p of None \<Rightarrow> None | Some b \<Rightarrow> median_times st n (pprev b) (uint (nTime b) # acc))"

definition nMedianTimeSpan :: nat where
  "nMedianTimeSpan = 11"

definition GetMedianTimePast :: "index_store \<Rightarrow> ptr \<Rightarrow> int option" where
  "GetMedianTimePast st p =
     (case median_times st nMedianTimeSpan (Some p) [] of
        None \<Rightarrow> None
      | Some ts \<Rightarrow> if ts = [] then None else Some (sort ts ! (length ts div 2)))"

section \<open>Work\<close>

definition GetBlockProof :: "CBlockIndex \<Rightarrow> uint_error + base_uint" where
  "GetBlockProof block =
     (case SetCompact (nBits block) of
        (bnTarget, fNegative, fOverflow) \<Rightarrow>
          if fNegative \<or> fOverflow \<or> EqualTo bnTarget 0 then Inr uint_zero
          else (case uint_div (uint_not bnTarget) (uint_add_u64 bnTarget 1) of
                  Inl e \<Rightarrow> Inl e
                | Inr q \<Rightarrow> Inr (uint_add_u64 q 1)))"

definition GetBlockProofEquivalentTime ::
  "CBlockIndex \<Rightarrow> CBlockIndex \<Rightarrow> CBlockIndex \<Rightarrow> u64 \<Rightarrow> uint_error + int" where
  "GetBlockProofEquivalentTime to from tip nPowTargetSpacing =
     (let (r, sign) = (if CompareTo (nChainWork to) (nChainWork from) > 0
                       then (uint_sub (nChainWork to) (nChainWork from), 1)
                       else (uint_sub (nChainWork from) (nChainWork to), - 1 :: int))
      in case GetBlockProof tip of
           Inl e \<Rightarrow> Inl e
         | Inr proof_tip \<Rightarrow>
             (case uint_div (uint_mul r (uint_of_u64 nPowTargetSpacing)) proof_tip of
                Inl e \<Rightarrow> Inl e
              | Inr r' \<Rightarrow> Inr (if uint_bits r' > 63 then sign * (2 ^ 63 - 1)
                               else sint ((word_of_int sign :: u64) * GetLow64 r'))))"

section \<open>The block manager\<close>

text \<open>
  The members of \<open>BlockManager\<close> that \<open>AddToBlockIndex\<close> changes, the heap of \<open>CBlockIndex\<close> objects with the
  address of the next allocation, and the global \<open>pindexBestHeader\<close>.
\<close>

record BlockManager =
  heap :: index_store
  next_ptr :: ptr
  m_block_index :: "uint256 \<Rightarrow> ptr option"
  m_prev_block_index :: "(uint256 \<times> ptr) list"
  m_dirty_blockindex :: "ptr set"
  pindexBestHeader :: "ptr option"

definition BlockManager_init :: BlockManager where
  "BlockManager_init = \<lparr>heap = (\<lambda>_. None), next_ptr = 0, m_block_index = (\<lambda>_. None),
                        m_prev_block_index = [], m_dirty_blockindex = {}, pindexBestHeader = None\<rparr>"

text \<open>
  The new entry: linked to its predecessor, with its skip pointer, time maximum and chain work
  (lines 3348 to 3363).  \<open>hash\<close> is the hash of the header.
\<close>

definition link_new_index :: "BlockManager \<Rightarrow> CBlockHeader \<Rightarrow> uint256 \<Rightarrow> (index_store \<times> CBlockIndex) option" where
  "link_new_index bm block hash =
     (let p = next_ptr bm;
          new0 = (new_CBlockIndex block)\<lparr>nSequenceId := 0, phashBlock := hash\<rparr>;
          mbi = (m_block_index bm)(hash \<mapsto> p)
      in case mbi (hdr_hashPrevBlock block) of
           None \<Rightarrow>
             (case GetBlockProof new0 of
                Inl _ \<Rightarrow> None
              | Inr pr \<Rightarrow> let new1 = new0\<lparr>nTimeMax := nTime new0, nChainWork := uint_add uint_zero pr\<rparr>
                           in Some ((heap bm)(p \<mapsto> new1), new1))
         | Some q \<Rightarrow>
             (case ((heap bm)(p \<mapsto> new0)) q of
                None \<Rightarrow> None
              | Some prev \<Rightarrow>
                  let new1 = new0\<lparr>pprev := Some q, nHeight := nHeight prev + 1\<rparr>
                  in case BuildSkip ((heap bm)(p \<mapsto> new1)) p of
                       None \<Rightarrow> None
                     | Some st \<Rightarrow>
                         (case st p of
                            None \<Rightarrow> None
                          | Some new2 \<Rightarrow>
                              (case GetBlockProof new2 of
                                 Inl _ \<Rightarrow> None
                               | Inr pr \<Rightarrow>
                                   let new3 = new2\<lparr>nTimeMax := max (nTimeMax prev) (nTime new2),
                                                   nChainWork := uint_add (nChainWork prev) pr\<rparr>
                                   in Some (st(p \<mapsto> new3), new3)))))"

text \<open>The validity of the new entry (lines 3364 to 3371), and the best header (lines 3366, 3367).\<close>

definition raise_new_index :: "u32 \<Rightarrow> CBlockIndex \<Rightarrow> CBlockIndex option" where
  "raise_new_index status new =
     (if status AND BLOCK_VALID_MASK \<noteq> 0
      then map_option fst (RaiseValidity new status)
      else map_option (\<lambda>(b, _). b\<lparr>nStatus := nStatus b OR status\<rparr>) (RaiseValidity new BLOCK_VALID_TREE))"

definition update_best_header :: "u32 \<Rightarrow> index_store \<Rightarrow> ptr \<Rightarrow> CBlockIndex \<Rightarrow> ptr option \<Rightarrow> ptr option option" where
  "update_best_header status st p new best =
     (if status AND BLOCK_VALID_MASK \<noteq> 0
      then (case best of
              None \<Rightarrow> Some (Some p)
            | Some h \<Rightarrow>
                (case st h of
                   None \<Rightarrow> None
                 | Some hb \<Rightarrow> Some (Some (if CompareTo (nChainWork hb) (nChainWork new) < 0 then p else h))))
      else Some best)"

definition track_prev :: "index_store \<Rightarrow> ptr \<Rightarrow> CBlockIndex \<Rightarrow> (uint256 \<times> ptr) list \<Rightarrow> (uint256 \<times> ptr) list option" where
  "track_prev st p new m =
     (case pprev new of
        None \<Rightarrow> Some m
      | Some q \<Rightarrow> (case st q of None \<Rightarrow> None | Some qb \<Rightarrow> Some ((phashBlock qb, p) # m)))"

definition AddToBlockIndex ::
  "(CBlockHeader \<Rightarrow> uint256) \<Rightarrow> CBlockHeader \<Rightarrow> u32 \<Rightarrow> BlockManager \<Rightarrow> (BlockManager \<times> ptr) option" where
  "AddToBlockIndex GetHash block status bm =
     (if status AND BLOCK_FAILED_MASK \<noteq> 0 then None
      else let hash = GetHash block; p = next_ptr bm
      in case m_block_index bm hash of
           Some q \<Rightarrow> Some (bm, q)
         | None \<Rightarrow>
             (case link_new_index bm block hash of
                None \<Rightarrow> None
              | Some (st, new1) \<Rightarrow>
                  (case raise_new_index status new1 of
                     None \<Rightarrow> None
                   | Some new \<Rightarrow>
                       (case update_best_header status st p new (pindexBestHeader bm) of
                          None \<Rightarrow> None
                        | Some best \<Rightarrow>
                            (case track_prev st p new (m_prev_block_index bm) of
                               None \<Rightarrow> None
                             | Some mp \<Rightarrow>
                                 Some (bm\<lparr>heap := st(p \<mapsto> new), next_ptr := p + 1,
                                          m_block_index := (m_block_index bm)(hash \<mapsto> p),
                                          m_dirty_blockindex := insert p (m_dirty_blockindex bm),
                                          m_prev_block_index := mp, pindexBestHeader := best\<rparr>, p))))))"

section \<open>The skip list\<close>

lemma InvertLowestOne_bounds: "0 \<le> n \<Longrightarrow> 0 \<le> InvertLowestOne n \<and> InvertLowestOne n \<le> n"
  by (simp add: InvertLowestOne_def AND_upper1)

lemma InvertLowestOne_less: "0 < n \<Longrightarrow> InvertLowestOne n < n"
proof -
  assume "0 < n"
  then have "n AND (n - 1) \<le> n - 1" by (intro AND_upper2) simp
  then show ?thesis unfolding InvertLowestOne_def by linarith
qed

lemma GetSkipHeight_bounds: "0 < h \<Longrightarrow> 0 \<le> GetSkipHeight h \<and> GetSkipHeight h < h"
  using InvertLowestOne_bounds [of "h - 1"] InvertLowestOne_less [of "h - 1"]
    InvertLowestOne_bounds [of "InvertLowestOne (h - 1)"] InvertLowestOne_bounds [of h]
    InvertLowestOne_less [of h]
  by (auto simp: GetSkipHeight_def)

text \<open>The specification of an ancestor: \<open>n\<close> steps along \<open>pprev\<close>.\<close>

fun walk_back :: "index_store \<Rightarrow> nat \<Rightarrow> ptr \<Rightarrow> ptr option" where
  "walk_back st 0 p = Some p"
| "walk_back st (Suc n) p =
     (case st p of None \<Rightarrow> None
      | Some b \<Rightarrow> (case pprev b of None \<Rightarrow> None | Some q \<Rightarrow> walk_back st n q))"

text \<open>
  Well-formed stores: heights count the predecessors, skip pointers lead to the ancestor they are
  meant to lead to.
\<close>

definition wf_node :: "index_store \<Rightarrow> ptr \<Rightarrow> CBlockIndex \<Rightarrow> bool" where
  "wf_node st p b \<longleftrightarrow>
     (case pprev b of
        None \<Rightarrow> nHeight b = 0
      | Some q \<Rightarrow> (case st q of None \<Rightarrow> False | Some c \<Rightarrow> nHeight b = nHeight c + 1)) \<and> 0 \<le> nHeight b \<and>
     (case pskip b of
        None \<Rightarrow> True
      | Some q \<Rightarrow> 0 < nHeight b \<and> walk_back st (nat (nHeight b - GetSkipHeight (nHeight b))) p = Some q)"

definition wf_store :: "index_store \<Rightarrow> bool" where
  "wf_store st \<longleftrightarrow> (\<forall>p b. st p = Some b \<longrightarrow> wf_node st p b)"

lemma wf_storeD: "wf_store st \<Longrightarrow> st p = Some b \<Longrightarrow> wf_node st p b"
  by (simp add: wf_store_def)

lemma wf_store_prev:
  assumes "wf_store st" "st p = Some b" "0 < nHeight b"
  obtains q c where "pprev b = Some q" "st q = Some c" "nHeight b = nHeight c + 1"
  using assms wf_storeD [OF assms(1,2)] by (auto simp: wf_node_def split: option.splits)

lemma wf_store_height: "wf_store st \<Longrightarrow> st p = Some b \<Longrightarrow> 0 \<le> nHeight b"
  using wf_storeD [of st p b] by (simp add: wf_node_def)

lemma wf_store_prev_height:
  "wf_store st \<Longrightarrow> st p = Some b \<Longrightarrow> pprev b = Some q \<Longrightarrow> \<exists>c. st q = Some c \<and> nHeight b = nHeight c + 1"
  using wf_storeD [of st p b] by (auto simp: wf_node_def split: option.splits)

lemma wf_store_genesis: "wf_store st \<Longrightarrow> st p = Some b \<Longrightarrow> nHeight b = 0 \<Longrightarrow> pprev b = None"
  using wf_store_prev_height [of st p b] wf_store_height [of st] by (cases "pprev b") fastforce+

lemma wf_store_skip:
  "wf_store st \<Longrightarrow> st p = Some b \<Longrightarrow> pskip b = Some q \<Longrightarrow>
   walk_back st (nat (nHeight b - GetSkipHeight (nHeight b))) p = Some q"
  using wf_storeD [of st p b] by (simp add: wf_node_def)

lemma walk_back_add:
  "walk_back st (m + n) p = (case walk_back st m p of None \<Rightarrow> None | Some q \<Rightarrow> walk_back st n q)"
  by (induction m arbitrary: p) (auto split: option.splits)

lemma walk_back_height:
  assumes "wf_store st" "st p = Some b" "int n \<le> nHeight b"
  shows "\<exists>q c. walk_back st n p = Some q \<and> st q = Some c \<and> nHeight c = nHeight b - int n"
  using assms(2,3)
proof (induction n arbitrary: p b)
  case (Suc n)
  then have "0 < nHeight b" by simp
  then obtain q c where q: "pprev b = Some q" "st q = Some c" "nHeight b = nHeight c + 1"
    by (rule wf_store_prev [OF assms(1) Suc(2)])
  then show ?case using Suc(1) [OF q(2)] Suc(2,3) by simp
qed simp

lemma ancestor_walk_walk_back:
  assumes "wf_store st" "st p = Some b" "0 \<le> h" "h \<le> nHeight b"
  shows "ancestor_walk st h p (nHeight b) = walk_back st (nat (nHeight b - h)) p"
  using assms(2,4)
proof (induction "nat (nHeight b)" arbitrary: p b rule: less_induct)
  case less
  note st = assms(1)
  show ?case
  proof (cases "h < nHeight b")
    case False
    then show ?thesis using less by (subst ancestor_walk.simps) simp
  next
    case True
    then have pos: "0 < nHeight b" using assms(3) by simp
    let ?s = "GetSkipHeight (nHeight b)"
    note s = GetSkipHeight_bounds [OF pos]
    let ?skip = "pskip b \<noteq> None \<and> (?s = h \<or> (?s > h \<and> \<not> (GetSkipHeight (nHeight b - 1) < ?s - 2 \<and> GetSkipHeight (nHeight b - 1) \<ge> h)))"
    show ?thesis
    proof (cases ?skip)
      case T: True
      then obtain q where q: "pskip b = Some q" by auto
      have w: "walk_back st (nat (nHeight b - ?s)) p = Some q"
        by (rule wf_store_skip [OF st less(2) q])
      obtain c where c: "st q = Some c" "nHeight c = ?s"
        using walk_back_height [OF st less(2), of "nat (nHeight b - ?s)"] s w by auto
      have "nat (nHeight b - h) = nat (nHeight b - ?s) + nat (?s - h)" using s T by auto
      then have "walk_back st (nat (nHeight b - h)) p = walk_back st (nat (?s - h)) q"
        using w by (simp add: walk_back_add)
      also have "\<dots> = ancestor_walk st h q ?s"
        using less(1) [OF _ c(1)] c(2) s T by auto
      also have "\<dots> = ancestor_walk st h p (nHeight b)"
        using True T q less(2) by (subst (2) ancestor_walk.simps) (simp add: Let_def)
      finally show ?thesis by simp
    next
      case F: False
      obtain q c where q: "pprev b = Some q" "st q = Some c" "nHeight b = nHeight c + 1"
        using wf_store_prev [OF st less(2) pos] .
      have "nat (nHeight b - h) = Suc (nat (nHeight c - h))" using q True by simp
      then have "walk_back st (nat (nHeight b - h)) p = walk_back st (nat (nHeight c - h)) q"
        using q less(2) by simp
      also have "\<dots> = ancestor_walk st h q (nHeight c)"
        using less(1) [OF _ q(2)] q(3) True pos by simp
      also have "\<dots> = ancestor_walk st h p (nHeight b)"
        using True F q less(2) by (subst (2) ancestor_walk.simps) (auto simp: Let_def)
      finally show ?thesis by simp
    qed
  qed
qed

lemma GetAncestor_walk_back:
  assumes "wf_store st" "st p = Some b"
  shows "GetAncestor st p h =
    Some (if h < 0 \<or> nHeight b < h then None else walk_back st (nat (nHeight b - h)) p)"
proof (cases "h < 0 \<or> nHeight b < h")
  case False
  then obtain q where "walk_back st (nat (nHeight b - h)) p = Some q"
    using walk_back_height [OF assms, of "nat (nHeight b - h)"] by auto
  then show ?thesis using assms False by (simp add: GetAncestor_def ancestor_walk_walk_back)
qed (auto simp: GetAncestor_def assms)

text \<open>Stores that agree on the predecessors have the same walks; new entries keep the old walks.\<close>

lemma walk_back_cong:
  assumes "\<And>q. map_option pprev (st q) = map_option pprev (st' q)"
  shows "walk_back st n p = walk_back st' n p"
proof (induction n arbitrary: p)
  case (Suc n)
  then show ?case using assms [of p] by (auto split: option.splits)
qed simp

lemma walk_back_fresh:
  assumes "st p = None" "walk_back st n q = Some r"
  shows "walk_back (st(p := x)) n q = Some r"
  using assms(2)
proof (induction n arbitrary: q)
  case (Suc n)
  then have "q \<noteq> p" using assms(1) by auto
  then show ?case using Suc by (auto split: option.splits)
qed simp

section \<open>Work\<close>

text \<open>The expected number of hashes: \<open>2 ^ 256 / (target + 1)\<close>, zero for an invalid target.\<close>

definition block_work :: "CBlockIndex \<Rightarrow> nat" where
  "block_work b =
     (let t = compact_num (nBits b)
      in if t = 0 \<or> bit (nBits b) 23 \<or> 2 ^ 256 \<le> t then 0 else 2 ^ 256 div (t + 1))"

lemma compact_num_even_top: "compact_num c < 2 ^ 256 \<Longrightarrow> compact_num c + 1 < 2 ^ 256"
proof -
  assume less: "compact_num c < 2 ^ 256"
  define s where "s = unat c div 2 ^ 24"
  define m where "m = unat c mod 2 ^ 23"
  have n: "compact_num c = (if s \<le> 3 then m div 2 ^ (8 * (3 - s)) else m * 2 ^ (8 * (s - 3)))"
    by (simp only: compact_num_def Let_def s_def m_def)
  have "compact_num c \<noteq> 2 ^ 256 - 1"
  proof (cases "s \<le> 3")
    case True
    have "m < 2 ^ 23" by (simp add: m_def)
    moreover have "m div 2 ^ (8 * (3 - s)) \<le> m" by (rule div_le_dividend)
    ultimately have "m div 2 ^ (8 * (3 - s)) < 2 ^ 23" by linarith
    then show ?thesis using True by (simp add: n)
  next
    case False
    then have "even (m * 2 ^ (8 * (s - 3)))" by simp
    moreover have "odd (2 ^ 256 - 1 :: nat)" by simp
    ultimately show ?thesis using False n by metis
  qed
  then show ?thesis using less by simp
qed

lemma uint_add_u64_1: "uint_add_u64 a 1 = uint_add a (uint_of_u64 1)"
  by (simp add: uint_add_u64_def)

lemma SetCompact_cases:
  obtains a where "SetCompact c = (a, compact_num c \<noteq> 0 \<and> bit c 23, 2 ^ 256 \<le> compact_num c)"
    "wf_uint a" "le_val a = compact_num c mod 2 ^ 256"
  using SetCompact_num [of c] by blast

lemma GetBlockProof_work:
  "\<exists>w. GetBlockProof b = Inr w \<and> wf_uint w \<and> le_val w = block_work b"
proof -
  let ?t = "compact_num (nBits b)"
  obtain a where sc: "SetCompact (nBits b) = (a, ?t \<noteq> 0 \<and> bit (nBits b) 23, 2 ^ 256 \<le> ?t)"
    "wf_uint a" "le_val a = ?t mod 2 ^ 256" by (rule SetCompact_cases)
  have eq0: "EqualTo a 0 \<longleftrightarrow> ?t mod 2 ^ 256 = 0" using sc by (simp add: EqualTo_iff)
  show ?thesis
  proof (cases "?t = 0 \<or> bit (nBits b) 23 \<or> 2 ^ 256 \<le> ?t")
    case True
    then have "GetBlockProof b = Inr uint_zero"
      unfolding GetBlockProof_def sc(1) using eq0 by auto
    then show ?thesis using True by (simp add: block_work_def uval_zero Let_def)
  next
    case False
    then have a: "le_val a = ?t" using sc by simp
    have lt: "?t + 1 < 2 ^ 256" using False compact_num_even_top by simp
    then obtain c where c: "uint_div (uint_not a) (uint_add a (uint_of_u64 1)) = Inr c"
      "wf_uint (uint_add c (uint_of_u64 1))" "le_val (uint_add c (uint_of_u64 1)) = 2 ^ 256 div (?t + 1)"
      using u256.inverse_work [OF sc(2)] a False by auto
    then have "GetBlockProof b = Inr (uint_add c (uint_of_u64 1))"
      unfolding GetBlockProof_def uint_add_u64_1 sc(1) using eq0 False lt by simp
    then show ?thesis using c False by (simp add: block_work_def Let_def)
  qed
qed

section \<open>The block manager keeps the index well formed\<close>

lemma wf_store_extend:
  assumes "wf_store st" "st p = None" "wf_node (st(p \<mapsto> b)) p b"
  shows "wf_store (st(p \<mapsto> b))"
  unfolding wf_store_def
proof (intro allI impI)
  fix q c
  assume q: "(st(p \<mapsto> b)) q = Some c"
  show "wf_node (st(p \<mapsto> b)) q c"
  proof (cases "q = p")
    case False
    then have "wf_node st q c" using q assms(1) by (simp add: wf_store_def)
    then show ?thesis
      using assms(2) walk_back_fresh [of st p _ q _ "Some b"]
      by (auto simp: wf_node_def split: option.splits)
  qed (use q assms(3) in simp)
qed

lemma wf_store_update:
  assumes "wf_store st" "st p = Some b" "pprev b' = pprev b" "nHeight b' = nHeight b"
    and "\<And>q. pskip b' = Some q \<Longrightarrow> 0 < nHeight b \<and>
           walk_back st (nat (nHeight b - GetSkipHeight (nHeight b))) p = Some q"
  shows "wf_store (st(p \<mapsto> b'))"
  unfolding wf_store_def
proof (intro allI impI)
  fix q c
  assume q: "(st(p \<mapsto> b')) q = Some c"
  have walk: "walk_back (st(p \<mapsto> b')) n r = walk_back st n r" for n r
    by (rule walk_back_cong) (use assms in simp)
  have h: "map_option nHeight ((st(p \<mapsto> b')) r) = map_option nHeight (st r)" for r
    using assms by simp
  have "wf_node st p b" by (rule wf_storeD [OF assms(1,2)])
  then have "wf_node st q c"
    using q assms(3-5) wf_storeD [OF assms(1), of q c]
    by (cases "q = p") (auto simp: wf_node_def split: option.splits)
  then show "wf_node (st(p \<mapsto> b')) q c"
    using assms(2,4) by (auto simp: wf_node_def walk split: option.splits if_splits)
qed

lemma BuildSkip_wf:
  assumes "wf_store st" "st p = Some b"
  shows "\<exists>s. BuildSkip st p = Some (st(p \<mapsto> b\<lparr>pskip := s\<rparr>)) \<and> wf_store (st(p \<mapsto> b\<lparr>pskip := s\<rparr>)) \<and>
             (pprev b \<noteq> None \<longrightarrow> s \<noteq> None)"
proof (cases "pprev b")
  case None
  moreover have "st(p \<mapsto> b\<lparr>pskip := pskip b\<rparr>) = st" using assms(2) by (auto simp: fun_upd_def)
  ultimately show ?thesis using assms by (intro exI [of _ "pskip b"]) (simp add: BuildSkip_def)
next
  case (Some q)
  then obtain c where c: "st q = Some c" "nHeight b = nHeight c + 1"
    using wf_store_prev_height [OF assms] by blast
  have pos: "0 < nHeight b" using c wf_store_height [OF assms(1) c(1)] by simp
  let ?s = "GetSkipHeight (nHeight b)"
  note s = GetSkipHeight_bounds [OF pos]
  have "nat (nHeight b - ?s) = Suc (nat (nHeight c - ?s))" using s c(2) by linarith
  then have w: "walk_back st (nat (nHeight b - ?s)) p = walk_back st (nat (nHeight c - ?s)) q"
    using Some assms(2) by simp
  obtain a where a: "walk_back st (nat (nHeight c - ?s)) q = Some a"
    using walk_back_height [OF assms(1) c(1), of "nat (nHeight c - ?s)"] s c(2) by auto
  have "GetAncestor st q ?s = Some (Some a)"
    using GetAncestor_walk_back [OF assms(1) c(1), of ?s] a s c(2) by simp
  then have "BuildSkip st p = Some (st(p \<mapsto> b\<lparr>pskip := Some a\<rparr>))"
    using Some assms(2) by (simp add: BuildSkip_def)
  moreover have "wf_store (st(p \<mapsto> b\<lparr>pskip := Some a\<rparr>))"
    by (rule wf_store_update [OF assms]) (use pos w a in auto)
  ultimately show ?thesis by blast
qed

text \<open>What each entry records of its branch.\<close>

definition linked :: "index_store \<Rightarrow> CBlockIndex \<Rightarrow> bool" where
  "linked st b \<longleftrightarrow> wf_uint (nChainWork b) \<and> (0 < nHeight b \<longrightarrow> pskip b \<noteq> None) \<and>
     (case pprev b of
        None \<Rightarrow> nTimeMax b = nTime b \<and> le_val (nChainWork b) = block_work b
      | Some q \<Rightarrow> (case st q of None \<Rightarrow> False
                   | Some c \<Rightarrow> nTimeMax b = max (nTimeMax c) (nTime b) \<and>
                       le_val (nChainWork b) = (le_val (nChainWork c) + block_work b) mod 2 ^ 256))"

definition bm_inv :: "BlockManager \<Rightarrow> bool" where
  "bm_inv bm \<longleftrightarrow> wf_store (heap bm) \<and> (\<forall>p. next_ptr bm \<le> p \<longrightarrow> heap bm p = None) \<and>
     (\<forall>h p. m_block_index bm h = Some p \<longrightarrow> (\<exists>b. heap bm p = Some b \<and> phashBlock b = h)) \<and>
     (\<forall>p b. heap bm p = Some b \<longrightarrow> linked (heap bm) b) \<and>
     (\<forall>p. pindexBestHeader bm = Some p \<longrightarrow> heap bm p \<noteq> None)"

lemma linked_extend:
  assumes "linked st c" "st p = None"
  shows "linked (st(p \<mapsto> b)) c"
  using assms by (auto simp: linked_def split: option.splits)

lemma block_work_cong: "nBits b = nBits c \<Longrightarrow> block_work b = block_work c"
  by (simp add: block_work_def)

lemma link_new_index_ok:
  assumes inv: "bm_inv bm" and ne: "hash \<noteq> hdr_hashPrevBlock block"
  shows "\<exists>new. link_new_index bm block hash = Some ((heap bm)(next_ptr bm \<mapsto> new), new) \<and>
     wf_store ((heap bm)(next_ptr bm \<mapsto> new)) \<and> linked (heap bm) new \<and> phashBlock new = hash \<and> nStatus new = 0"
proof -
  let ?p = "next_ptr bm" and ?h = "heap bm"
  let ?new0 = "(new_CBlockIndex block)\<lparr>nSequenceId := 0, phashBlock := hash\<rparr>"
  have wf: "wf_store ?h" and fresh: "?h ?p = None" using inv by (auto simp: bm_inv_def)
  have mbi: "((m_block_index bm)(hash \<mapsto> ?p)) (hdr_hashPrevBlock block) = m_block_index bm (hdr_hashPrevBlock block)"
    using ne by auto
  show ?thesis
  proof (cases "m_block_index bm (hdr_hashPrevBlock block)")
    case None
    obtain w where w: "GetBlockProof ?new0 = Inr w" "wf_uint w" "le_val w = block_work ?new0"
      using GetBlockProof_work by blast
    define new where "new = ?new0\<lparr>nTimeMax := nTime ?new0, nChainWork := uint_add uint_zero w\<rparr>"
    have n: "pprev new = None" "nHeight new = 0" "pskip new = None" "nTimeMax new = nTime new"
      "phashBlock new = hash" "nStatus new = 0" "nChainWork new = uint_add uint_zero w" "nBits new = nBits ?new0"
      by (simp_all add: new_def new_CBlockIndex_def)
    have "le_val (uint_add uint_zero w) = block_work new"
      using w wf_uint_less [OF w(2)] block_work_cong [OF n(8)] by (simp add: uval_add uval_zero)
    then have "linked ?h new" using n w(2) by (simp add: linked_def)
    moreover have "wf_store (?h(?p \<mapsto> new))"
      by (rule wf_store_extend [OF wf fresh]) (simp add: wf_node_def n)
    moreover have "link_new_index bm block hash = Some (?h(?p \<mapsto> new), new)"
      unfolding link_new_index_def Let_def mbi None using w(1) by (simp add: new_def)
    ultimately show ?thesis using n by blast
  next
    case (Some q)
    then obtain c where c: "?h q = Some c" using inv unfolding bm_inv_def by blast
    then have qp: "q \<noteq> ?p" using fresh by auto
    define new1 where "new1 = ?new0\<lparr>pprev := Some q, nHeight := nHeight c + 1\<rparr>"
    have n1: "pprev new1 = Some q" "nHeight new1 = nHeight c + 1" "pskip new1 = None" "phashBlock new1 = hash"
      "nStatus new1 = 0" by (simp_all add: new1_def new_CBlockIndex_def)
    have "wf_store (?h(?p \<mapsto> new1))"
      using qp c wf_store_height [OF wf c] by (intro wf_store_extend [OF wf fresh]) (simp add: wf_node_def n1)
    then obtain s where s: "BuildSkip (?h(?p \<mapsto> new1)) ?p = Some (?h(?p \<mapsto> new1\<lparr>pskip := s\<rparr>))"
      "wf_store (?h(?p \<mapsto> new1\<lparr>pskip := s\<rparr>))" "s \<noteq> None"
      using BuildSkip_wf [of "?h(?p \<mapsto> new1)" ?p new1] n1 by auto
    let ?new2 = "new1\<lparr>pskip := s\<rparr>"
    obtain w where w: "GetBlockProof ?new2 = Inr w" "wf_uint w" "le_val w = block_work ?new2"
      using GetBlockProof_work by blast
    define new where "new = ?new2\<lparr>nTimeMax := max (nTimeMax c) (nTime ?new2), nChainWork := uint_add (nChainWork c) w\<rparr>"
    have n: "pprev new = Some q" "nHeight new = nHeight ?new2" "pskip new = s" "nTimeMax new = max (nTimeMax c) (nTime new)"
      "phashBlock new = hash" "nStatus new = 0" "nChainWork new = uint_add (nChainWork c) w" "nBits new = nBits ?new2"
      using n1 by (simp_all add: new_def)
    have "wf_uint (nChainWork c)" using inv c by (auto simp: bm_inv_def linked_def)
    then have "linked ?h new" using n w(2,3) c s(3) block_work_cong [OF n(8)] by (simp add: linked_def uval_add)
    moreover have "wf_store ((?h(?p \<mapsto> ?new2))(?p \<mapsto> new))"
      by (rule wf_store_update [OF s(2), of ?p ?new2])
         (use n n1 wf_store_skip [OF s(2), of ?p ?new2] wf_store_height [OF wf c] in auto)
    moreover have "link_new_index bm block hash = Some (?h(?p \<mapsto> new), new)"
      unfolding link_new_index_def Let_def mbi Some using w(1) c qp s(1)
      by (simp add: new1_def [symmetric] new_def)
    ultimately show ?thesis using n by auto
  qed
qed

lemma RaiseValidity_fresh:
  assumes "nStatus b = 0" "u = BLOCK_VALID_TREE"
  shows "RaiseValidity b u = Some (b\<lparr>nStatus := u\<rparr>, True)"
  using assms by (simp add: RaiseValidity_def block_status_defs)


lemma raise_new_index_ok:
  assumes "nStatus b = 0" "status = BLOCK_VALID_TREE \<or> status = BLOCK_CONFLICT_CHAINLOCK"
  shows "\<exists>f. raise_new_index status b = Some (b\<lparr>nStatus := f\<rparr>)"
  using assms(2)
proof
  assume st: "status = BLOCK_VALID_TREE"
  then have "status AND BLOCK_VALID_MASK \<noteq> 0" by (simp add: block_status_defs)
  then show ?thesis using RaiseValidity_fresh [OF assms(1) st] by (auto simp: raise_new_index_def)
next
  assume "status = BLOCK_CONFLICT_CHAINLOCK"
  then have "status AND BLOCK_VALID_MASK = 0" by (simp add: block_status_defs)
  then show ?thesis using RaiseValidity_fresh [OF assms(1) refl] by (auto simp: raise_new_index_def)
qed

lemma update_best_header_ok:
  assumes "\<And>h. best = Some h \<Longrightarrow> st h \<noteq> None" "st p \<noteq> None"
  shows "\<exists>best'. update_best_header status st p new best = Some best' \<and> (\<forall>h. best' = Some h \<longrightarrow> st h \<noteq> None)"
  using assms by (cases best) (auto simp: update_best_header_def)

lemma track_prev_ok: "linked st new \<Longrightarrow> \<exists>m'. track_prev st p new m = Some m'"
  by (auto simp: track_prev_def linked_def split: option.splits)

lemma bm_inv_extend:
  assumes inv: "bm_inv bm" and wf: "wf_store ((heap bm)(next_ptr bm \<mapsto> new))" and lk: "linked (heap bm) new"
    and hash: "phashBlock new = hash"
    and best: "\<And>h. best = Some h \<Longrightarrow> ((heap bm)(next_ptr bm \<mapsto> new)) h \<noteq> None"
  shows "bm_inv (bm\<lparr>heap := (heap bm)(next_ptr bm \<mapsto> new), next_ptr := next_ptr bm + 1,
      m_block_index := (m_block_index bm)(hash \<mapsto> next_ptr bm), m_dirty_blockindex := d,
      m_prev_block_index := mp, pindexBestHeader := best\<rparr>)"
proof -
  let ?p = "next_ptr bm" and ?h = "heap bm"
  have fresh: "?h ?p = None" using inv by (simp add: bm_inv_def)
  have "linked (?h(?p \<mapsto> new)) b" if "(?h(?p \<mapsto> new)) q = Some b" for q b
    using inv that fresh lk linked_extend [of ?h b ?p new] unfolding bm_inv_def by (cases "q = ?p") auto
  moreover have "m_block_index bm h \<noteq> Some ?p" for h
    using inv fresh unfolding bm_inv_def by (metis option.distinct(1))
  ultimately show ?thesis using inv wf hash best unfolding bm_inv_def by (simp add: Suc_le_eq)
qed

lemma AddToBlockIndex_ok:
  assumes inv: "bm_inv bm" and ne: "GetHash block \<noteq> hdr_hashPrevBlock block"
    and status: "status = BLOCK_VALID_TREE \<or> status = BLOCK_CONFLICT_CHAINLOCK"
  shows "\<exists>bm' p. AddToBlockIndex GetHash block status bm = Some (bm', p) \<and> bm_inv bm' \<and>
     m_block_index bm' (GetHash block) = Some p \<and> (\<forall>q b. heap bm q = Some b \<longrightarrow> heap bm' q = Some b)"
proof (cases "m_block_index bm (GetHash block)")
  case (Some p)
  moreover have "status AND BLOCK_FAILED_MASK = 0" using status by (auto simp: block_status_defs)
  ultimately show ?thesis using inv by (simp add: AddToBlockIndex_def)
next
  case None
  let ?p = "next_ptr bm" and ?h = "heap bm" and ?hash = "GetHash block"
  have fm: "status AND BLOCK_FAILED_MASK = 0" using status by (auto simp: block_status_defs)
  have fresh: "?h ?p = None" using inv by (simp add: bm_inv_def)
  obtain new1 where new1: "link_new_index bm block ?hash = Some (?h(?p \<mapsto> new1), new1)"
    "wf_store (?h(?p \<mapsto> new1))" "linked ?h new1" "phashBlock new1 = ?hash" "nStatus new1 = 0"
    using link_new_index_ok [OF inv ne] by blast
  obtain f where f: "raise_new_index status new1 = Some (new1\<lparr>nStatus := f\<rparr>)"
    using raise_new_index_ok [OF new1(5) status] by blast
  define new where "new = new1\<lparr>nStatus := f\<rparr>"
  have lk: "linked ?h new" using new1(3) by (auto simp: new_def linked_def block_work_def split: option.splits)
  have "wf_store ((?h(?p \<mapsto> new1))(?p \<mapsto> new))"
    by (rule wf_store_update [OF new1(2), of ?p new1])
       (use wf_storeD [OF new1(2), of ?p new1] in \<open>auto simp: wf_node_def new_def\<close>)
  then have wf: "wf_store (?h(?p \<mapsto> new))" by simp
  have "(?h(?p \<mapsto> new1)) h \<noteq> None" if "pindexBestHeader bm = Some h" for h
    using inv that unfolding bm_inv_def by auto
  then obtain best where best: "update_best_header status (?h(?p \<mapsto> new1)) ?p new (pindexBestHeader bm) = Some best"
    "\<forall>h. best = Some h \<longrightarrow> (?h(?p \<mapsto> new1)) h \<noteq> None"
    using update_best_header_ok [of "pindexBestHeader bm" "?h(?p \<mapsto> new1)" ?p status new] by auto
  obtain mp where mp: "track_prev (?h(?p \<mapsto> new1)) ?p new (m_prev_block_index bm) = Some mp"
    using track_prev_ok [OF linked_extend [OF lk fresh]] by blast
  have "AddToBlockIndex GetHash block status bm = Some (bm\<lparr>heap := ?h(?p \<mapsto> new), next_ptr := ?p + 1,
      m_block_index := (m_block_index bm)(?hash \<mapsto> ?p), m_dirty_blockindex := insert ?p (m_dirty_blockindex bm),
      m_prev_block_index := mp, pindexBestHeader := best\<rparr>, ?p)"
    using fm None new1(1) f best(1) mp by (simp add: AddToBlockIndex_def Let_def new_def)
  moreover have "phashBlock new = ?hash" by (simp add: new_def new1(4))
  then have "bm_inv (bm\<lparr>heap := ?h(?p \<mapsto> new), next_ptr := ?p + 1,
      m_block_index := (m_block_index bm)(?hash \<mapsto> ?p), m_dirty_blockindex := insert ?p (m_dirty_blockindex bm),
      m_prev_block_index := mp, pindexBestHeader := best\<rparr>)"
    by (rule bm_inv_extend [OF inv wf lk]) (use best(2) in auto)
  ultimately show ?thesis using fresh by auto
qed

text \<open>The managers the node can reach: blocks are added one after the other.\<close>

inductive bm_reachable :: "(CBlockHeader \<Rightarrow> uint256) \<Rightarrow> BlockManager \<Rightarrow> bool" for GetHash where
  init: "bm_reachable GetHash BlockManager_init"
| add: "bm_reachable GetHash bm \<Longrightarrow> GetHash block \<noteq> hdr_hashPrevBlock block \<Longrightarrow>
        status = BLOCK_VALID_TREE \<or> status = BLOCK_CONFLICT_CHAINLOCK \<Longrightarrow>
        AddToBlockIndex GetHash block status bm = Some (bm', p) \<Longrightarrow> bm_reachable GetHash bm'"

lemma bm_reachable_inv: "bm_reachable GetHash bm \<Longrightarrow> bm_inv bm"
proof (induction rule: bm_reachable.induct)
  case init
  then show ?case by (simp add: BlockManager_init_def bm_inv_def wf_store_def)
next
  case (add bm block status bm' p)
  then show ?case using AddToBlockIndex_ok [of bm GetHash block status] by auto
qed

text \<open>The median of the last times is one of them, and no later than the recorded maximum.\<close>

lemma linked_times:
  assumes "linked st b"
  shows "uint (nTime b) \<le> uint (nTimeMax b)"
    and "pprev b = Some q \<Longrightarrow> \<exists>c. st q = Some c \<and> uint (nTimeMax c) \<le> uint (nTimeMax b)"
  using assms by (auto simp: linked_def max_def word_le_def split: option.splits)

lemma median_times_ok:
  assumes lk: "\<And>p b. st p = Some b \<Longrightarrow> linked st b"
    and "\<And>q. p = Some q \<Longrightarrow> \<exists>b. st q = Some b \<and> uint (nTimeMax b) \<le> m" "\<forall>t \<in> set acc. t \<le> m"
  shows "\<exists>ts. median_times st n p acc = Some ts \<and> (\<forall>t \<in> set ts. t \<le> m) \<and> length acc \<le> length ts
     \<and> (0 < n \<longrightarrow> p \<noteq> None \<longrightarrow> ts \<noteq> [])"
  using assms(2,3)
proof (induction n arbitrary: p acc)
  case 0
  then show ?case by (cases p) auto
next
  case (Suc n)
  show ?case
  proof (cases p)
    case (Some q)
    then obtain b where b: "st q = Some b" "uint (nTimeMax b) \<le> m" using Suc(2) by blast
    note l = linked_times [OF lk [OF b(1)]]
    have "\<exists>c. st r = Some c \<and> uint (nTimeMax c) \<le> m" if "pprev b = Some r" for r
      using l(2) [OF that] b(2) by auto
    moreover have "\<forall>t \<in> set (uint (nTime b) # acc). t \<le> m" using Suc(3) l(1) b(2) by auto
    ultimately obtain ts where "median_times st n (pprev b) (uint (nTime b) # acc) = Some ts"
      "\<forall>t \<in> set ts. t \<le> m" "length (uint (nTime b) # acc) \<le> length ts"
      using Suc(1) [of "pprev b" "uint (nTime b) # acc"] by blast
    then show ?thesis using Some b by auto
  qed (use Suc in auto)
qed

lemma GetMedianTimePast_ok:
  assumes "\<And>p b. st p = Some b \<Longrightarrow> linked st b" "st p = Some b"
  shows "\<exists>t. GetMedianTimePast st p = Some t \<and> t \<le> uint (nTimeMax b)"
proof -
  obtain ts where ts: "median_times st nMedianTimeSpan (Some p) [] = Some ts" "\<forall>t \<in> set ts. t \<le> uint (nTimeMax b)" "ts \<noteq> []"
    using median_times_ok [of st "Some p" "uint (nTimeMax b)" "[]" nMedianTimeSpan] assms by (auto simp: nMedianTimeSpan_def)
  have "sort ts ! (length ts div 2) \<in> set (sort ts)" using ts(3) by (intro nth_mem) simp
  then show ?thesis using ts by (simp add: GetMedianTimePast_def)
qed

section \<open>Properties\<close>

text \<open>
  C14: On every block index the node can build, the skip list is an optimisation only: \<open>GetAncestor\<close>
  always returns, without hitting its assertion, the block that is reached by following \<open>pprev\<close> down to
  the requested height, and the null pointer for a height that is negative or above the block.
\<close>

theorem GetAncestor_is_walk_back:
  assumes "bm_reachable GetHash bm" "heap bm p = Some b"
  shows "GetAncestor (heap bm) p h =
    Some (if h < 0 \<or> nHeight b < h then None else walk_back (heap bm) (nat (nHeight b - h)) p)"
  using GetAncestor_walk_back bm_reachable_inv [OF assms(1)] assms(2) by (auto simp: bm_inv_def)

definition example_hash :: "CBlockHeader \<Rightarrow> uint256" where
  "example_hash block = WriteLE32 (hdr_nNonce block)"

definition example_genesis :: CBlockHeader where
  "example_genesis = \<lparr>hdr_nVersion = 1, hdr_hashPrevBlock = null_hash, hdr_hashMerkleRoot = null_hash,
                      hdr_nTime = 1, hdr_nBits = 0x207fffff, hdr_nNonce = 0\<rparr>"

lemma example_reachable:
  "\<exists>bm p b. bm_reachable example_hash bm \<and> heap bm p = Some b \<and> phashBlock b = WriteLE32 0"
proof -
  have ne: "example_hash example_genesis \<noteq> hdr_hashPrevBlock example_genesis"
    by (auto simp: example_hash_def example_genesis_def null_hash_def dest: arg_cong [where f = length])
  obtain bm p where bm: "AddToBlockIndex example_hash example_genesis BLOCK_VALID_TREE BlockManager_init = Some (bm, p)"
    "bm_inv bm" "m_block_index bm (example_hash example_genesis) = Some p"
    using AddToBlockIndex_ok [of BlockManager_init example_hash example_genesis BLOCK_VALID_TREE]
      bm_reachable_inv [OF bm_reachable.init] ne by blast
  then have "bm_reachable example_hash bm" using ne bm_reachable.init [of example_hash]
      bm_reachable.add [of example_hash BlockManager_init example_genesis BLOCK_VALID_TREE bm p] by blast
  moreover obtain b where "heap bm p = Some b" "phashBlock b = example_hash example_genesis"
    using bm(2,3) unfolding bm_inv_def by blast
  ultimately show ?thesis by (auto simp: example_hash_def example_genesis_def)
qed

theorem GetAncestor_is_walk_back_witness:
  "\<exists>bm p b. bm_reachable example_hash bm \<and> heap bm p = Some b \<and>
     GetAncestor (heap bm) p 0 = Some (if nHeight b < 0 then None else walk_back (heap bm) (nat (nHeight b)) p)"
  using example_reachable GetAncestor_is_walk_back [where h = 0] by fastforce



text \<open>
  The work of a block is \<open>2 ^ 256 / (target + 1)\<close>, although that dividend does not fit in 256 bits, and
  zero for a target that is zero, negative or too large; computing it never divides by zero.
\<close>

theorem GetBlockProof_is_work:
  "\<exists>w. GetBlockProof b = Inr w \<and> wf_uint w \<and>
     le_val w = (let t = compact_num (nBits b)
                 in if t = 0 \<or> bit (nBits b) 23 \<or> 2 ^ 256 \<le> t then 0 else 2 ^ 256 div (t + 1))"
  using GetBlockProof_work [of b] unfolding block_work_def .

end
