(* ===== verification/ActiveChain.thy ===== *)
theory ActiveChain
  imports BlockIndex
begin

text \<open>
  The in-memory chain \<open>CChain\<close> of \<^verbatim>\<open>src/src/chain.h\<close> and \<^verbatim>\<open>chain.cpp\<close>: a vector of pointers into the
  block index, one per height.  \<open>SetTip\<close> re-links it to a new tip, \<open>FindFork\<close> and \<open>LastCommonAncestor\<close>
  find where branches meet, \<open>GetLocator\<close> picks the hashes that describe a branch to a peer,
  \<open>FindEarliestAtLeast\<close> searches it by time.  As in \<open>BlockIndex\<close>, \<open>None\<close> is an invalid dereference, a failed
  assertion or a loop that does not return, and \<open>Some None\<close> the null pointer.
\<close>

section \<open>Operations\<close>

text \<open>\<open>std::vector<CBlockIndex*> vChain\<close>.\<close>

type_synonym CChain = "ptr option list"

definition Genesis :: "CChain \<Rightarrow> ptr option" where
  "Genesis vChain = (if length vChain > 0 then vChain ! 0 else None)"

definition Tip :: "CChain \<Rightarrow> ptr option" where
  "Tip vChain = (if length vChain > 0 then vChain ! (length vChain - 1) else None)"

definition chain_at :: "CChain \<Rightarrow> int \<Rightarrow> ptr option" where
  "chain_at vChain height = (if height < 0 \<or> height \<ge> int (length vChain) then None else vChain ! nat height)"

definition Contains :: "index_store \<Rightarrow> CChain \<Rightarrow> ptr \<Rightarrow> bool option" where
  "Contains st vChain p = (case st p of None \<Rightarrow> None | Some b \<Rightarrow> Some (chain_at vChain (nHeight b) = Some p))"

definition Next :: "index_store \<Rightarrow> CChain \<Rightarrow> ptr \<Rightarrow> ptr option option" where
  "Next st vChain p =
     (case st p of
        None \<Rightarrow> None
      | Some b \<Rightarrow> Some (if chain_at vChain (nHeight b) = Some p then chain_at vChain (nHeight b + 1) else None))"

definition Height :: "CChain \<Rightarrow> int" where
  "Height vChain = int (length vChain) - 1"

definition resize_vec :: "nat \<Rightarrow> CChain \<Rightarrow> CChain" where
  "resize_vec n v = take n v @ replicate (n - length v) None"

text \<open>The loop of \<open>SetTip\<close>.  An access outside the vector is undefined in the code.\<close>

partial_function (option) set_tip_loop :: "index_store \<Rightarrow> CChain \<Rightarrow> ptr option \<Rightarrow> CChain option" where
  [code]: "set_tip_loop st vChain pindex =
     (case pindex of
        None \<Rightarrow> Some vChain
      | Some p \<Rightarrow>
          (case st p of
             None \<Rightarrow> None
           | Some b \<Rightarrow>
               if nHeight b < 0 \<or> nHeight b \<ge> int (length vChain) then None
               else if vChain ! nat (nHeight b) \<noteq> Some p
               then set_tip_loop st (vChain[nat (nHeight b) := Some p]) (pprev b)
               else Some vChain))"

definition SetTip :: "index_store \<Rightarrow> CChain \<Rightarrow> ptr option \<Rightarrow> CChain option" where
  "SetTip st vChain pindex =
     (case pindex of
        None \<Rightarrow> Some []
      | Some p \<Rightarrow>
          (case st p of
             None \<Rightarrow> None
           | Some b \<Rightarrow> set_tip_loop st (resize_vec (nat (nHeight b + 1)) vChain) (Some p)))"

text \<open>\<open>FindFork\<close>.\<close>

partial_function (option) find_fork_loop :: "index_store \<Rightarrow> CChain \<Rightarrow> ptr option \<Rightarrow> ptr option option" where
  [code]: "find_fork_loop st vChain pindex =
     (case pindex of
        None \<Rightarrow> Some None
      | Some p \<Rightarrow>
          (case st p of
             None \<Rightarrow> None
           | Some b \<Rightarrow> if chain_at vChain (nHeight b) = Some p then Some (Some p)
                       else find_fork_loop st vChain (pprev b)))"

definition FindFork :: "index_store \<Rightarrow> CChain \<Rightarrow> ptr option \<Rightarrow> ptr option option" where
  "FindFork st vChain pindex =
     (case pindex of
        None \<Rightarrow> Some None
      | Some p \<Rightarrow>
          (case st p of
             None \<Rightarrow> None
           | Some b \<Rightarrow>
               if nHeight b > Height vChain
               then (case GetAncestor st p (Height vChain) of
                       None \<Rightarrow> None
                     | Some q \<Rightarrow> find_fork_loop st vChain q)
               else find_fork_loop st vChain (Some p)))"

text \<open>\<open>LastCommonAncestor\<close>: both pointers are non-null.\<close>

partial_function (option) common_ancestor_loop ::
  "index_store \<Rightarrow> ptr option \<Rightarrow> ptr option \<Rightarrow> (ptr option \<times> ptr option) option" where
  [code]: "common_ancestor_loop st pa pb =
     (if pa \<noteq> pb \<and> pa \<noteq> None \<and> pb \<noteq> None
      then (case st (the pa) of
              None \<Rightarrow> None
            | Some a \<Rightarrow> (case st (the pb) of
                           None \<Rightarrow> None
                         | Some b \<Rightarrow> common_ancestor_loop st (pprev a) (pprev b)))
      else Some (pa, pb))"

definition LastCommonAncestor :: "index_store \<Rightarrow> ptr \<Rightarrow> ptr \<Rightarrow> ptr option option" where
  "LastCommonAncestor st pa pb =
     (case st pa of
        None \<Rightarrow> None
      | Some a \<Rightarrow>
          (case st pb of
             None \<Rightarrow> None
           | Some b \<Rightarrow>
               (case (if nHeight a > nHeight b then GetAncestor st pa (nHeight b) else Some (Some pa)) of
                  None \<Rightarrow> None
                | Some qa \<Rightarrow>
                    (case (if nHeight b > nHeight a then GetAncestor st pb (nHeight a) else Some (Some pb)) of
                       None \<Rightarrow> None
                     | Some qb \<Rightarrow>
                         (case common_ancestor_loop st qa qb of
                            None \<Rightarrow> None
                          | Some (ra, rb) \<Rightarrow> if ra = rb then Some ra else None)))))"

text \<open>\<open>GetLocator\<close>: hashes at exponentially growing distances, ending with the genesis block.\<close>

partial_function (option) locator_loop ::
  "index_store \<Rightarrow> CChain \<Rightarrow> ptr option \<Rightarrow> int \<Rightarrow> uint256 list \<Rightarrow> uint256 list option" where
  [code]: "locator_loop st vChain pindex nStep vHave =
     (case pindex of
        None \<Rightarrow> Some vHave
      | Some p \<Rightarrow>
          (case st p of
             None \<Rightarrow> None
           | Some b \<Rightarrow>
               (let vHave' = vHave @ [phashBlock b]
                in if nHeight b = 0 then Some vHave'
                   else let height = max (nHeight b - nStep) 0;
                            nStep' = (if length vHave' > 10 then nStep * 2 else nStep)
                        in if chain_at vChain (nHeight b) = Some p
                           then locator_loop st vChain (chain_at vChain height) nStep' vHave'
                           else (case GetAncestor st p height of
                                   None \<Rightarrow> None
                                 | Some q \<Rightarrow> locator_loop st vChain q nStep' vHave'))))"

definition GetLocator :: "index_store \<Rightarrow> CChain \<Rightarrow> ptr option \<Rightarrow> uint256 list option" where
  "GetLocator st vChain pindex =
     locator_loop st vChain (if pindex = None then Tip vChain else pindex) 1 []"

text \<open>
  \<open>FindEarliestAtLeast\<close>: \<open>std::lower_bound\<close> halves the range \<open>[first, first + len)\<close> until it is empty;
  \<open>less i\<close> is the comparison of the element at \<open>i\<close> with the key.
\<close>

function lower_bound_loop :: "(nat \<Rightarrow> bool) \<Rightarrow> nat \<Rightarrow> nat \<Rightarrow> nat" where
  "lower_bound_loop less_key first len =
     (if len = 0 then first
      else let half = len div 2
           in if less_key (first + half) then lower_bound_loop less_key (first + half + 1) (len - half - 1)
              else lower_bound_loop less_key first half)"
  by auto
termination by (relation "measure (\<lambda>(_, _, len). len)") (auto simp: Let_def)

declare lower_bound_loop.simps [simp del]

definition FindEarliestAtLeast :: "index_store \<Rightarrow> CChain \<Rightarrow> int \<Rightarrow> int \<Rightarrow> ptr option" where
  "FindEarliestAtLeast st vChain time height =
     (let before = (\<lambda>i. case vChain ! i of
                          None \<Rightarrow> False
                        | Some p \<Rightarrow> (case st p of None \<Rightarrow> False
                                     | Some b \<Rightarrow> uint (nTimeMax b) < time \<or> nHeight b < height));
          lower = lower_bound_loop before 0 (length vChain)
      in if lower = length vChain then None else vChain ! lower)"

section \<open>Re-linking the chain\<close>

text \<open>A well-formed chain: each height holds the predecessor of the entry above it.\<close>

definition entry_ok :: "index_store \<Rightarrow> CChain \<Rightarrow> nat \<Rightarrow> bool" where
  "entry_ok st v i \<longleftrightarrow>
     (case v ! i of
        None \<Rightarrow> False
      | Some p \<Rightarrow> (case st p of
                     None \<Rightarrow> False
                   | Some b \<Rightarrow> nHeight b = int i \<and> (0 < i \<longrightarrow> pprev b = v ! (i - 1))))"

definition chain_ok :: "index_store \<Rightarrow> CChain \<Rightarrow> bool" where
  "chain_ok st v \<longleftrightarrow> (\<forall>i < length v. entry_ok st v i)"

lemma set_tip_loop_ok:
  assumes wf: "wf_store st" and c: "st q = Some c" and k: "nat (nHeight c) < length v"
    and low: "\<And>i. i \<le> nat (nHeight c) \<Longrightarrow> v ! i \<noteq> None \<Longrightarrow> \<forall>j \<le> i. entry_ok st v j"
    and high: "\<And>i. nat (nHeight c) < i \<Longrightarrow> i < length v \<Longrightarrow>
       \<exists>p b. v ! i = Some p \<and> st p = Some b \<and> nHeight b = int i \<and>
             pprev b = (if i = nat (nHeight c) + 1 then Some q else v ! (i - 1))"
  shows "\<exists>v'. set_tip_loop st v (Some q) = Some v' \<and> length v' = length v \<and> chain_ok st v' \<and>
             v' ! nat (nHeight c) = Some q \<and> (\<forall>i. nat (nHeight c) < i \<longrightarrow> i < length v \<longrightarrow> v' ! i = v ! i)"
  using c k low high
proof (induction "nat (nHeight c)" arbitrary: q c v rule: less_induct)
  case less
  let ?k = "nat (nHeight c)"
  have h0: "0 \<le> nHeight c" by (rule wf_store_height [OF wf less(2)])
  show ?case
  proof (cases "v ! ?k = Some q")
    case True
    have "entry_ok st v i" if "i < length v" for i
    proof (cases "i \<le> ?k")
      case T: True
      then show ?thesis using less(4) [of ?k] True by auto
    next
      case False
      then show ?thesis using less(5) [of i] that True by (auto simp: entry_ok_def)
    qed
    then have "chain_ok st v" by (simp add: chain_ok_def)
    moreover have "set_tip_loop st v (Some q) = Some v"
      using True less(2,3) h0 by (subst set_tip_loop.simps) simp
    ultimately show ?thesis using True by blast
  next
    case False
    let ?v = "v[?k := Some q]"
    have step: "set_tip_loop st v (Some q) = set_tip_loop st ?v (pprev c)"
      using False less(2,3) h0 by (subst set_tip_loop.simps) auto
    show ?thesis
    proof (cases "pprev c")
      case None
      then have k0: "?k = 0" using wf_storeD [OF wf less(2)] by (simp add: wf_node_def)
      have "entry_ok st ?v i" if "i < length ?v" for i
        using less(2,3) less(5) [of i] that k0 h0
        by (cases "i = 0") (auto simp: entry_ok_def nth_list_update)
      then have "chain_ok st ?v" by (simp add: chain_ok_def)
      moreover have "set_tip_loop st ?v (pprev c) = Some ?v" using None by (subst set_tip_loop.simps) simp
      ultimately show ?thesis using step less(3) by auto
    next
      case (Some r)
      then obtain d where d: "st r = Some d" "nHeight c = nHeight d + 1"
        using wf_store_prev_height [OF wf less(2)] by blast
      have d0: "0 \<le> nHeight d" by (rule wf_store_height [OF wf d(1)])
      then have kd: "?k = nat (nHeight d) + 1" using d(2) by simp
      have eo: "entry_ok st ?v j = entry_ok st v j" if "j < ?k" for j
        using that by (auto simp: entry_ok_def nth_list_update split: option.splits)
      have "\<exists>v'. set_tip_loop st ?v (Some r) = Some v' \<and> length v' = length ?v \<and> chain_ok st v' \<and>
             v' ! nat (nHeight d) = Some r \<and> (\<forall>i. nat (nHeight d) < i \<longrightarrow> i < length ?v \<longrightarrow> v' ! i = ?v ! i)"
      proof (rule less(1) [OF _ d(1)])
        show "nat (nHeight d) < ?k" "nat (nHeight d) < length ?v" using kd less(3) by auto
        fix i
        assume i: "i \<le> nat (nHeight d)" "?v ! i \<noteq> None"
        then have "v ! i \<noteq> None" using kd by (simp add: nth_list_update split: if_splits)
        then have "\<forall>j \<le> i. entry_ok st v j" using less(4) [of i] i kd by simp
        then show "\<forall>j \<le> i. entry_ok st ?v j" using eo i kd by simp
      next
        fix i
        assume i: "nat (nHeight d) < i" "i < length ?v"
        show "\<exists>p b. ?v ! i = Some p \<and> st p = Some b \<and> nHeight b = int i \<and>
             pprev b = (if i = nat (nHeight d) + 1 then Some r else ?v ! (i - 1))"
        proof (cases "i = ?k")
          case True
          then show ?thesis using less(2,3) Some kd h0 by auto
        next
          case F: False
          then show ?thesis using less(5) [of i] i kd by (auto simp: nth_list_update)
        qed
      qed
      then show ?thesis using step Some less(3) kd by auto
    qed
  qed
qed

lemma SetTip_ok:
  assumes wf: "wf_store st" and v: "chain_ok st v" and p: "st p = Some b"
  shows "\<exists>v'. SetTip st v (Some p) = Some v' \<and> chain_ok st v' \<and> int (length v') = nHeight b + 1 \<and> Tip v' = Some p"
proof -
  let ?n = "nat (nHeight b)" and ?w = "resize_vec (nat (nHeight b + 1)) v"
  have h0: "0 \<le> nHeight b" by (rule wf_store_height [OF wf p])
  have len: "length ?w = ?n + 1" using h0 by (simp add: resize_vec_def)
  have nth: "?w ! i = (if i < length v then v ! i else None)" if "i \<le> ?n" for i
    using that h0 by (auto simp: resize_vec_def nth_append)
  have "\<forall>j \<le> i. entry_ok st ?w j" if "i \<le> ?n" "?w ! i \<noteq> None" for i
  proof (intro allI impI)
    fix j assume "j \<le> i"
    moreover have "i < length v" using that nth [of i] by (auto split: if_splits)
    ultimately have "entry_ok st v j" "?w ! j = v ! j" "?w ! (j - 1) = v ! (j - 1)"
      using v nth [of j] nth [of "j - 1"] that by (auto simp: chain_ok_def)
    then show "entry_ok st ?w j" by (auto simp: entry_ok_def split: option.splits)
  qed
  then obtain v' where "set_tip_loop st ?w (Some p) = Some v'" "length v' = ?n + 1" "chain_ok st v'" "v' ! ?n = Some p"
    using set_tip_loop_ok [OF wf p, of ?w] len by auto
  then show ?thesis using p h0 by (auto simp: SetTip_def Tip_def)
qed

section \<open>Where branches meet\<close>

definition is_ancestor :: "index_store \<Rightarrow> ptr \<Rightarrow> ptr \<Rightarrow> bool" where
  "is_ancestor st q p \<longleftrightarrow> (\<exists>n. walk_back st n p = Some q)"

definition on_chain :: "index_store \<Rightarrow> CChain \<Rightarrow> ptr \<Rightarrow> bool" where
  "on_chain st v p \<longleftrightarrow> (\<exists>b. st p = Some b \<and> chain_at v (nHeight b) = Some p)"

lemma is_ancestor_refl [simp]: "is_ancestor st p p"
  unfolding is_ancestor_def by (rule exI [of _ 0]) simp

lemma is_ancestor_step:
  assumes "st p = Some b"
  shows "is_ancestor st q p \<longleftrightarrow> q = p \<or> (\<exists>r. pprev b = Some r \<and> is_ancestor st q r)"
proof
  assume "is_ancestor st q p"
  then obtain n where "walk_back st n p = Some q" by (auto simp: is_ancestor_def)
  then show "q = p \<or> (\<exists>r. pprev b = Some r \<and> is_ancestor st q r)"
    using assms by (cases n) (auto simp: is_ancestor_def split: option.splits)
next
  assume "q = p \<or> (\<exists>r. pprev b = Some r \<and> is_ancestor st q r)"
  then show "is_ancestor st q p"
  proof
    assume "\<exists>r. pprev b = Some r \<and> is_ancestor st q r"
    then obtain r n where "pprev b = Some r" "walk_back st n r = Some q" by (auto simp: is_ancestor_def)
    then have "walk_back st (Suc n) p = Some q" using assms by simp
    then show ?thesis unfolding is_ancestor_def by blast
  qed simp
qed

lemma is_ancestor_height:
  assumes "wf_store st" "st p = Some b" "is_ancestor st q p"
  shows "\<exists>c. st q = Some c \<and> nHeight c \<le> nHeight b"
proof -
  obtain n where n: "walk_back st n p = Some q" using assms(3) by (auto simp: is_ancestor_def)
  show ?thesis using n assms(2)
  proof (induction n arbitrary: p b)
    case (Suc n)
    then obtain r where r: "pprev b = Some r" "walk_back st n r = Some q" by (auto split: option.splits)
    then obtain c where "st r = Some c" "nHeight b = nHeight c + 1"
      using wf_store_prev_height [OF assms(1) Suc(3)] by blast
    then show ?case using Suc(1) [OF r(2)] by fastforce
  qed auto
qed

text \<open>The result of a search for the last block of a branch that satisfies \<open>P\<close>.\<close>

definition last_ancestor_with :: "index_store \<Rightarrow> (ptr \<Rightarrow> bool) \<Rightarrow> ptr \<Rightarrow> ptr option \<Rightarrow> bool" where
  "last_ancestor_with st P p r \<longleftrightarrow>
     (case r of
        None \<Rightarrow> \<forall>q. is_ancestor st q p \<longrightarrow> \<not> P q
      | Some q \<Rightarrow> is_ancestor st q p \<and> P q \<and> (\<forall>q'. is_ancestor st q' p \<longrightarrow> P q' \<longrightarrow> is_ancestor st q' q))"

lemma last_ancestor_here: "P p \<Longrightarrow> last_ancestor_with st P p (Some p)"
  by (simp add: last_ancestor_with_def)

lemma last_ancestor_step:
  assumes "st p = Some b" "pprev b = Some q" "\<not> P p" "last_ancestor_with st P q r"
  shows "last_ancestor_with st P p r"
  using assms is_ancestor_step [of st p b] by (auto simp: last_ancestor_with_def split: option.splits)

lemma last_ancestor_stop:
  assumes "st p = Some b" "pprev b = None" "\<not> P p"
  shows "last_ancestor_with st P p None"
  using assms is_ancestor_step [of st p b] by (auto simp: last_ancestor_with_def)

lemma last_ancestor_walk:
  assumes "walk_back st n p = Some q" "\<And>i r. i < n \<Longrightarrow> walk_back st i p = Some r \<Longrightarrow> \<not> P r"
    and "last_ancestor_with st P q r"
  shows "last_ancestor_with st P p r"
  using assms
proof (induction n arbitrary: p)
  case (Suc n)
  then obtain b s where b: "st p = Some b" "pprev b = Some s" "walk_back st n s = Some q"
    by (auto split: option.splits)
  have "\<not> P p" using Suc(3) [of 0 p] by simp
  moreover have "last_ancestor_with st P s r"
  proof (rule Suc(1) [OF b(3) _ Suc(4)])
    fix i r assume "i < n" "walk_back st i s = Some r"
    then show "\<not> P r" using Suc(3) [of "Suc i" r] b by simp
  qed
  ultimately show ?case using b last_ancestor_step by blast
qed simp

lemma find_fork_loop_ok:
  assumes wf: "wf_store st" and p: "st p = Some b"
  shows "\<exists>r. find_fork_loop st v (Some p) = Some r \<and> last_ancestor_with st (on_chain st v) p r"
  using p
proof (induction "nat (nHeight b)" arbitrary: p b rule: less_induct)
  case less
  show ?case
  proof (cases "chain_at v (nHeight b) = Some p")
    case True
    then have "find_fork_loop st v (Some p) = Some (Some p)" using less(2) by (subst find_fork_loop.simps) simp
    then show ?thesis using True less(2) last_ancestor_here [of "on_chain st v" p st] by (auto simp: on_chain_def)
  next
    case False
    then have np: "\<not> on_chain st v p" using less(2) by (simp add: on_chain_def)
    have step: "find_fork_loop st v (Some p) = find_fork_loop st v (pprev b)"
      using False less(2) by (subst find_fork_loop.simps) simp
    show ?thesis
    proof (cases "pprev b")
      case None
      then have "find_fork_loop st v (pprev b) = Some None" by (subst find_fork_loop.simps) simp
      then show ?thesis using step last_ancestor_stop [of st p b "on_chain st v"] less(2) None np by simp
    next
      case (Some q)
      then obtain c where c: "st q = Some c" "nHeight b = nHeight c + 1"
        using wf_store_prev_height [OF wf less(2)] by blast
      then have "nat (nHeight c) < nat (nHeight b)" using wf_store_height [OF wf c(1)] by simp
      from less(1) [OF this c(1)] show ?thesis
        using step Some last_ancestor_step [of st p b q "on_chain st v"] less(2) np by auto
    qed
  qed
qed

lemma FindFork_ok:
  assumes wf: "wf_store st" and v: "chain_ok st v" and p: "st p = Some b"
  shows "\<exists>r. FindFork st v (Some p) = Some r \<and> last_ancestor_with st (on_chain st v) p r"
proof (cases "nHeight b > Height v")
  case False
  then show ?thesis using find_fork_loop_ok [OF wf p] p by (simp add: FindFork_def)
next
  case True
  have high: "\<not> on_chain st v q" if w: "walk_back st i p = Some q" "int i < nHeight b - Height v" for i q
  proof -
    have "Height v \<ge> - 1" by (simp add: Height_def)
    then have "int i \<le> nHeight b" using w(2) by linarith
    then obtain c where "st q = Some c" "nHeight c = nHeight b - int i"
      using walk_back_height [OF wf p, of i] w by auto
    then show ?thesis using w by (auto simp: on_chain_def chain_at_def Height_def)
  qed
  show ?thesis
  proof (cases "Height v < 0")
    case T: True
    then have "v = []" by (simp add: Height_def)
    then have "\<not> on_chain st v q" for q by (auto simp: on_chain_def chain_at_def)
    then have "last_ancestor_with st (on_chain st v) p None" by (simp add: last_ancestor_with_def)
    moreover have "find_fork_loop st v None = Some None" by (subst find_fork_loop.simps) simp
    ultimately show ?thesis using True T p GetAncestor_walk_back [OF wf p, of "Height v"] by (simp add: FindFork_def)
  next
    case F: False
    let ?n = "nat (nHeight b - Height v)"
    obtain q c where q: "walk_back st ?n p = Some q" "st q = Some c"
      using walk_back_height [OF wf p, of ?n] True F by auto
    have "GetAncestor st p (Height v) = Some (Some q)"
      using GetAncestor_walk_back [OF wf p, of "Height v"] True F q by simp
    moreover obtain r where "find_fork_loop st v (Some q) = Some r" "last_ancestor_with st (on_chain st v) q r"
      using find_fork_loop_ok [OF wf q(2)] by blast
    ultimately show ?thesis
      using last_ancestor_walk [OF q(1), of "on_chain st v" r] high True p by (auto simp: FindFork_def)
  qed
qed

lemma last_ancestor_cong:
  assumes "\<And>q. is_ancestor st q p \<Longrightarrow> P q = P' q" "last_ancestor_with st P p r"
  shows "last_ancestor_with st P' p r"
  using assms by (auto simp: last_ancestor_with_def split: option.splits)

lemma is_ancestor_below:
  assumes wf: "wf_store st" and p: "st p = Some b" and w: "walk_back st n p = Some r" "st r = Some c"
    and q: "st q = Some d" "nHeight d \<le> nHeight c" and n: "int n \<le> nHeight b"
  shows "is_ancestor st q p \<longleftrightarrow> is_ancestor st q r"
proof
  assume "is_ancestor st q p"
  then obtain m where m: "walk_back st m p = Some q" by (auto simp: is_ancestor_def)
  have hc: "nHeight c = nHeight b - int n" using walk_back_height [OF wf p n] w by auto
  show "is_ancestor st q r"
  proof (cases "n \<le> m")
    case True
    then have "walk_back st (n + (m - n)) p = Some q" using m by simp
    then show ?thesis using w(1) unfolding walk_back_add is_ancestor_def by auto
  next
    case False
    then have "nHeight d = nHeight b - int m" using walk_back_height [OF wf p, of m] m q n by auto
    then show ?thesis using q(2) hc False by simp
  qed
next
  assume "is_ancestor st q r"
  then obtain m where "walk_back st m r = Some q" by (auto simp: is_ancestor_def)
  then have "walk_back st (n + m) p = Some q" using w(1) by (simp add: walk_back_add)
  then show "is_ancestor st q p" unfolding is_ancestor_def by blast
qed

lemma is_ancestor_same_height:
  assumes wf: "wf_store st" and "st p = Some b" "st q = Some c" "nHeight b = nHeight c"
  shows "is_ancestor st q p \<longleftrightarrow> q = p"
proof
  assume a: "is_ancestor st q p"
  show "q = p"
  proof (rule ccontr)
    assume "q \<noteq> p"
    then obtain r where r: "pprev b = Some r" "is_ancestor st q r"
      using a is_ancestor_step [of st p b q] assms(2) by auto
    then obtain d where d: "st r = Some d" "nHeight b = nHeight d + 1"
      using wf_store_prev_height [OF wf assms(2)] by blast
    show False using is_ancestor_height [OF wf d(1) r(2)] d(2) assms(3,4) by auto
  qed
qed simp

lemma common_ancestor_loop_ok:
  assumes wf: "wf_store st" and "st pa = Some a" "st pb = Some b" "nHeight a = nHeight b"
  shows "\<exists>r. common_ancestor_loop st (Some pa) (Some pb) = Some (r, r) \<and>
             last_ancestor_with st (\<lambda>q. is_ancestor st q pb) pa r"
  using assms(2-4)
proof (induction "nat (nHeight a)" arbitrary: pa pb a b rule: less_induct)
  case less
  show ?case
  proof (cases "pa = pb")
    case True
    then have "common_ancestor_loop st (Some pa) (Some pb) = Some (Some pa, Some pa)"
      by (subst common_ancestor_loop.simps) simp
    then show ?thesis using True last_ancestor_here [of "\<lambda>q. is_ancestor st q pb" pa st] by auto
  next
    case False
    then have np: "\<not> is_ancestor st pa pb" using is_ancestor_same_height [OF wf less(3,2)] less(4) by simp
    have step: "common_ancestor_loop st (Some pa) (Some pb) = common_ancestor_loop st (pprev a) (pprev b)"
      using False less by (subst common_ancestor_loop.simps) simp
    show ?thesis
    proof (cases "pprev a")
      case None
      then have "nHeight a = 0" using wf_storeD [OF wf less(2)] by (simp add: wf_node_def)
      then have "pprev b = None" using wf_store_genesis [OF wf less(3)] less(4) by simp
      then have "common_ancestor_loop st (pprev a) (pprev b) = Some (None, None)"
        using None by (subst common_ancestor_loop.simps) simp
      then show ?thesis
        using step last_ancestor_stop [of st pa a "\<lambda>q. is_ancestor st q pb"] less(2) None np by auto
    next
      case (Some qa)
      then obtain c where c: "st qa = Some c" "nHeight a = nHeight c + 1"
        using wf_store_prev_height [OF wf less(2)] by blast
      then have "0 < nHeight b" using wf_store_height [OF wf c(1)] less(4) by simp
      then obtain qb d where d: "pprev b = Some qb" "st qb = Some d" "nHeight b = nHeight d + 1"
        by (rule wf_store_prev [OF wf less(3)])
      have "nat (nHeight c) < nat (nHeight a)" using c wf_store_height [OF wf c(1)] by simp
      then obtain r where r: "common_ancestor_loop st (Some qa) (Some qb) = Some (r, r)"
        "last_ancestor_with st (\<lambda>q. is_ancestor st q qb) qa r"
        using less(1) [OF _ c(1) d(2)] c(2) d(3) less(4) by auto
      have "is_ancestor st q qb = is_ancestor st q pb" if "is_ancestor st q qa" for q
        using is_ancestor_height [OF wf c(1) that] c(2) d less(3,4) is_ancestor_step [of st pb b q] by auto
      from last_ancestor_cong [OF this r(2)] show ?thesis
        using step r(1) Some d(1) last_ancestor_step [of st pa a qa "\<lambda>q. is_ancestor st q pb" r] less(2) np by auto
    qed
  qed
qed

lemma LastCommonAncestor_ok:
  assumes wf: "wf_store st" and a: "st pa = Some a" and b: "st pb = Some b"
  shows "\<exists>r. LastCommonAncestor st pa pb = Some r \<and> last_ancestor_with st (\<lambda>q. is_ancestor st q pb) pa r"
proof -
  let ?P = "\<lambda>q. is_ancestor st q pb"
  have ha: "0 \<le> nHeight a" and hb: "0 \<le> nHeight b" using wf_store_height [OF wf] a b by blast+
  consider "nHeight a > nHeight b" | "nHeight b > nHeight a" | "nHeight a = nHeight b" by linarith
  then show ?thesis
  proof cases
    case 1
    let ?n = "nat (nHeight a - nHeight b)"
    obtain q c where q: "walk_back st ?n pa = Some q" "st q = Some c" "nHeight c = nHeight b"
      using walk_back_height [OF wf a, of ?n] 1 hb by auto
    obtain r where r: "common_ancestor_loop st (Some q) (Some pb) = Some (r, r)" "last_ancestor_with st ?P q r"
      using common_ancestor_loop_ok [OF wf q(2) b q(3)] by blast
    have "\<not> ?P s" if i: "i < ?n" "walk_back st i pa = Some s" for i s
    proof -
      have "int i \<le> nHeight a" using i(1) hb by linarith
      then obtain d where "st s = Some d" "nHeight d = nHeight a - int i"
        using walk_back_height [OF wf a, of i] i by auto
      then show ?thesis using is_ancestor_height [OF wf b, of s] i by auto
    qed
    then have "last_ancestor_with st ?P pa r" using last_ancestor_walk [OF q(1), of ?P r] r(2) by blast
    then show ?thesis
      using r(1) 1 hb a b q(1) GetAncestor_walk_back [OF wf a, of "nHeight b"] by (simp add: LastCommonAncestor_def)
  next
    case 2
    let ?n = "nat (nHeight b - nHeight a)"
    obtain q c where q: "walk_back st ?n pb = Some q" "st q = Some c" "nHeight c = nHeight a"
      using walk_back_height [OF wf b, of ?n] 2 ha by auto
    obtain r where r: "common_ancestor_loop st (Some pa) (Some q) = Some (r, r)"
      "last_ancestor_with st (\<lambda>s. is_ancestor st s q) pa r"
      using common_ancestor_loop_ok [OF wf a q(2)] q(3) by auto
    have "is_ancestor st s q = ?P s" if "is_ancestor st s pa" for s
      using is_ancestor_height [OF wf a that] is_ancestor_below [OF wf b q(1,2), of s] q(3) ha hb by auto
    from last_ancestor_cong [OF this r(2)] show ?thesis
      using r(1) 2 ha a b q(1) GetAncestor_walk_back [OF wf b, of "nHeight a"] by (simp add: LastCommonAncestor_def)
  next
    case 3
    then show ?thesis using common_ancestor_loop_ok [OF wf a b] a b by (auto simp: LastCommonAncestor_def)
  qed
qed

section \<open>Locators\<close>

lemma chain_ok_nth:
  assumes "chain_ok st v" "i < length v"
  shows "\<exists>p b. v ! i = Some p \<and> st p = Some b \<and> nHeight b = int i \<and> (0 < i \<longrightarrow> pprev b = v ! (i - 1))"
proof -
  have "entry_ok st v i" using assms by (simp add: chain_ok_def)
  then show ?thesis by (auto simp: entry_ok_def split: option.splits)
qed

lemma chain_walk:
  assumes "chain_ok st v" "n \<le> i" "i < length v" "v ! i = Some p"
  shows "walk_back st n p = v ! (i - n)"
  using assms(2-4)
proof (induction n arbitrary: i p)
  case (Suc n)
  obtain b where b: "st p = Some b" "pprev b = v ! (i - 1)"
    using chain_ok_nth [OF assms(1) Suc(3)] Suc(2,4) by auto
  obtain q where q: "v ! (i - 1) = Some q"
    using chain_ok_nth [OF assms(1), of "i - 1"] Suc(3) less_imp_diff_less by blast
  have "walk_back st n q = v ! (i - 1 - n)" using Suc q by (intro Suc(1)) auto
  then show ?case using b q Suc by simp
qed simp

lemma locator_step:
  assumes wf: "wf_store st" and v: "chain_ok st v" and p: "st p = Some b" and h: "0 \<le> h" "h \<le> nHeight b"
  shows "(if chain_at v (nHeight b) = Some p then Some (chain_at v h) else GetAncestor st p h)
       = Some (walk_back st (nat (nHeight b - h)) p)"
proof (cases "chain_at v (nHeight b) = Some p")
  case True
  then have i: "nat (nHeight b) < length v" "v ! nat (nHeight b) = Some p"
    using h by (auto simp: chain_at_def split: if_splits)
  have "walk_back st (nat (nHeight b - h)) p = v ! (nat (nHeight b) - nat (nHeight b - h))"
    using i h by (intro chain_walk [OF v]) auto
  also have "nat (nHeight b) - nat (nHeight b - h) = nat h" using h by linarith
  also have "v ! nat h = chain_at v h" using i h by (auto simp: chain_at_def)
  finally show ?thesis using True by simp
next
  case False
  then show ?thesis using GetAncestor_walk_back [OF wf p, of h] h by simp
qed

abbreviation height_of :: "index_store \<Rightarrow> ptr \<Rightarrow> int" where
  "height_of st p \<equiv> nHeight (the (st p))"

text \<open>The blocks a locator names: ancestors at strictly decreasing heights, down to height zero.\<close>

definition locator_path :: "index_store \<Rightarrow> ptr \<Rightarrow> ptr list \<Rightarrow> bool" where
  "locator_path st p qs \<longleftrightarrow> qs \<noteq> [] \<and> hd qs = p \<and> (\<forall>q \<in> set qs. is_ancestor st q p) \<and>
     height_of st (last qs) = 0 \<and> sorted_wrt (\<lambda>x y. height_of st y < height_of st x) qs"

lemma is_ancestor_trans:
  assumes "is_ancestor st q p" "is_ancestor st r q"
  shows "is_ancestor st r p"
proof -
  obtain m n where "walk_back st m p = Some q" "walk_back st n q = Some r" using assms by (auto simp: is_ancestor_def)
  then have "walk_back st (m + n) p = Some r" by (simp add: walk_back_add)
  then show ?thesis unfolding is_ancestor_def by blast
qed

lemma locator_loop_ok:
  assumes wf: "wf_store st" and v: "chain_ok st v" and p: "st p = Some b" and "1 \<le> nStep"
  shows "\<exists>qs. locator_loop st v (Some p) nStep vHave = Some (vHave @ map (\<lambda>q. phashBlock (the (st q))) qs) \<and>
              locator_path st p qs"
  using assms(3,4)
proof (induction "nat (nHeight b)" arbitrary: p b nStep vHave rule: less_induct)
  case less
  have h0: "0 \<le> nHeight b" by (rule wf_store_height [OF wf less(2)])
  show ?case
  proof (cases "nHeight b = 0")
    case True
    then have "locator_loop st v (Some p) nStep vHave = Some (vHave @ [phashBlock b])"
      using less(2) by (subst locator_loop.simps) simp
    moreover have "locator_path st p [p]" using True less(2) by (simp add: locator_path_def)
    ultimately show ?thesis using less(2) by (intro exI [of _ "[p]"]) simp
  next
    case False
    define h where "h = max (nHeight b - nStep) 0"
    have h: "0 \<le> h" "h < nHeight b" using False h0 less(3) by (auto simp: h_def)
    then obtain q c where q: "walk_back st (nat (nHeight b - h)) p = Some q" "st q = Some c" "nHeight c = h"
      using walk_back_height [OF wf less(2), of "nat (nHeight b - h)"] by auto
    let ?step = "if length (vHave @ [phashBlock b]) > 10 then nStep * 2 else nStep"
    have s1: "1 \<le> ?step" using less(3) by simp
    have "locator_loop st v (Some p) nStep vHave = locator_loop st v (Some q) ?step (vHave @ [phashBlock b])"
      using False less(2) h q(1) locator_step [OF wf v less(2), of h]
      by (subst locator_loop.simps) (auto simp: Let_def h_def [symmetric] split: if_splits)
    moreover obtain qs where "locator_loop st v (Some q) ?step (vHave @ [phashBlock b])
        = Some ((vHave @ [phashBlock b]) @ map (\<lambda>q. phashBlock (the (st q))) qs)" and qs: "locator_path st q qs"
      using less(1) [OF _ q(2), of ?step "vHave @ [phashBlock b]"] h q(3) s1 by auto
    moreover have "locator_path st p (p # qs)"
    proof -
      have anc: "is_ancestor st q p" using q(1) by (auto simp: is_ancestor_def)
      have "height_of st r < nHeight b" if "r \<in> set qs" for r
        using that qs is_ancestor_height [OF wf q(2), of r] q(3) h by (auto simp: locator_path_def)
      then show ?thesis using qs anc is_ancestor_trans [OF anc] less(2) by (auto simp: locator_path_def)
    qed
    ultimately show ?thesis using less(2) by (intro exI [of _ "p # qs"]) simp
  qed
qed

section \<open>Searching by time\<close>

lemma lower_bound_loop_ok:
  assumes "\<And>i j. i \<le> j \<Longrightarrow> j < first + len \<Longrightarrow> less_key j \<Longrightarrow> less_key i"
    and "\<And>i. i < first \<Longrightarrow> less_key i"
  shows "lower_bound_loop less_key first len \<le> first + len
    \<and> (\<forall>i < lower_bound_loop less_key first len. less_key i)
    \<and> (\<forall>i. lower_bound_loop less_key first len \<le> i \<longrightarrow> i < first + len \<longrightarrow> \<not> less_key i)"
  using assms
proof (induction less_key first len rule: lower_bound_loop.induct)
  case (1 less_key first len)
  show ?case
  proof (cases "len = 0")
    case True
    then have "lower_bound_loop less_key first len = first" by (subst lower_bound_loop.simps) simp
    then show ?thesis using True 1(4) by simp
  next
    case False
    let ?half = "len div 2"
    show ?thesis
    proof (cases "less_key (first + ?half)")
      case True
      have eq: "lower_bound_loop less_key first len = lower_bound_loop less_key (first + ?half + 1) (len - ?half - 1)"
        using False True by (subst lower_bound_loop.simps) (simp add: Let_def)
      have sum: "first + ?half + 1 + (len - ?half - 1) = first + len" using False by simp
      have "i < first + ?half + 1 \<Longrightarrow> less_key i" for i
        using 1(3) [of i "first + ?half"] True False by simp
      then show ?thesis
        using 1(1) [OF False refl True] 1(3) unfolding eq sum by blast
    next
      case F: False
      have eq: "lower_bound_loop less_key first len = lower_bound_loop less_key first ?half"
        using False F by (subst lower_bound_loop.simps) (simp add: Let_def)
      have ih: "lower_bound_loop less_key first ?half \<le> first + ?half
        \<and> (\<forall>i < lower_bound_loop less_key first ?half. less_key i)
        \<and> (\<forall>i. lower_bound_loop less_key first ?half \<le> i \<longrightarrow> i < first + ?half \<longrightarrow> \<not> less_key i)"
      proof (rule 1(2) [OF False refl F])
        fix i j
        assume "i \<le> j" "j < first + ?half" "less_key j"
        moreover have "first + ?half \<le> first + len" by simp
        ultimately show "less_key i" using 1(3) [of i j] by linarith
      qed (rule 1(4))
      have "\<not> less_key i" if "first + ?half \<le> i" "i < first + len" for i
        using 1(3) [OF that] F by blast
      moreover have "first + ?half \<le> first + len" by simp
      ultimately show ?thesis using ih unfolding eq by (meson not_le order_trans)
    qed
  qed
qed

lemma chain_times_mono:
  assumes v: "chain_ok st v" and lk: "\<And>p b. st p = Some b \<Longrightarrow> linked st b"
    and "i \<le> j" "j < length v" "v ! i = Some p" "st p = Some b" "v ! j = Some q" "st q = Some c"
  shows "uint (nTimeMax b) \<le> uint (nTimeMax c)"
  using assms(3-)
proof (induction "j - i" arbitrary: j q c)
  case (Suc d)
  obtain q' c' where q': "v ! (j - 1) = Some q'" "st q' = Some c'"
    using chain_ok_nth [OF v, of "j - 1"] Suc(4) less_imp_diff_less by blast
  have "uint (nTimeMax b) \<le> uint (nTimeMax c')" using Suc q' by (intro Suc(1) [of "j - 1"]) auto
  moreover have "pprev c = Some q'" using chain_ok_nth [OF v Suc(4)] Suc q' by auto
  ultimately show ?case using linked_times(2) [OF lk [OF Suc(8)], of q'] q' by auto
qed auto

definition at_least :: "index_store \<Rightarrow> CChain \<Rightarrow> int \<Rightarrow> int \<Rightarrow> nat \<Rightarrow> bool" where
  "at_least st v t h i \<longleftrightarrow> i < length v \<and>
     (case v ! i of
        None \<Rightarrow> False
      | Some p \<Rightarrow> (case st p of None \<Rightarrow> False | Some b \<Rightarrow> t \<le> uint (nTimeMax b) \<and> h \<le> nHeight b))"

lemma FindEarliestAtLeast_ok:
  assumes v: "chain_ok st v" and lk: "\<And>p b. st p = Some b \<Longrightarrow> linked st b"
  shows "(FindEarliestAtLeast st v t h = None \<and> (\<forall>i. \<not> at_least st v t h i)) \<or>
         (\<exists>i. FindEarliestAtLeast st v t h = v ! i \<and> at_least st v t h i \<and> (\<forall>j < i. \<not> at_least st v t h j))"
proof -
  define before where "before = (\<lambda>i. case v ! i of None \<Rightarrow> False
     | Some p \<Rightarrow> (case st p of None \<Rightarrow> False | Some b \<Rightarrow> uint (nTimeMax b) < t \<or> nHeight b < h))"
  have iff: "at_least st v t h i \<longleftrightarrow> i < length v \<and> \<not> before i" for i
    using chain_ok_nth [OF v, of i] by (auto simp: at_least_def before_def not_less)
  let ?l = "lower_bound_loop before 0 (length v)"
  have mono: "before i" if ij: "i \<le> j" "j < 0 + length v" "before j" for i j
  proof -
    obtain p b where p: "v ! i = Some p" "st p = Some b" "nHeight b = int i"
      using chain_ok_nth [OF v, of i] ij by auto
    obtain q c where q: "v ! j = Some q" "st q = Some c" "nHeight c = int j"
      using chain_ok_nth [OF v, of j] ij by auto
    have "uint (nTimeMax b) \<le> uint (nTimeMax c)"
      using chain_times_mono [of st v i j p b q c] v lk ij p q by auto
    then show ?thesis using ij p q by (auto simp: before_def)
  qed
  have l: "?l \<le> length v" "\<forall>i < ?l. before i" "\<forall>i. ?l \<le> i \<longrightarrow> i < length v \<longrightarrow> \<not> before i"
    using lower_bound_loop_ok [of 0 "length v" before] mono by auto
  have fe: "FindEarliestAtLeast st v t h = (if ?l = length v then None else v ! ?l)"
    by (simp add: FindEarliestAtLeast_def before_def Let_def)
  show ?thesis
  proof (cases "?l = length v")
    case True
    then show ?thesis using l(2) iff fe by auto
  next
    case False
    then have "?l < length v" using l(1) by simp
    then show ?thesis using l(2,3) iff fe False by auto
  qed
qed

section \<open>Properties\<close>

text \<open>
  The states of the node: headers are added to the index, and the active chain is moved to some entry
  of the index or cleared.
\<close>

inductive node_reachable :: "(CBlockHeader \<Rightarrow> uint256) \<Rightarrow> BlockManager \<Rightarrow> CChain \<Rightarrow> bool" for GetHash where
  start: "node_reachable GetHash BlockManager_init []"
| add_header: "node_reachable GetHash bm v \<Longrightarrow> GetHash block \<noteq> hdr_hashPrevBlock block \<Longrightarrow>
    status = BLOCK_VALID_TREE \<or> status = BLOCK_CONFLICT_CHAINLOCK \<Longrightarrow>
    AddToBlockIndex GetHash block status bm = Some (bm', p) \<Longrightarrow> node_reachable GetHash bm' v"
| set_tip: "node_reachable GetHash bm v \<Longrightarrow> heap bm p = Some b \<Longrightarrow>
    SetTip (heap bm) v (Some p) = Some v' \<Longrightarrow> node_reachable GetHash bm v'"
| clear: "node_reachable GetHash bm v \<Longrightarrow> SetTip (heap bm) v None = Some v' \<Longrightarrow> node_reachable GetHash bm v'"

lemma chain_ok_mono:
  assumes "chain_ok st v" "\<And>q b. st q = Some b \<Longrightarrow> st' q = Some b"
  shows "chain_ok st' v"
  unfolding chain_ok_def
proof (intro allI impI)
  fix i assume "i < length v"
  then obtain p b where "v ! i = Some p" "st p = Some b" "nHeight b = int i" "0 < i \<longrightarrow> pprev b = v ! (i - 1)"
    using chain_ok_nth [OF assms(1)] by blast
  then show "entry_ok st' v i" using assms(2) [of p b] by (simp add: entry_ok_def)
qed

lemma node_reachable_inv: "node_reachable GetHash bm v \<Longrightarrow> bm_inv bm \<and> chain_ok (heap bm) v"
proof (induction rule: node_reachable.induct)
  case start
  then show ?case using bm_reachable_inv [OF bm_reachable.init] by (simp add: chain_ok_def)
next
  case (add_header bm v block status bm' p)
  then show ?case
    using AddToBlockIndex_ok [of bm GetHash block status] chain_ok_mono [of "heap bm" v "heap bm'"] by auto
next
  case (set_tip bm v p b v')
  then show ?case using SetTip_ok [of "heap bm" v p b] by (auto simp: bm_inv_def)
next
  case (clear bm v v')
  then show ?case by (simp add: SetTip_def chain_ok_def)
qed

text \<open>
  C18: Moving the active chain: in every reachable state and for every entry of the index, \<open>SetTip\<close>
  returns, although its loop stops at the first entry that is already in place, and afterwards the vector
  is exactly the branch of the new tip: each height holds the predecessor of the entry above, the height
  is the tip's height and the last entry is the tip.
\<close>

theorem SetTip_relinks_chain:
  assumes "node_reachable GetHash bm v" "heap bm p = Some b"
  shows "\<exists>v'. SetTip (heap bm) v (Some p) = Some v' \<and> chain_ok (heap bm) v' \<and> Height v' = nHeight b \<and> Tip v' = Some p
     \<and> (\<forall>n \<le> nat (nHeight b). walk_back (heap bm) n p = chain_at v' (nHeight b - int n))"
proof -
  have wf: "wf_store (heap bm)" "chain_ok (heap bm) v" using node_reachable_inv [OF assms(1)] by (auto simp: bm_inv_def)
  obtain v' where v': "SetTip (heap bm) v (Some p) = Some v'" "chain_ok (heap bm) v'"
    "int (length v') = nHeight b + 1" "Tip v' = Some p"
    using SetTip_ok [OF wf assms(2)] by blast
  have h0: "0 \<le> nHeight b" by (rule wf_store_height [OF wf(1) assms(2)])
  have i: "nat (nHeight b) = length v' - 1" "length v' > 0" using v'(3) h0 by linarith+
  then have last: "v' ! nat (nHeight b) = Some p" using v'(4) by (simp add: Tip_def)
  have "walk_back (heap bm) n p = chain_at v' (nHeight b - int n)" if "n \<le> nat (nHeight b)" for n
  proof -
    have "int n \<le> nHeight b" using that h0 by linarith
    then show ?thesis
      using chain_walk [OF v'(2) that _ last] i v'(3) by (simp add: chain_at_def nat_diff_distrib')
  qed
  then show ?thesis using v' by (auto simp: Height_def)
qed

text \<open>
  Finding where branches meet: in every reachable state \<open>FindFork\<close> returns the last block of the given
  branch that is on the active chain, and \<open>LastCommonAncestor\<close> the last block that two branches share (each
  the null pointer if there is none); the closing assertion of \<open>LastCommonAncestor\<close> never fails.
\<close>

theorem branches_meet:
  assumes "node_reachable GetHash bm v" "heap bm p = Some b" "heap bm q = Some c"
  shows "(\<exists>r. FindFork (heap bm) v (Some p) = Some r \<and> last_ancestor_with (heap bm) (on_chain (heap bm) v) p r)
       \<and> (\<exists>r. LastCommonAncestor (heap bm) p q = Some r \<and>
              last_ancestor_with (heap bm) (\<lambda>x. is_ancestor (heap bm) x q) p r)"
  using node_reachable_inv [OF assms(1)] FindFork_ok LastCommonAncestor_ok assms(2,3) by (auto simp: bm_inv_def)

text \<open>
  C19: A block locator for any entry starts with that entry, names only its ancestors, at strictly
  decreasing heights whether or not the entry is on the active chain, and ends with the genesis block.
\<close>

theorem GetLocator_reaches_genesis:
  assumes "node_reachable GetHash bm v" "heap bm p = Some b"
  shows "\<exists>qs. GetLocator (heap bm) v (Some p) = Some (map (\<lambda>q. phashBlock (the (heap bm q))) qs)
     \<and> locator_path (heap bm) p qs"
  using node_reachable_inv [OF assms(1)] locator_loop_ok [of "heap bm" v p b 1 "[]"] assms(2)
  by (auto simp: GetLocator_def bm_inv_def)

text \<open>
  Searching the active chain by time: \<open>FindEarliestAtLeast\<close> returns the lowest block whose time maximum
  and height are both at least the given ones, and the null pointer only if no block of the chain is.
\<close>

theorem FindEarliestAtLeast_lowest:
  assumes "node_reachable GetHash bm v"
  shows "(FindEarliestAtLeast (heap bm) v t h = None \<and> (\<forall>i. \<not> at_least (heap bm) v t h i)) \<or>
     (\<exists>i. FindEarliestAtLeast (heap bm) v t h = v ! i \<and> at_least (heap bm) v t h i \<and>
          (\<forall>j < i. \<not> at_least (heap bm) v t h j))"
  using node_reachable_inv [OF assms] FindEarliestAtLeast_ok [of "heap bm" v t h] by (auto simp: bm_inv_def)

lemma example_node:
  "\<exists>bm p b v. node_reachable example_hash bm v \<and> heap bm p = Some b \<and> Tip v = Some p"
proof -
  have ne: "example_hash example_genesis \<noteq> hdr_hashPrevBlock example_genesis"
    by (auto simp: example_hash_def example_genesis_def null_hash_def dest: arg_cong [where f = length])
  obtain bm p where bm: "AddToBlockIndex example_hash example_genesis BLOCK_VALID_TREE BlockManager_init = Some (bm, p)"
    "bm_inv bm" "m_block_index bm (example_hash example_genesis) = Some p"
    using AddToBlockIndex_ok [of BlockManager_init example_hash example_genesis BLOCK_VALID_TREE]
      bm_reachable_inv [OF bm_reachable.init] ne by blast
  have r: "node_reachable example_hash bm []"
    using node_reachable.add_header [of example_hash BlockManager_init "[]" example_genesis BLOCK_VALID_TREE bm p]
      node_reachable.start [of example_hash] ne bm(1) by blast
  obtain b where b: "heap bm p = Some b" using bm(2,3) unfolding bm_inv_def by blast
  obtain v where v: "SetTip (heap bm) [] (Some p) = Some v" "Tip v = Some p"
    using SetTip_ok [of "heap bm" "[]" p b] b bm(2) by (auto simp: bm_inv_def chain_ok_def)
  then show ?thesis using b node_reachable.set_tip [OF r b v(1)] by blast
qed

theorem SetTip_relinks_chain_witness:
  "\<exists>bm p v v'. node_reachable example_hash bm v \<and> SetTip (heap bm) v (Some p) = Some v' \<and> Tip v' = Some p"
  using example_node SetTip_relinks_chain by fastforce

theorem branches_meet_witness:
  "\<exists>bm p v. node_reachable example_hash bm v \<and> FindFork (heap bm) v (Some p) \<noteq> None \<and> LastCommonAncestor (heap bm) p p \<noteq> None"
proof -
  obtain bm p b v where "node_reachable example_hash bm v" "heap bm p = Some b" using example_node by blast
  with branches_meet [of example_hash bm v p b p b] show ?thesis by auto
qed

theorem GetLocator_reaches_genesis_witness:
  "\<exists>bm p v qs. node_reachable example_hash bm v \<and> locator_path (heap bm) p qs \<and>
     GetLocator (heap bm) v (Some p) = Some (map (\<lambda>q. phashBlock (the (heap bm q))) qs)"
  using example_node GetLocator_reaches_genesis by fastforce

theorem FindEarliestAtLeast_lowest_witness:
  "\<exists>bm v. node_reachable example_hash bm v \<and> Tip v \<noteq> None \<and>
     ((FindEarliestAtLeast (heap bm) v 0 0 = None \<and> (\<forall>i. \<not> at_least (heap bm) v 0 0 i)) \<or>
      (\<exists>i. FindEarliestAtLeast (heap bm) v 0 0 = v ! i \<and> at_least (heap bm) v 0 0 i \<and>
          (\<forall>j < i. \<not> at_least (heap bm) v 0 0 j)))"
proof -
  obtain bm p b v where "node_reachable example_hash bm v" "Tip v = Some p" using example_node by blast
  with FindEarliestAtLeast_lowest [of example_hash bm v 0 0] show ?thesis by blast
qed

end
