(* ===== verification/Script.thy ===== *)
theory Script
  imports Prelude
begin

text \<open>
  Scripts as byte strings, \<^verbatim>\<open>src/src/script/script.{h,cpp}\<close>: the opcodes, \<open>CScriptNum\<close> (the sign-magnitude
  numbers on the script stack), the push operators, \<open>GetScriptOp\<close> and the predicates built on it.  A script is
  the list of its bytes, an iterator is the list of the bytes from there to the end.
\<close>

unbundle bit_operations_syntax

named_theorems opcodes "the values of the opcodes"

type_synonym CScript = bytes
type_synonym valtype = bytes

section \<open>Limits and opcodes\<close>

definition MAX_SCRIPT_ELEMENT_SIZE :: nat where "MAX_SCRIPT_ELEMENT_SIZE = 520"
definition MAX_SCRIPT_ELEMENT_SIZE_EXTENDED :: nat where "MAX_SCRIPT_ELEMENT_SIZE_EXTENDED = 4096"
definition MAX_OPS_PER_SCRIPT :: int where "MAX_OPS_PER_SCRIPT = 201"
definition MAX_PUBKEYS_PER_MULTISIG :: int where "MAX_PUBKEYS_PER_MULTISIG = 20"
definition MAX_SCRIPT_SIZE :: nat where "MAX_SCRIPT_SIZE = 10000"
definition MAX_STACK_SIZE :: nat where "MAX_STACK_SIZE = 1000"
definition LOCKTIME_THRESHOLD :: u32 where "LOCKTIME_THRESHOLD = 500000000"

definition OP_0 :: byte where [opcodes]: "OP_0 = 0x00"
definition OP_FALSE :: byte where [opcodes]: "OP_FALSE = OP_0"
definition OP_PUSHDATA1 :: byte where [opcodes]: "OP_PUSHDATA1 = 0x4c"
definition OP_PUSHDATA2 :: byte where [opcodes]: "OP_PUSHDATA2 = 0x4d"
definition OP_PUSHDATA4 :: byte where [opcodes]: "OP_PUSHDATA4 = 0x4e"
definition OP_1NEGATE :: byte where [opcodes]: "OP_1NEGATE = 0x4f"
definition OP_RESERVED :: byte where [opcodes]: "OP_RESERVED = 0x50"
definition OP_1 :: byte where [opcodes]: "OP_1 = 0x51"
definition OP_TRUE :: byte where [opcodes]: "OP_TRUE = OP_1"
definition OP_2 :: byte where [opcodes]: "OP_2 = 0x52"
definition OP_3 :: byte where [opcodes]: "OP_3 = 0x53"
definition OP_4 :: byte where [opcodes]: "OP_4 = 0x54"
definition OP_5 :: byte where [opcodes]: "OP_5 = 0x55"
definition OP_6 :: byte where [opcodes]: "OP_6 = 0x56"
definition OP_7 :: byte where [opcodes]: "OP_7 = 0x57"
definition OP_8 :: byte where [opcodes]: "OP_8 = 0x58"
definition OP_9 :: byte where [opcodes]: "OP_9 = 0x59"
definition OP_10 :: byte where [opcodes]: "OP_10 = 0x5a"
definition OP_11 :: byte where [opcodes]: "OP_11 = 0x5b"
definition OP_12 :: byte where [opcodes]: "OP_12 = 0x5c"
definition OP_13 :: byte where [opcodes]: "OP_13 = 0x5d"
definition OP_14 :: byte where [opcodes]: "OP_14 = 0x5e"
definition OP_15 :: byte where [opcodes]: "OP_15 = 0x5f"
definition OP_16 :: byte where [opcodes]: "OP_16 = 0x60"
definition OP_NOP :: byte where [opcodes]: "OP_NOP = 0x61"
definition OP_VER :: byte where [opcodes]: "OP_VER = 0x62"
definition OP_IF :: byte where [opcodes]: "OP_IF = 0x63"
definition OP_NOTIF :: byte where [opcodes]: "OP_NOTIF = 0x64"
definition OP_VERIF :: byte where [opcodes]: "OP_VERIF = 0x65"
definition OP_VERNOTIF :: byte where [opcodes]: "OP_VERNOTIF = 0x66"
definition OP_ELSE :: byte where [opcodes]: "OP_ELSE = 0x67"
definition OP_ENDIF :: byte where [opcodes]: "OP_ENDIF = 0x68"
definition OP_VERIFY :: byte where [opcodes]: "OP_VERIFY = 0x69"
definition OP_RETURN :: byte where [opcodes]: "OP_RETURN = 0x6a"
definition OP_TOALTSTACK :: byte where [opcodes]: "OP_TOALTSTACK = 0x6b"
definition OP_FROMALTSTACK :: byte where [opcodes]: "OP_FROMALTSTACK = 0x6c"
definition OP_2DROP :: byte where [opcodes]: "OP_2DROP = 0x6d"
definition OP_2DUP :: byte where [opcodes]: "OP_2DUP = 0x6e"
definition OP_3DUP :: byte where [opcodes]: "OP_3DUP = 0x6f"
definition OP_2OVER :: byte where [opcodes]: "OP_2OVER = 0x70"
definition OP_2ROT :: byte where [opcodes]: "OP_2ROT = 0x71"
definition OP_2SWAP :: byte where [opcodes]: "OP_2SWAP = 0x72"
definition OP_IFDUP :: byte where [opcodes]: "OP_IFDUP = 0x73"
definition OP_DEPTH :: byte where [opcodes]: "OP_DEPTH = 0x74"
definition OP_DROP :: byte where [opcodes]: "OP_DROP = 0x75"
definition OP_DUP :: byte where [opcodes]: "OP_DUP = 0x76"
definition OP_NIP :: byte where [opcodes]: "OP_NIP = 0x77"
definition OP_OVER :: byte where [opcodes]: "OP_OVER = 0x78"
definition OP_PICK :: byte where [opcodes]: "OP_PICK = 0x79"
definition OP_ROLL :: byte where [opcodes]: "OP_ROLL = 0x7a"
definition OP_ROT :: byte where [opcodes]: "OP_ROT = 0x7b"
definition OP_SWAP :: byte where [opcodes]: "OP_SWAP = 0x7c"
definition OP_TUCK :: byte where [opcodes]: "OP_TUCK = 0x7d"
definition OP_CAT :: byte where [opcodes]: "OP_CAT = 0x7e"
definition OP_SPLIT :: byte where [opcodes]: "OP_SPLIT = 0x7f"
definition OP_SIZE :: byte where [opcodes]: "OP_SIZE = 0x82"
definition OP_NUM2BIN :: byte where [opcodes]: "OP_NUM2BIN = 0x80"
definition OP_BIN2NUM :: byte where [opcodes]: "OP_BIN2NUM = 0x81"
definition OP_INVERT :: byte where [opcodes]: "OP_INVERT = 0x83"
definition OP_AND :: byte where [opcodes]: "OP_AND = 0x84"
definition OP_OR :: byte where [opcodes]: "OP_OR = 0x85"
definition OP_XOR :: byte where [opcodes]: "OP_XOR = 0x86"
definition OP_EQUAL :: byte where [opcodes]: "OP_EQUAL = 0x87"
definition OP_EQUALVERIFY :: byte where [opcodes]: "OP_EQUALVERIFY = 0x88"
definition OP_RESERVED1 :: byte where [opcodes]: "OP_RESERVED1 = 0x89"
definition OP_RESERVED2 :: byte where [opcodes]: "OP_RESERVED2 = 0x8a"
definition OP_1ADD :: byte where [opcodes]: "OP_1ADD = 0x8b"
definition OP_1SUB :: byte where [opcodes]: "OP_1SUB = 0x8c"
definition OP_2MUL :: byte where [opcodes]: "OP_2MUL = 0x8d"
definition OP_2DIV :: byte where [opcodes]: "OP_2DIV = 0x8e"
definition OP_NEGATE :: byte where [opcodes]: "OP_NEGATE = 0x8f"
definition OP_ABS :: byte where [opcodes]: "OP_ABS = 0x90"
definition OP_NOT :: byte where [opcodes]: "OP_NOT = 0x91"
definition OP_0NOTEQUAL :: byte where [opcodes]: "OP_0NOTEQUAL = 0x92"
definition OP_ADD :: byte where [opcodes]: "OP_ADD = 0x93"
definition OP_SUB :: byte where [opcodes]: "OP_SUB = 0x94"
definition OP_MUL :: byte where [opcodes]: "OP_MUL = 0x95"
definition OP_DIV :: byte where [opcodes]: "OP_DIV = 0x96"
definition OP_MOD :: byte where [opcodes]: "OP_MOD = 0x97"
definition OP_LSHIFT :: byte where [opcodes]: "OP_LSHIFT = 0x98"
definition OP_RSHIFT :: byte where [opcodes]: "OP_RSHIFT = 0x99"
definition OP_BOOLAND :: byte where [opcodes]: "OP_BOOLAND = 0x9a"
definition OP_BOOLOR :: byte where [opcodes]: "OP_BOOLOR = 0x9b"
definition OP_NUMEQUAL :: byte where [opcodes]: "OP_NUMEQUAL = 0x9c"
definition OP_NUMEQUALVERIFY :: byte where [opcodes]: "OP_NUMEQUALVERIFY = 0x9d"
definition OP_NUMNOTEQUAL :: byte where [opcodes]: "OP_NUMNOTEQUAL = 0x9e"
definition OP_LESSTHAN :: byte where [opcodes]: "OP_LESSTHAN = 0x9f"
definition OP_GREATERTHAN :: byte where [opcodes]: "OP_GREATERTHAN = 0xa0"
definition OP_LESSTHANOREQUAL :: byte where [opcodes]: "OP_LESSTHANOREQUAL = 0xa1"
definition OP_GREATERTHANOREQUAL :: byte where [opcodes]: "OP_GREATERTHANOREQUAL = 0xa2"
definition OP_MIN :: byte where [opcodes]: "OP_MIN = 0xa3"
definition OP_MAX :: byte where [opcodes]: "OP_MAX = 0xa4"
definition OP_WITHIN :: byte where [opcodes]: "OP_WITHIN = 0xa5"
definition OP_RIPEMD160 :: byte where [opcodes]: "OP_RIPEMD160 = 0xa6"
definition OP_SHA1 :: byte where [opcodes]: "OP_SHA1 = 0xa7"
definition OP_SHA256 :: byte where [opcodes]: "OP_SHA256 = 0xa8"
definition OP_HASH160 :: byte where [opcodes]: "OP_HASH160 = 0xa9"
definition OP_HASH256 :: byte where [opcodes]: "OP_HASH256 = 0xaa"
definition OP_CODESEPARATOR :: byte where [opcodes]: "OP_CODESEPARATOR = 0xab"
definition OP_CHECKSIG :: byte where [opcodes]: "OP_CHECKSIG = 0xac"
definition OP_CHECKSIGVERIFY :: byte where [opcodes]: "OP_CHECKSIGVERIFY = 0xad"
definition OP_CHECKMULTISIG :: byte where [opcodes]: "OP_CHECKMULTISIG = 0xae"
definition OP_CHECKMULTISIGVERIFY :: byte where [opcodes]: "OP_CHECKMULTISIGVERIFY = 0xaf"
definition OP_NOP1 :: byte where [opcodes]: "OP_NOP1 = 0xb0"
definition OP_CHECKLOCKTIMEVERIFY :: byte where [opcodes]: "OP_CHECKLOCKTIMEVERIFY = 0xb1"
definition OP_NOP2 :: byte where [opcodes]: "OP_NOP2 = OP_CHECKLOCKTIMEVERIFY"
definition OP_CHECKSEQUENCEVERIFY :: byte where [opcodes]: "OP_CHECKSEQUENCEVERIFY = 0xb2"
definition OP_NOP3 :: byte where [opcodes]: "OP_NOP3 = OP_CHECKSEQUENCEVERIFY"
definition OP_NOP4 :: byte where [opcodes]: "OP_NOP4 = 0xb3"
definition OP_NOP5 :: byte where [opcodes]: "OP_NOP5 = 0xb4"
definition OP_NOP6 :: byte where [opcodes]: "OP_NOP6 = 0xb5"
definition OP_NOP7 :: byte where [opcodes]: "OP_NOP7 = 0xb6"
definition OP_NOP8 :: byte where [opcodes]: "OP_NOP8 = 0xb7"
definition OP_NOP9 :: byte where [opcodes]: "OP_NOP9 = 0xb8"
definition OP_NOP10 :: byte where [opcodes]: "OP_NOP10 = 0xb9"
definition OP_CHECKDATASIG :: byte where [opcodes]: "OP_CHECKDATASIG = 0xba"
definition OP_CHECKDATASIGVERIFY :: byte where [opcodes]: "OP_CHECKDATASIGVERIFY = 0xbb"
definition OP_INVALIDOPCODE :: byte where [opcodes]: "OP_INVALIDOPCODE = 0xff"

text \<open>The enumeration of the opcodes in its order, and their names.\<close>

definition opcodetype :: "byte list" where
  "opcodetype = [
     OP_0, OP_FALSE, OP_PUSHDATA1, OP_PUSHDATA2, OP_PUSHDATA4, OP_1NEGATE, OP_RESERVED, OP_1, OP_TRUE, OP_2, OP_3,
     OP_4, OP_5, OP_6, OP_7, OP_8, OP_9, OP_10, OP_11, OP_12, OP_13, OP_14, OP_15, OP_16, OP_NOP, OP_VER, OP_IF,
     OP_NOTIF, OP_VERIF, OP_VERNOTIF, OP_ELSE, OP_ENDIF, OP_VERIFY, OP_RETURN, OP_TOALTSTACK, OP_FROMALTSTACK,
     OP_2DROP, OP_2DUP, OP_3DUP, OP_2OVER, OP_2ROT, OP_2SWAP, OP_IFDUP, OP_DEPTH, OP_DROP, OP_DUP, OP_NIP,
     OP_OVER, OP_PICK, OP_ROLL, OP_ROT, OP_SWAP, OP_TUCK, OP_CAT, OP_SPLIT, OP_SIZE, OP_NUM2BIN, OP_BIN2NUM,
     OP_INVERT, OP_AND, OP_OR, OP_XOR, OP_EQUAL, OP_EQUALVERIFY, OP_RESERVED1, OP_RESERVED2, OP_1ADD, OP_1SUB,
     OP_2MUL, OP_2DIV, OP_NEGATE, OP_ABS, OP_NOT, OP_0NOTEQUAL, OP_ADD, OP_SUB, OP_MUL, OP_DIV, OP_MOD, OP_LSHIFT,
     OP_RSHIFT, OP_BOOLAND, OP_BOOLOR, OP_NUMEQUAL, OP_NUMEQUALVERIFY, OP_NUMNOTEQUAL, OP_LESSTHAN,
     OP_GREATERTHAN, OP_LESSTHANOREQUAL, OP_GREATERTHANOREQUAL, OP_MIN, OP_MAX, OP_WITHIN, OP_RIPEMD160, OP_SHA1,
     OP_SHA256, OP_HASH160, OP_HASH256, OP_CODESEPARATOR, OP_CHECKSIG, OP_CHECKSIGVERIFY, OP_CHECKMULTISIG,
     OP_CHECKMULTISIGVERIFY, OP_NOP1, OP_CHECKLOCKTIMEVERIFY, OP_NOP2, OP_CHECKSEQUENCEVERIFY, OP_NOP3, OP_NOP4,
     OP_NOP5, OP_NOP6, OP_NOP7, OP_NOP8, OP_NOP9, OP_NOP10, OP_CHECKDATASIG, OP_CHECKDATASIGVERIFY,
     OP_INVALIDOPCODE]"

definition op_names :: "(byte \<times> string) list" where
  "op_names = [
     (OP_0, ''0''), (OP_PUSHDATA1, ''OP_PUSHDATA1''), (OP_PUSHDATA2, ''OP_PUSHDATA2''),
     (OP_PUSHDATA4, ''OP_PUSHDATA4''), (OP_1NEGATE, ''-1''), (OP_RESERVED, ''OP_RESERVED''), (OP_1, ''1''),
     (OP_2, ''2''), (OP_3, ''3''), (OP_4, ''4''), (OP_5, ''5''), (OP_6, ''6''), (OP_7, ''7''), (OP_8, ''8''),
     (OP_9, ''9''), (OP_10, ''10''), (OP_11, ''11''), (OP_12, ''12''), (OP_13, ''13''), (OP_14, ''14''),
     (OP_15, ''15''), (OP_16, ''16''), (OP_NOP, ''OP_NOP''), (OP_VER, ''OP_VER''), (OP_IF, ''OP_IF''),
     (OP_NOTIF, ''OP_NOTIF''), (OP_VERIF, ''OP_VERIF''), (OP_VERNOTIF, ''OP_VERNOTIF''), (OP_ELSE, ''OP_ELSE''),
     (OP_ENDIF, ''OP_ENDIF''), (OP_VERIFY, ''OP_VERIFY''), (OP_RETURN, ''OP_RETURN''),
     (OP_TOALTSTACK, ''OP_TOALTSTACK''), (OP_FROMALTSTACK, ''OP_FROMALTSTACK''), (OP_2DROP, ''OP_2DROP''),
     (OP_2DUP, ''OP_2DUP''), (OP_3DUP, ''OP_3DUP''), (OP_2OVER, ''OP_2OVER''), (OP_2ROT, ''OP_2ROT''),
     (OP_2SWAP, ''OP_2SWAP''), (OP_IFDUP, ''OP_IFDUP''), (OP_DEPTH, ''OP_DEPTH''), (OP_DROP, ''OP_DROP''),
     (OP_DUP, ''OP_DUP''), (OP_NIP, ''OP_NIP''), (OP_OVER, ''OP_OVER''), (OP_PICK, ''OP_PICK''),
     (OP_ROLL, ''OP_ROLL''), (OP_ROT, ''OP_ROT''), (OP_SWAP, ''OP_SWAP''), (OP_TUCK, ''OP_TUCK''),
     (OP_CAT, ''OP_CAT''), (OP_SPLIT, ''OP_SPLIT''), (OP_SIZE, ''OP_SIZE''), (OP_NUM2BIN, ''OP_NUM2BIN''),
     (OP_BIN2NUM, ''OP_BIN2NUM''), (OP_INVERT, ''OP_INVERT''), (OP_AND, ''OP_AND''), (OP_OR, ''OP_OR''),
     (OP_XOR, ''OP_XOR''), (OP_EQUAL, ''OP_EQUAL''), (OP_EQUALVERIFY, ''OP_EQUALVERIFY''),
     (OP_RESERVED1, ''OP_RESERVED1''), (OP_RESERVED2, ''OP_RESERVED2''), (OP_1ADD, ''OP_1ADD''),
     (OP_1SUB, ''OP_1SUB''), (OP_2MUL, ''OP_2MUL''), (OP_2DIV, ''OP_2DIV''), (OP_NEGATE, ''OP_NEGATE''),
     (OP_ABS, ''OP_ABS''), (OP_NOT, ''OP_NOT''), (OP_0NOTEQUAL, ''OP_0NOTEQUAL''), (OP_ADD, ''OP_ADD''),
     (OP_SUB, ''OP_SUB''), (OP_MUL, ''OP_MUL''), (OP_DIV, ''OP_DIV''), (OP_MOD, ''OP_MOD''),
     (OP_LSHIFT, ''OP_LSHIFT''), (OP_RSHIFT, ''OP_RSHIFT''), (OP_BOOLAND, ''OP_BOOLAND''),
     (OP_BOOLOR, ''OP_BOOLOR''), (OP_NUMEQUAL, ''OP_NUMEQUAL''), (OP_NUMEQUALVERIFY, ''OP_NUMEQUALVERIFY''),
     (OP_NUMNOTEQUAL, ''OP_NUMNOTEQUAL''), (OP_LESSTHAN, ''OP_LESSTHAN''), (OP_GREATERTHAN, ''OP_GREATERTHAN''),
     (OP_LESSTHANOREQUAL, ''OP_LESSTHANOREQUAL''), (OP_GREATERTHANOREQUAL, ''OP_GREATERTHANOREQUAL''),
     (OP_MIN, ''OP_MIN''), (OP_MAX, ''OP_MAX''), (OP_WITHIN, ''OP_WITHIN''), (OP_RIPEMD160, ''OP_RIPEMD160''),
     (OP_SHA1, ''OP_SHA1''), (OP_SHA256, ''OP_SHA256''), (OP_HASH160, ''OP_HASH160''),
     (OP_HASH256, ''OP_HASH256''), (OP_CODESEPARATOR, ''OP_CODESEPARATOR''), (OP_CHECKSIG, ''OP_CHECKSIG''),
     (OP_CHECKSIGVERIFY, ''OP_CHECKSIGVERIFY''), (OP_CHECKMULTISIG, ''OP_CHECKMULTISIG''),
     (OP_CHECKMULTISIGVERIFY, ''OP_CHECKMULTISIGVERIFY''), (OP_NOP1, ''OP_NOP1''),
     (OP_CHECKLOCKTIMEVERIFY, ''OP_CHECKLOCKTIMEVERIFY''), (OP_CHECKSEQUENCEVERIFY, ''OP_CHECKSEQUENCEVERIFY''),
     (OP_NOP4, ''OP_NOP4''), (OP_NOP5, ''OP_NOP5''), (OP_NOP6, ''OP_NOP6''), (OP_NOP7, ''OP_NOP7''),
     (OP_NOP8, ''OP_NOP8''), (OP_NOP9, ''OP_NOP9''), (OP_NOP10, ''OP_NOP10''),
     (OP_CHECKDATASIG, ''OP_CHECKDATASIG''), (OP_CHECKDATASIGVERIFY, ''OP_CHECKDATASIGVERIFY''),
     (OP_INVALIDOPCODE, ''OP_INVALIDOPCODE'')]"

definition GetOpName :: "byte \<Rightarrow> string" where
  "GetOpName opcode = (case map_of op_names opcode of Some name \<Rightarrow> name | None \<Rightarrow> ''OP_UNKNOWN'')"

section \<open>\<open>CScriptNum\<close>\<close>

text \<open>The value \<open>m_value\<close> of a \<open>CScriptNum\<close>, a signed 64-bit integer.\<close>

type_synonym CScriptNum = int

datatype scriptnum_error = script_number_overflow | non_minimally_encoded

definition nDefaultMaxNumSize :: nat where
  "nDefaultMaxNumSize = 4"

definition IsMinimallyEncoded :: "valtype \<Rightarrow> nat \<Rightarrow> bool" where
  "IsMinimallyEncoded vch nMaxNumSize \<longleftrightarrow>
     \<not> nMaxNumSize < length vch \<and>
     \<not> (0 < length vch \<and> last vch AND 0x7f = 0 \<and>
        (length vch \<le> 1 \<or> vch ! (length vch - 2) AND 0x80 = 0))"

text \<open>\<open>set_vch\<close>: the bytes are or-ed into a 64-bit integer, then the sign bit is taken off.\<close>

fun or_bytes :: "nat \<Rightarrow> bytes \<Rightarrow> u64 \<Rightarrow> u64" where
  "or_bytes i [] result = result"
| "or_bytes i (b # vch) result = or_bytes (Suc i) vch (result OR push_bit (8 * i) (ucast b))"

definition set_vch :: "valtype \<Rightarrow> CScriptNum" where
  "set_vch vch =
     (if vch = [] then 0
      else let result = or_bytes 0 vch 0
           in if last vch AND 0x80 \<noteq> 0
              then - sint (result AND NOT (push_bit (8 * (length vch - 1)) 0x80))
              else sint result)"

definition make_CScriptNum :: "valtype \<Rightarrow> bool \<Rightarrow> nat \<Rightarrow> scriptnum_error + CScriptNum" where
  "make_CScriptNum vch fRequireMinimal nMaxNumSize =
     (if nMaxNumSize < length vch then Inl script_number_overflow
      else if fRequireMinimal \<and> \<not> IsMinimallyEncoded vch nMaxNumSize then Inl non_minimally_encoded
      else Inr (set_vch vch))"

function abs_bytes :: "u64 \<Rightarrow> bytes" where
  "abs_bytes absvalue =
     (if absvalue = 0 then [] else ucast (absvalue AND 0xff) # abs_bytes (drop_bit 8 absvalue))"
  by pat_completeness auto

termination
proof (relation "measure unat")
  fix a :: u64
  assume "a \<noteq> 0"
  then have "0 < unat a" by (simp add: unat_gt_0)
  then have "unat a div 2 ^ 8 < unat a" by (intro div_less_dividend) auto
  then show "(drop_bit 8 a, a) \<in> measure unat" by (simp add: drop_bit_eq_div unat_div)
qed simp

declare abs_bytes.simps [simp del]

definition serialize :: "CScriptNum \<Rightarrow> valtype" where
  "serialize v =
     (if v = 0 then []
      else let neg = v < 0;
               result = abs_bytes (word_of_int (if neg then - v else v))
           in if last result AND 0x80 \<noteq> 0 then result @ [if neg then 0x80 else 0]
              else if neg then butlast result @ [last result OR 0x80]
              else result)"

definition getint :: "CScriptNum \<Rightarrow> int" where
  "getint n = (if n > 2 ^ 31 - 1 then 2 ^ 31 - 1 else if n < - (2 ^ 31) then - (2 ^ 31) else n)"

text \<open>
  \<open>MinimallyEncode\<close> shortens an encoding to the minimal one and tells whether it changed.  The loop looks
  for the highest byte below the last that is not zero; \<open>i\<close> is the index of the byte it looks at, plus one.
\<close>

fun trim_loop :: "valtype \<Rightarrow> byte \<Rightarrow> nat \<Rightarrow> valtype" where
  "trim_loop data l 0 = []"
| "trim_loop data l (Suc i) =
     (if data ! i \<noteq> 0
      then if data ! i AND 0x80 \<noteq> 0 then take (i + 2) (data[i + 1 := l])
           else take (i + 1) (data[i := data ! i OR l])
      else trim_loop data l i)"

definition MinimallyEncode :: "valtype \<Rightarrow> valtype \<times> bool" where
  "MinimallyEncode data =
     (if length data = 0 then (data, False)
      else if last data AND 0x7f \<noteq> 0 then (data, False)
      else if length data = 1 then ([], True)
      else if data ! (length data - 2) AND 0x80 \<noteq> 0 then (data, False)
      else (trim_loop data (last data) (length data - 1), True))"

section \<open>Building scripts\<close>

definition push_data :: "CScript \<Rightarrow> valtype \<Rightarrow> CScript" where
  "push_data script b =
     (if length b < unat OP_PUSHDATA1 then script @ [word_of_nat (length b)] @ b
      else if length b \<le> 0xff then script @ [OP_PUSHDATA1, word_of_nat (length b)] @ b
      else if length b \<le> 0xffff then script @ [OP_PUSHDATA2] @ WriteLE16 (word_of_nat (length b)) @ b
      else script @ [OP_PUSHDATA4] @ WriteLE32 (word_of_nat (length b)) @ b)"

definition push_opcode :: "CScript \<Rightarrow> byte \<Rightarrow> CScript" where
  "push_opcode script opcode = script @ [opcode]"

definition push_int64 :: "CScript \<Rightarrow> int \<Rightarrow> CScript" where
  "push_int64 script n =
     (if n = -1 \<or> (n \<ge> 1 \<and> n \<le> 16) then script @ [word_of_int (n + (uint OP_1 - 1))]
      else if n = 0 then script @ [OP_0]
      else push_data script (serialize n))"

text \<open>\<open>DecodeOP_N\<close> and \<open>EncodeOP_N\<close>; \<open>None\<close> is a failing assertion.\<close>

definition DecodeOP_N :: "byte \<Rightarrow> int option" where
  "DecodeOP_N opcode =
     (if opcode = OP_0 then Some 0
      else if \<not> (opcode \<ge> OP_1 \<and> opcode \<le> OP_16) then None
      else Some (uint opcode - (uint OP_1 - 1)))"

definition EncodeOP_N :: "int \<Rightarrow> byte option" where
  "EncodeOP_N n =
     (if \<not> (n \<ge> 0 \<and> n \<le> 16) then None
      else if n = 0 then Some OP_0
      else Some (word_of_int (uint OP_1 + n - 1)))"

section \<open>Reading scripts\<close>

text \<open>
  \<open>GetScriptOp\<close>: the opcode with its immediate operand, or \<open>None\<close> when the code returns false, and the
  iterator after the call.
\<close>

definition read_push :: "byte \<Rightarrow> nat \<Rightarrow> bytes \<Rightarrow> (byte \<times> valtype) option \<times> bytes" where
  "read_push opcode nSize pc =
     (if length pc < nSize then (None, pc) else (Some (opcode, take nSize pc), drop nSize pc))"

definition GetScriptOp :: "bytes \<Rightarrow> (byte \<times> valtype) option \<times> bytes" where
  "GetScriptOp pc0 =
     (case pc0 of
        [] \<Rightarrow> (None, [])
      | opcode # pc \<Rightarrow>
          if opcode \<le> OP_PUSHDATA4
          then if opcode < OP_PUSHDATA1 then read_push opcode (unat opcode) pc
               else if opcode = OP_PUSHDATA1
               then (if length pc < 1 then (None, pc) else read_push opcode (unat (pc ! 0)) (drop 1 pc))
               else if opcode = OP_PUSHDATA2
               then (if length pc < 2 then (None, pc) else read_push opcode (unat (ReadLE16 pc)) (drop 2 pc))
               else (if length pc < 4 then (None, pc) else read_push opcode (unat (ReadLE32 pc)) (drop 4 pc))
          else (Some (opcode, []), pc))"

lemma read_push_length: "length (snd (read_push opcode n pc)) \<le> length pc"
  by (auto simp: read_push_def)

lemma GetScriptOp_less: "GetScriptOp pc = (Some op, pc') \<Longrightarrow> length pc' < length pc"
  by (auto simp: GetScriptOp_def read_push_def split: list.splits if_splits)

text \<open>The signature operations of a script; \<open>fAccurate\<close> counts the keys of a multisignature.\<close>

function sigop_loop :: "bool \<Rightarrow> bytes \<Rightarrow> byte \<Rightarrow> int \<Rightarrow> int" where
  "sigop_loop fAccurate pc lastOpcode n =
     (case GetScriptOp pc of
        (Some (opcode, vch), pc') \<Rightarrow>
          sigop_loop fAccurate pc' opcode
            (if opcode = OP_CHECKSIG \<or> opcode = OP_CHECKSIGVERIFY then n + 1
             else if opcode = OP_CHECKMULTISIG \<or> opcode = OP_CHECKMULTISIGVERIFY
             then if fAccurate \<and> lastOpcode \<ge> OP_1 \<and> lastOpcode \<le> OP_16 then n + the (DecodeOP_N lastOpcode)
                  else n + MAX_PUBKEYS_PER_MULTISIG
             else n)
      | _ \<Rightarrow> n)"
  by pat_completeness auto

termination
  by (relation "measure (\<lambda>(f, pc, l, n). length pc)") (auto dest: GetScriptOp_less [OF sym])

definition GetSigOpCount :: "CScript \<Rightarrow> bool \<Rightarrow> int" where
  "GetSigOpCount script fAccurate = sigop_loop fAccurate script OP_INVALIDOPCODE 0"

definition IsPayToPublicKeyHash :: "CScript \<Rightarrow> bool" where
  "IsPayToPublicKeyHash s \<longleftrightarrow>
     length s = 25 \<and> s ! 0 = OP_DUP \<and> s ! 1 = OP_HASH160 \<and> s ! 2 = 0x14 \<and> s ! 23 = OP_EQUALVERIFY \<and>
     s ! 24 = OP_CHECKSIG"

definition IsPayToScriptHash :: "CScript \<Rightarrow> bool" where
  "IsPayToScriptHash s \<longleftrightarrow> length s = 23 \<and> s ! 0 = OP_HASH160 \<and> s ! 1 = 0x14 \<and> s ! 22 = OP_EQUAL"

definition IsPayToPublicKey :: "CScript \<Rightarrow> bool" where
  "IsPayToPublicKey s \<longleftrightarrow>
     (if length s = 35 then (s ! 1 = 0x02 \<or> s ! 1 = 0x03) \<and> s ! 34 = OP_CHECKSIG
      else if length s = 67 then s ! 1 = 0x04 \<and> s ! 66 = OP_CHECKSIG
      else False)"

function IsPushOnly :: "bytes \<Rightarrow> bool" where
  "IsPushOnly pc =
     (if pc = [] then True
      else case GetScriptOp pc of
             (None, _) \<Rightarrow> False
           | (Some (opcode, vch), pc') \<Rightarrow> if opcode > OP_16 then False else IsPushOnly pc')"
  by pat_completeness auto

termination
  by (relation "measure length") (auto dest: GetScriptOp_less [OF sym])

text \<open>
  \<open>GetSigOpCount(scriptSig)\<close>: for pay-to-script-hash, the operations of the last item pushed; \<open>None\<close> is the
  early return of 0.
\<close>

function last_push :: "bytes \<Rightarrow> valtype \<Rightarrow> valtype option" where
  "last_push pc vData =
     (if pc = [] then Some vData
      else case GetScriptOp pc of
             (None, _) \<Rightarrow> None
           | (Some (opcode, vch), pc') \<Rightarrow> if opcode > OP_16 then None else last_push pc' vch)"
  by pat_completeness auto

termination
  by (relation "measure (\<lambda>(pc, v). length pc)") (auto dest: GetScriptOp_less [OF sym])

declare sigop_loop.simps [simp del] IsPushOnly.simps [simp del] last_push.simps [simp del]

definition GetSigOpCountP2SH :: "CScript \<Rightarrow> CScript \<Rightarrow> int" where
  "GetSigOpCountP2SH script scriptSig =
     (if \<not> IsPayToScriptHash script then GetSigOpCount script True
      else case last_push scriptSig [] of None \<Rightarrow> 0 | Some vData \<Rightarrow> GetSigOpCount vData True)"

definition IsUnspendable :: "CScript \<Rightarrow> bool" where
  "IsUnspendable s \<longleftrightarrow> (length s > 0 \<and> hd s = OP_RETURN) \<or> length s > MAX_SCRIPT_SIZE"

section \<open>The numbers\<close>

text \<open>Sign and magnitude: the value an encoding of any length stands for.\<close>

definition sign_bit :: "byte \<Rightarrow> bool" where
  "sign_bit b \<longleftrightarrow> b AND 0x80 \<noteq> 0"

definition num_val :: "valtype \<Rightarrow> int" where
  "num_val vch =
     (if vch = [] then 0
      else let m = int (le_val (butlast vch @ [last vch AND 0x7f]))
           in if sign_bit (last vch) then - m else m)"

lemma sign_bit_unat: "sign_bit b \<longleftrightarrow> 128 \<le> unat b"
  by (simp add: sign_bit_def high_bit_unat)

lemma unat_or_sign: "\<not> sign_bit b \<Longrightarrow> unat (b OR 0x80 :: byte) = unat b + 128"
  by (simp add: sign_bit_unat unat_or_80)

lemma unat_or_push:
  fixes r :: u64 and b :: byte
  assumes "unat r < 2 ^ j" "j + 8 \<le> 64"
  shows "unat (r OR push_bit j (ucast b)) = unat r + 2 ^ j * unat b"
proof -
  have b: "unat (ucast b :: u64) = unat b"
    using unsigned_less [of b, where ?'a = nat] by (simp add: unsigned_ucast_eq take_bit_eq_mod)
  have "unat b * 2 ^ j < 2 ^ 8 * 2 ^ j" using unsigned_less [of b, where ?'a = nat] by simp
  also have "\<dots> \<le> 2 ^ 64" using assms(2) by (simp only: flip: power_add) (rule power_increasing; simp)
  finally have lt: "unat b * 2 ^ j < 2 ^ 64" .
  have "unat (push_bit j (ucast b :: u64)) = take_bit LENGTH(64) (push_bit j (unat b))"
    by (simp only: unsigned_push_bit_eq b)
  then have p: "unat (push_bit j (ucast b :: u64)) = push_bit j (unat b)"
    using lt by (simp only: push_bit_eq_mult take_bit_eq_mod) simp
  have "unat (r OR push_bit j (ucast b)) = unat r OR push_bit j (unat b)"
    by (simp only: unsigned_or_eq p)
  also have "\<dots> = unat r + push_bit j (unat b)"
  proof (rule disjunctive_add [symmetric])
    fix n
    show "\<not> bit (unat r) n \<or> \<not> bit (push_bit j (unat b)) n"
    proof (cases "n < j")
      case False
      then have "unat r < 2 ^ n" using assms(1) by (meson le_less_trans less_le_trans not_less one_le_numeral power_increasing)
      then show ?thesis by (simp add: bit_iff_odd)
    qed (simp add: bit_push_bit_iff)
  qed
  finally show ?thesis by (simp add: push_bit_eq_mult mult.commute)
qed

lemma or_bytes_val:
  assumes "unat r < 2 ^ (8 * i)" "i + length vch \<le> 8"
  shows "unat (or_bytes i vch r) = unat r + 2 ^ (8 * i) * le_val vch"
  using assms
proof (induction vch arbitrary: i r)
  case (Cons b vch)
  define r2 where "r2 = r OR push_bit (8 * i) (ucast b)"
  have u: "unat r2 = unat r + 2 ^ (8 * i) * unat b"
    unfolding r2_def using Cons(2,3) by (intro unat_or_push) auto
  have "unat r + 2 ^ (8 * i) * unat b < 2 ^ (8 * i) * (unat b + 1)" using Cons(2) by simp
  also have "\<dots> \<le> 2 ^ (8 * i) * 2 ^ 8"
    using unsigned_less [of b, where ?'a = nat] by (intro mult_le_mono2) simp
  finally have "unat r2 < 2 ^ (8 * Suc i)" by (simp add: u power_add)
  from Cons(1) [OF this] Cons(3) have "unat (or_bytes (Suc i) vch r2) = unat r2 + 2 ^ (8 * Suc i) * le_val vch" by simp
  moreover have "or_bytes i (b # vch) r = or_bytes (Suc i) vch r2" by (simp only: or_bytes.simps r2_def)
  ultimately show ?case by (simp add: u power_add distrib_left)
qed simp

lemma le_val_snoc: "le_val (xs @ [b :: byte]) = le_val xs + 2 ^ (8 * length xs) * unat b"
  by (simp add: le_val_append)

lemma num_val_snoc: "num_val (xs @ [b]) =
  (if sign_bit b then - int (le_val xs + 2 ^ (8 * length xs) * (unat b - 128)) else int (le_val xs + 2 ^ (8 * length xs) * unat b))"
proof -
  have "unat b mod 128 = (if sign_bit b then unat b - 128 else unat b)"
    using unsigned_less [of b, where ?'a = nat] by (auto simp: sign_bit_unat mod_if)
  then show ?thesis by (simp add: num_val_def Let_def le_val_snoc unat_and_7f)
qed

lemma clear_sign:
  fixes r :: u64 and b :: byte
  assumes "unat r < 2 ^ j" "j + 8 \<le> 64"
  shows "(r OR push_bit j (ucast b)) AND NOT (push_bit j 0x80) = r OR push_bit j (ucast (b AND 0x7f))"
proof (rule bit_word_eqI)
  fix k assume k: "k < LENGTH(64)"
  have r: "\<not> bit r k" if "j \<le> k"
  proof -
    have "unat r < 2 ^ k" using assms(1) that by (meson le_less_trans less_le_trans not_less one_le_numeral power_increasing)
    then have "\<not> bit (unat r) k" by (simp add: bit_iff_odd)
    then show ?thesis using k by (simp add: bit_unsigned_iff)
  qed
  have c: "(0x7f :: byte) = mask 7" by (simp add: mask_eq_exp_minus_1)
  have "(0x80 :: int) = 2 ^ 7" by simp
  then have d: "bit (0x80 :: int) i \<longleftrightarrow> i = 7" for i by (simp only: bit_exp_iff) auto
  have b: "bit b i \<Longrightarrow> i < 8" for i using bit_imp_le_length [of b i] by simp
  show "bit ((r OR push_bit j (ucast b)) AND NOT (push_bit j 0x80)) k = bit (r OR push_bit j (ucast (b AND 0x7f))) k"
    unfolding c using k r by (auto simp: bit_simps d dest: b)
qed

lemma or_bytes_snoc: "or_bytes i (xs @ [b]) r = or_bytes i xs r OR push_bit (8 * (i + length xs)) (ucast b)"
  by (induction i xs r rule: or_bytes.induct) simp_all

lemma sint_small:
  assumes "unat (r :: u64) < 2 ^ 63"
  shows "sint r = int (unat r)"
proof -
  have u: "uint r = int (unat r)" by (rule uint_nat)
  have lt: "uint r < 2 ^ 63" using assms by (simp only: u of_nat_less_numeral_power_cancel_iff)
  have "sint r = signed_take_bit 63 (uint r)" by (simp only: sint_uint) simp
  also have "\<dots> = uint r" using lt uint_ge_0 [of r] by (intro signed_take_bit_int_eq_self) linarith+
  finally show ?thesis by (simp only: u)
qed

lemma set_vch_num:
  assumes "length vch \<le> 8"
  shows "set_vch vch = num_val vch"
proof (cases vch rule: rev_cases)
  case (snoc xs b)
  let ?n = "length xs" and ?c = "b AND 0x7f"
  have n: "?n \<le> 7" using assms snoc by simp
  have r1: "unat (or_bytes 0 xs 0) = le_val xs" using or_bytes_val [of 0 0 xs] n by simp
  have lt: "le_val xs < 2 ^ (8 * ?n)" using le_val_less [of xs] by simp
  have bound: "le_val xs + 2 ^ (8 * ?n) * m < 2 ^ 63" if "m < 128" for m
  proof -
    have "le_val xs + 2 ^ (8 * ?n) * m < 2 ^ (8 * ?n) * (m + 1)" using lt by simp
    also have "\<dots> \<le> 2 ^ (8 * ?n) * 2 ^ 7" using that by (intro mult_le_mono2) simp
    also have "\<dots> \<le> 2 ^ 63" using n by (simp only: flip: power_add) (rule power_increasing; simp)
    finally show ?thesis .
  qed
  show ?thesis
  proof (cases "sign_bit b")
    case False
    then have u: "unat (or_bytes 0 (xs @ [b]) 0) = le_val xs + 2 ^ (8 * ?n) * unat b"
      using or_bytes_val [of 0 0 "xs @ [b]"] n by (simp add: le_val_snoc)
    then have "sint (or_bytes 0 (xs @ [b]) 0) = int (le_val xs + 2 ^ (8 * ?n) * unat b)"
      using bound [of "unat b"] False by (subst sint_small) (auto simp: sign_bit_unat)
    then show ?thesis using False snoc by (simp add: set_vch_def num_val_snoc sign_bit_def)
  next
    case True
    have "or_bytes 0 (xs @ [b]) 0 AND NOT (push_bit (8 * ?n) 0x80) = or_bytes 0 (xs @ [?c]) 0"
      using clear_sign [of "or_bytes 0 xs 0" "8 * ?n" b] r1 lt n by (simp only: or_bytes_snoc add_0)
    moreover have u: "unat (or_bytes 0 (xs @ [?c]) 0) = le_val xs + 2 ^ (8 * ?n) * (unat b - 128)"
      using or_bytes_val [of 0 0 "xs @ [?c]"] n True unsigned_less [of b, where ?'a = nat]
      by (simp add: le_val_snoc unat_and_7f sign_bit_unat mod_if)
    moreover have "sint (or_bytes 0 (xs @ [?c]) 0) = int (le_val xs + 2 ^ (8 * ?n) * (unat b - 128))"
      using bound [of "unat b - 128"] unsigned_less [of b, where ?'a = nat] u by (subst sint_small) auto
    ultimately have "set_vch vch = - int (le_val xs + 2 ^ (8 * ?n) * (unat b - 128))"
      using True snoc unfolding set_vch_def Let_def sign_bit_def by (simp only: last_snoc length_append_singleton diff_Suc_1) simp
    then show ?thesis using True snoc by (simp add: num_val_snoc)
  qed
qed (simp add: set_vch_def num_val_def)

lemma abs_bytes_0 [simp]: "abs_bytes 0 = []"
  by (subst abs_bytes.simps) simp

lemma ucast_low: "unat (ucast (a AND 0xff) :: byte) = unat (a :: u64) mod 256"
proof -
  have "a AND 0xff = take_bit 8 a" by (simp add: take_bit_eq_mask mask_eq_exp_minus_1)
  then have "unat (ucast (a AND 0xff) :: byte) = take_bit 8 (take_bit 8 (unat a))"
    by (simp only: unsigned_ucast_eq unsigned_take_bit_eq len_bit0 len_num1) simp
  then show ?thesis by (simp add: take_bit_eq_mod)
qed

lemma unat_drop8: "unat (drop_bit 8 (a :: u64)) = unat a div 256"
  by (simp add: drop_bit_eq_div unat_div)

lemma abs_bytes_step: "a \<noteq> 0 \<Longrightarrow> abs_bytes a = ucast (a AND 0xff) # abs_bytes (drop_bit 8 a)"
  by (subst abs_bytes.simps) simp

lemma abs_bytes_val: "le_val (abs_bytes a) = unat a"
proof (induction a rule: abs_bytes.induct)
  case (1 a)
  show ?case
  proof (cases "a = 0")
    case False
    have "le_val (abs_bytes a) = unat a mod 256 + 256 * (unat a div 256)"
      unfolding abs_bytes_step [OF False] le_val.simps 1 [OF False] ucast_low unat_drop8 by simp
    then show ?thesis by simp
  qed simp
qed

lemma abs_bytes_last: "a \<noteq> 0 \<Longrightarrow> abs_bytes a \<noteq> [] \<and> last (abs_bytes a) \<noteq> 0"
proof (induction a rule: abs_bytes.induct)
  case (1 a)
  show ?case
  proof (cases "drop_bit 8 a = 0")
    case True
    then have "unat a div 256 = 0" using unat_drop8 [of a] by simp
    then have "unat a mod 256 = unat a" "unat a \<noteq> 0" using 1(2) by (auto simp: unat_eq_0)
    then have "ucast (a AND 0xff) \<noteq> (0 :: byte)" using ucast_low [of a] by (metis unsigned_0)
    then show ?thesis using True abs_bytes_step [OF 1(2)] by simp
  next
    case False
    then show ?thesis using 1(1) [OF 1(2)] abs_bytes_step [OF 1(2)] by simp
  qed
qed

lemma byte_cases: "unat (b :: byte) mod 128 = 0 \<longleftrightarrow> b = 0 \<or> b = 0x80"
proof
  assume a: "unat b mod 128 = 0"
  then obtain k where k: "unat b = 128 * k" by (metis mod_0_imp_dvd dvdE)
  then have "k < 2" using unsigned_less [of b, where ?'a = nat] by simp
  then have "unat b = 0 \<or> unat b = 128" using k by (auto simp: less_2_cases_iff)
  then show "b = 0 \<or> b = 0x80" by (simp add: word_unat_eq_iff)
qed auto

lemma sign_bit_simps [simp]: "sign_bit 0x80" "\<not> sign_bit 0"
  by (simp_all add: sign_bit_def)

lemma sign_bit_bit: "sign_bit b \<longleftrightarrow> bit b 7"
proof -
  have "unat b < 128 * 2" using unsigned_less [of b, where ?'a = nat] by simp
  then have "unat b div 128 < 2" by (simp add: less_mult_imp_div_less mult.commute)
  then have "sign_bit b \<longleftrightarrow> odd (unat b div 128)"
    by (auto simp: sign_bit_unat less_2_cases_iff div_eq_0_iff not_le)
  also have "\<dots> \<longleftrightarrow> bit (unat b) 7" by (simp add: bit_iff_odd)
  finally show ?thesis by (simp add: bit_unsigned_iff)
qed

lemma sign_bit_or [simp]: "sign_bit (b OR 0x80)"
  by (simp add: sign_bit_bit bit_or_iff)

lemma sign_bit_7f [simp]: "\<not> sign_bit (b AND 0x7f)"
  by (simp add: sign_bit_unat unat_and_7f not_le)

lemma restore_sign: "sign_bit b \<Longrightarrow> (b AND 0x7f) OR 0x80 = b"
proof -
  assume b: "sign_bit b"
  have "unat b mod 128 = unat b - 128"
    using b unsigned_less [of b, where ?'a = nat] by (simp add: sign_bit_unat mod_if)
  then show ?thesis using unat_or_sign [of "b AND 0x7f"] b by (simp add: word_unat_eq_iff unat_and_7f sign_bit_unat)
qed

lemma keep_7f: "\<not> sign_bit b \<Longrightarrow> b AND 0x7f = b"
  by (simp add: word_unat_eq_iff unat_and_7f sign_bit_unat)

text \<open>The shape of a minimal encoding.\<close>

lemma minimal_snoc:
  "IsMinimallyEncoded (xs @ [b]) n \<longleftrightarrow> length xs < n \<and> (unat b mod 128 \<noteq> 0 \<or> xs \<noteq> [] \<and> sign_bit (last xs))"
proof -
  have "(b AND 0x7f = 0) = (unat b mod 128 = 0)" by (metis unat_and_7f unat_eq_0)
  moreover have "(xs @ [b]) ! (length xs - 1) = last xs" if "xs \<noteq> []"
    using that by (simp add: nth_append last_conv_nth)
  ultimately show ?thesis
    by (cases "xs = []") (auto simp: IsMinimallyEncoded_def sign_bit_def not_less)
qed

lemma minimal_Nil [simp]: "IsMinimallyEncoded [] n"
  by (simp add: IsMinimallyEncoded_def)

section \<open>Encoding and decoding numbers\<close>

definition canonical :: "bytes \<Rightarrow> bool" where
  "canonical r \<longleftrightarrow> r = [] \<or> last r \<noteq> 0"

lemma canonical_Cons: "canonical (x # r) \<Longrightarrow> canonical r"
  by (auto simp: canonical_def split: if_splits)

lemma canonical_zero: "canonical r \<Longrightarrow> le_val r = 0 \<Longrightarrow> r = []"
  by (metis canonical_def last_in_set le_val_eq_0_iff)

lemma canonical_inject: "canonical r \<Longrightarrow> canonical s \<Longrightarrow> le_val r = le_val s \<Longrightarrow> r = s"
proof (induction r arbitrary: s)
  case Nil
  then show ?case using canonical_zero [of s] by simp
next
  case (Cons x r)
  then obtain y s' where s: "s = y # s'" using canonical_zero [of "x # r"] by (cases s) auto
  have e: "unat x + 256 * le_val r = unat y + 256 * le_val s'" using Cons(4) s by simp
  have "unat x < 256" "unat y < 256" using unsigned_less [of x, where ?'a = nat] unsigned_less [of y, where ?'a = nat] by simp_all
  then have "unat x = unat y" "le_val r = le_val s'"
    using arg_cong [OF e, of "\<lambda>n. n mod 256"] arg_cong [OF e, of "\<lambda>n. n div 256"] by simp_all
  then show ?case using Cons canonical_Cons s by (auto simp: word_unat_eq_iff)
qed

lemma canonical_abs: "canonical (abs_bytes a)"
  using abs_bytes_last [of a] by (cases "a = 0") (auto simp: canonical_def)

lemma abs_bytes_unique: "canonical r \<Longrightarrow> length r \<le> 8 \<Longrightarrow> abs_bytes (word_of_nat (le_val r)) = r"
proof (rule canonical_inject [OF canonical_abs])
  assume "canonical r" "length r \<le> 8"
  have "le_val r < 2 ^ (8 * length r)" using le_val_less [of r] by simp
  also have "\<dots> \<le> 2 ^ 64" using \<open>length r \<le> 8\<close> by (intro power_increasing) auto
  finally show "le_val (abs_bytes (word_of_nat (le_val r))) = le_val r"
    by (simp only: abs_bytes_val unat_of_nat len_bit0 len_num1) simp
qed

text \<open>\<open>serialize\<close> on the magnitude's bytes.\<close>

definition with_sign :: "bool \<Rightarrow> bytes \<Rightarrow> bytes" where
  "with_sign neg r =
     (if sign_bit (last r) then r @ [if neg then 0x80 else 0]
      else if neg then butlast r @ [last r OR 0x80] else r)"

lemma serialize_with_sign:
  assumes "v \<noteq> 0" "\<bar>v\<bar> < 2 ^ 63"
  obtains r where "serialize v = with_sign (v < 0) r" "canonical r" "r \<noteq> []" "int (le_val r) = \<bar>v\<bar>"
proof
  let ?w = "word_of_int (if v < 0 then - v else v) :: u64"
  have "?w = word_of_nat (nat \<bar>v\<bar>)" by auto
  moreover have "nat \<bar>v\<bar> < 2 ^ 64" using assms(2) by (simp add: nat_less_iff)
  ultimately have w: "unat ?w = nat \<bar>v\<bar>" by (simp only: unat_of_nat len_bit0 len_num1) simp
  show "serialize v = with_sign (v < 0) (abs_bytes ?w)"
    using assms(1) by (simp add: serialize_def with_sign_def Let_def sign_bit_def)
  show "canonical (abs_bytes ?w)" by (rule canonical_abs)
  show "int (le_val (abs_bytes ?w)) = \<bar>v\<bar>" by (simp only: abs_bytes_val w)
  then show "abs_bytes ?w \<noteq> []" using assms(1) by auto
qed

lemma with_sign_num:
  assumes "r \<noteq> []"
  shows "num_val (with_sign neg r) = (if neg then - int (le_val r) else int (le_val r))"
proof -
  obtain xs b where r: "r = xs @ [b]" using assms by (metis append_butlast_last_id)
  show ?thesis
  proof (cases "sign_bit b")
    case True
    then show ?thesis using r num_val_snoc [of r] by (simp add: with_sign_def)
  next
    case False
    then show ?thesis using r by (auto simp: with_sign_def num_val_snoc le_val_snoc unat_or_sign)
  qed
qed

lemma with_sign_minimal:
  assumes "canonical r" "r \<noteq> []"
  shows "IsMinimallyEncoded (with_sign neg r) n \<longleftrightarrow> length (with_sign neg r) \<le> n"
proof -
  obtain xs b where r: "r = xs @ [b]" "b \<noteq> 0" using assms by (metis append_butlast_last_id canonical_def)
  show ?thesis
  proof (cases "sign_bit b")
    case True
    then show ?thesis using r minimal_snoc [of r] by (auto simp: with_sign_def)
  next
    case False
    then have "0 < unat b" "unat b < 128" using r(2) by (auto simp: sign_bit_unat unat_gt_0)
    then have m: "unat b mod 128 \<noteq> 0" "unat (b OR 0x80) mod 128 \<noteq> 0" using unat_or_sign [OF False] by simp_all
    then show ?thesis using False r minimal_snoc [of xs] by (auto simp: with_sign_def)
  qed
qed

lemma with_sign_length:
  assumes "canonical r" "r \<noteq> []" "le_val r < 2 ^ (8 * k - 1)" "0 < k"
  shows "length (with_sign neg r) \<le> k"
proof -
  obtain xs b where r: "r = xs @ [b]" "b \<noteq> 0" using assms by (metis append_butlast_last_id canonical_def)
  have v: "le_val r = le_val xs + 2 ^ (8 * length xs) * unat b" using r le_val_snoc by simp
  show ?thesis
  proof (cases "sign_bit b")
    case True
    then have "2 ^ (8 * length xs) * 2 ^ 7 \<le> le_val r" using v by (simp add: sign_bit_unat trans_le_add2)
    then have "2 ^ (8 * length xs + 7) < (2 :: nat) ^ (8 * k - 1)" using assms(3) by (simp only: flip: power_add)
    then have "8 * length xs + 7 < 8 * k - 1" by simp
    then show ?thesis using True r by (simp add: with_sign_def)
  next
    case False
    have "0 < unat b" using r(2) by (simp add: unat_gt_0)
    then have "2 ^ (8 * length xs) \<le> le_val r" using v by (simp add: trans_le_add2)
    then have "2 ^ (8 * length xs) < (2 :: nat) ^ (8 * k - 1)" using assms(3) by (rule le_less_trans)
    then have "8 * length xs < 8 * k - 1" by simp
    then show ?thesis using False r by (simp add: with_sign_def)
  qed
qed

lemma serialize_num:
  assumes "\<bar>v\<bar> < 2 ^ 63"
  shows "num_val (serialize v) = v"
  using assms
  by (cases "v = 0") (simp add: serialize_def num_val_def, metis serialize_with_sign with_sign_num abs_if minus_minus)

lemma serialize_minimal:
  assumes "\<bar>v\<bar> < 2 ^ 63"
  shows "IsMinimallyEncoded (serialize v) n \<longleftrightarrow> length (serialize v) \<le> n"
  using assms by (cases "v = 0") (simp add: serialize_def, metis serialize_with_sign with_sign_minimal)

lemma serialize_length:
  assumes "\<bar>v\<bar> < 2 ^ (8 * k - 1)" "0 < k" "k \<le> 8"
  shows "length (serialize v) \<le> k"
proof (cases "v = 0")
  case False
  have "(2 :: int) ^ (8 * k - 1) \<le> 2 ^ 63" using assms(2,3) by (intro power_increasing) auto
  then have "\<bar>v\<bar> < 2 ^ 63" using assms(1) by linarith
  then obtain r where r: "serialize v = with_sign (v < 0) r" "canonical r" "r \<noteq> []" "int (le_val r) = \<bar>v\<bar>"
    using serialize_with_sign [OF False] by blast
  have "int (le_val r) < 2 ^ (8 * k - 1)" using assms(1) r(4) by simp
  then have "le_val r < 2 ^ (8 * k - 1)" by (simp only: of_nat_less_numeral_power_cancel_iff)
  then show ?thesis using with_sign_length [OF r(2,3) _ assms(2)] r(1) by simp
qed (simp add: serialize_def)

lemma minimal_with_sign:
  assumes "IsMinimallyEncoded vch n" "vch \<noteq> []"
  shows "\<exists>r neg. vch = with_sign neg r \<and> canonical r \<and> r \<noteq> [] \<and> length r \<le> length vch"
proof -
  obtain xs b where v: "vch = xs @ [b]" using assms(2) by (metis append_butlast_last_id)
  show ?thesis
  proof (cases "unat b mod 128 = 0")
    case True
    then have x: "xs \<noteq> []" "sign_bit (last xs)" using assms(1) v minimal_snoc by auto
    have b: "b = (if sign_bit b then 0x80 else 0)" using True byte_cases [of b] by auto
    have "canonical xs" using x by (auto simp: canonical_def)
    then show ?thesis using x b v by (intro exI [of _ xs] exI [of _ "sign_bit b"]) (simp add: with_sign_def)
  next
    case False
    let ?r = "xs @ [b AND 0x7f]"
    have "b AND 0x7f \<noteq> 0" using False by (metis unat_and_7f unat_eq_0)
    then show ?thesis
      using v restore_sign [of b] keep_7f [of b]
      by (intro exI [of _ ?r] exI [of _ "sign_bit b"]) (simp add: with_sign_def canonical_def)
  qed
qed

lemma serialize_minimal_id:
  assumes "IsMinimallyEncoded vch n" "length vch \<le> 7"
  shows "serialize (num_val vch) = vch"
proof (cases "vch = []")
  case False
  obtain r neg where r: "vch = with_sign neg r" "canonical r" "r \<noteq> []" "length r \<le> length vch"
    using minimal_with_sign [OF assms(1) False] by blast
  have nz: "le_val r \<noteq> 0" using canonical_zero r(2,3) by blast
  have v: "num_val vch = (if neg then - int (le_val r) else int (le_val r))" using r(1) with_sign_num [OF r(3)] by simp
  have "le_val r < 2 ^ (8 * length r)" using le_val_less [of r] by simp
  also have "\<dots> \<le> 2 ^ 56" using r(4) assms(2) by (intro power_increasing) auto
  finally have lt: "\<bar>num_val vch\<bar> < 2 ^ 63" "num_val vch \<noteq> 0" using v nz by auto
  obtain s where s: "serialize (num_val vch) = with_sign (num_val vch < 0) s" "canonical s" "s \<noteq> []" "int (le_val s) = \<bar>num_val vch\<bar>"
    by (rule serialize_with_sign [OF lt(2,1)])
  have "int (le_val s) = int (le_val r)" using s(4) v by auto
  then have "s = r" using canonical_inject [OF s(2) r(2)] by simp
  moreover have "(num_val vch < 0) = neg" using v nz by auto
  ultimately show ?thesis using s(1) r(1) by simp
qed (simp add: serialize_def num_val_def)

text \<open>Zero bytes above a position do not count.\<close>

lemma le_val_take:
  assumes "i \<le> length xs" "\<And>j. i \<le> j \<Longrightarrow> j < length xs \<Longrightarrow> xs ! j = 0"
  shows "le_val xs = le_val (take i (xs :: bytes))"
proof -
  have "le_val (drop i xs) = 0"
    using assms(2) by (auto simp: le_val_eq_0_iff in_set_conv_nth)
  then show ?thesis using le_val_append [of "take i xs" "drop i xs"] by simp
qed

lemma trim_loop_ok:
  assumes "i \<le> length xs" "\<And>j. i \<le> j \<Longrightarrow> j < length xs \<Longrightarrow> xs ! j = 0" "l = 0 \<or> l = 0x80"
  shows "num_val (trim_loop (xs @ [l]) l i) = num_val (xs @ [l]) \<and> length (trim_loop (xs @ [l]) l i) \<le> i + 1 \<and>
    (length (trim_loop (xs @ [l]) l i) \<le> n \<longrightarrow> IsMinimallyEncoded (trim_loop (xs @ [l]) l i) n)"
  using assms(1,2)
proof (induction i)
  case 0
  then have "le_val xs = 0" using le_val_take [of 0 xs] by simp
  then show ?case using assms(3) by (auto simp: num_val_snoc num_val_def [of "[]"])
next
  case (Suc i)
  have i: "i < length xs" using Suc(2) by simp
  have d: "(xs @ [l]) ! i = xs ! i" using i by (simp add: nth_append)
  have v: "le_val xs = le_val (take (Suc i) xs)" by (rule le_val_take [OF Suc(2)]) (use Suc(3) in auto)
  have t: "take (Suc i) xs = take i xs @ [xs ! i]" using i by (simp add: take_Suc_conv_app_nth)
  have v2: "le_val xs = le_val (take i xs) + 2 ^ (8 * i) * unat (xs ! i)"
    unfolding v t le_val_snoc using i by simp
  show ?case
  proof (cases "xs ! i = 0")
    case True
    have z: "xs ! j = 0" if "i \<le> j" "j < length xs" for j using that True Suc(3) [of j] by (cases "j = i") auto
    then show ?thesis using Suc(1) z i True d by auto
  next
    case nz: False
    show ?thesis
    proof (cases "sign_bit (xs ! i)")
      case True
      have r: "trim_loop (xs @ [l]) l (Suc i) = take (Suc i) xs @ [l]"
        using nz True d i by (auto simp: sign_bit_def list_update_append take_Suc_conv_app_nth nth_append not_less
          intro: nth_equalityI)
      have "last (take (Suc i) xs) = xs ! i" using t by simp
      then show ?thesis unfolding r
        using True i v assms(3) by (auto simp: num_val_snoc minimal_snoc)
    next
      case False
      have r: "trim_loop (xs @ [l]) l (Suc i) = take i xs @ [xs ! i OR l]"
        using nz False d i by (auto simp: sign_bit_def list_update_append take_Suc_conv_app_nth)
      have "0 < unat (xs ! i)" "unat (xs ! i) < 128" using nz False by (auto simp: unat_gt_0 sign_bit_unat)
      then have "unat (xs ! i OR l) mod 128 \<noteq> 0" using assms(3) unat_or_sign [OF False] by auto
      then show ?thesis unfolding r
        using False i v2 assms(3) unat_or_sign [OF False] by (auto simp: num_val_snoc minimal_snoc)
    qed
  qed
qed

lemma MinimallyEncode_ok:
  "num_val (fst (MinimallyEncode data)) = num_val data \<and> length (fst (MinimallyEncode data)) \<le> length data \<and>
   (length (fst (MinimallyEncode data)) \<le> n \<longrightarrow> IsMinimallyEncoded (fst (MinimallyEncode data)) n)"
proof (cases data rule: rev_cases)
  case (snoc xs l)
  have m: "l AND 0x7f \<noteq> 0 \<longleftrightarrow> unat l mod 128 \<noteq> 0" by (metis unat_and_7f unat_eq_0)
  show ?thesis
  proof (cases "unat l mod 128 = 0 \<and> xs \<noteq> [] \<and> \<not> sign_bit (last xs)")
    case True
    then have "xs ! (length xs - 1) = last xs" by (simp add: last_conv_nth)
    then have "fst (MinimallyEncode data) = trim_loop (xs @ [l]) l (length xs)"
      using True snoc m by (simp add: MinimallyEncode_def sign_bit_def nth_append)
    moreover have "l = 0 \<or> l = 0x80" using True byte_cases by auto
    ultimately show ?thesis using trim_loop_ok [of "length xs" xs l n] snoc by simp
  next
    case False
    show ?thesis
    proof (cases "unat l mod 128 = 0 \<and> xs = []")
      case True
      then have "l = 0 \<or> l = 0x80" using byte_cases by auto
      then show ?thesis using True snoc m num_val_snoc [of "[]" l] by (auto simp: MinimallyEncode_def num_val_def [of "[]"])
    next
      case False
      then have "fst (MinimallyEncode data) = data" "unat l mod 128 \<noteq> 0 \<or> xs \<noteq> [] \<and> sign_bit (last xs)"
        using snoc m \<open>\<not> (unat l mod 128 = 0 \<and> xs \<noteq> [] \<and> \<not> sign_bit (last xs))\<close>
        by (auto simp: MinimallyEncode_def sign_bit_def nth_append last_conv_nth)
      then show ?thesis using snoc by (auto simp: minimal_snoc)
    qed
  qed
qed (simp add: MinimallyEncode_def)

section \<open>Pushing and reading data\<close>

lemma GetScriptOp_push:
  assumes "length b < 2 ^ 32"
  shows "\<exists>opcode. GetScriptOp (push_data [] b @ rest) = (Some (opcode, b), rest) \<and> opcode \<le> OP_PUSHDATA4"
proof -
  have h: "GetScriptOp (w # b @ rest) = (Some (w, b), rest)" if "length b < 76" "w = word_of_nat (length b)" for w
  proof -
    have "unat w = length b" using that by (simp add: unat_of_nat)
    moreover have "w < OP_PUSHDATA1" "w \<le> OP_PUSHDATA4"
      using that by (simp_all add: opcodes word_of_nat_less_iff word_of_nat_less_eq_iff word_less_nat_alt word_le_nat_alt unat_of_nat)
    ultimately show ?thesis by (simp add: GetScriptOp_def read_push_def)
  qed
  consider "length b < 76" | "76 \<le> length b" "length b \<le> 255" | "255 < length b" "length b \<le> 65535" | "65535 < length b"
    by linarith
  then show ?thesis
  proof cases
    case 1
    then have "push_data [] b = word_of_nat (length b) # b" by (simp add: push_data_def opcodes)
    moreover have "(word_of_nat (length b) :: byte) \<le> OP_PUSHDATA4"
      using 1 by (simp add: opcodes word_le_nat_alt unat_of_nat)
    ultimately show ?thesis using h [OF 1] by auto
  next
    case 2
    then show ?thesis by (auto simp: push_data_def opcodes GetScriptOp_def read_push_def unat_of_nat)
  next
    case 3
    then show ?thesis by (auto simp: push_data_def opcodes GetScriptOp_def read_push_def unat_of_nat)
  next
    case 4
    then show ?thesis using assms by (auto simp: push_data_def opcodes GetScriptOp_def read_push_def unat_of_nat)
  qed
qed

lemma push_data_append: "push_data s b = s @ push_data [] b"
  by (simp add: push_data_def)

section \<open>Signature operations\<close>

lemma DecodeOP_N_bound: "OP_1 \<le> opcode \<Longrightarrow> opcode \<le> OP_16 \<Longrightarrow> \<exists>k. DecodeOP_N opcode = Some k \<and> 1 \<le> k \<and> k \<le> 16"
  by (auto simp: DecodeOP_N_def opcodes word_le_def)

lemma sigop_loop_accurate: "m \<le> n \<Longrightarrow> sigop_loop True pc l m \<le> sigop_loop False pc l n"
proof (induction True pc l m arbitrary: n rule: sigop_loop.induct)
  case (1 pc l m)
  show ?case
  proof (cases "fst (GetScriptOp pc)")
    case None
    then show ?thesis using 1(2) by (subst (1 2) sigop_loop.simps) (auto split: prod.splits)
  next
    case (Some ov)
    then obtain opcode vch pc' where g: "GetScriptOp pc = (Some (opcode, vch), pc')" by (metis prod.collapse)
    have "l \<ge> OP_1 \<and> l \<le> OP_16 \<Longrightarrow> the (DecodeOP_N l) \<le> MAX_PUBKEYS_PER_MULTISIG"
      using DecodeOP_N_bound [of l] by (auto simp: MAX_PUBKEYS_PER_MULTISIG_def)
    then show ?thesis using 1(1) [OF g [symmetric] refl refl] 1(2) by (subst (1 2) sigop_loop.simps) (auto simp: g)
  qed
qed

section \<open>Properties\<close>

lemma num_val_bound:
  assumes "length vch \<le> k" "0 < k"
  shows "\<bar>num_val vch\<bar> < 2 ^ (8 * k - 1)"
proof (cases vch rule: rev_cases)
  case (snoc xs b)
  let ?m = "le_val xs + 2 ^ (8 * length xs) * (unat b mod 128)"
  have "num_val vch = (if sign_bit b then - int ?m else int ?m)"
    using snoc by (simp add: num_val_def Let_def le_val_snoc unat_and_7f)
  then have "\<bar>num_val vch\<bar> = int ?m" by (simp only: abs_minus_cancel abs_of_nat split: if_split) blast
  moreover have "?m < 2 ^ (8 * length xs) * (unat b mod 128 + 1)" using le_val_less [of xs] by simp
  moreover have "2 ^ (8 * length xs) * (unat b mod 128 + 1) \<le> 2 ^ (8 * length xs) * (2 :: nat) ^ 7"
    by (intro mult_le_mono2) (simp add: less_imp_Suc_add Suc_leI)
  moreover have "(2 :: nat) ^ (8 * length xs) * 2 ^ 7 \<le> 2 ^ (8 * k - 1)"
    unfolding power_add [symmetric] using assms snoc by (intro power_increasing) auto
  ultimately have "\<bar>num_val vch\<bar> < int (2 ^ (8 * k - 1))" by linarith
  then show ?thesis by simp
qed (simp add: num_val_def)

text \<open>
  C28: Script numbers and their minimal encodings correspond one to one: with a limit of \<open>k\<close> bytes (4 for the numeric
  opcodes, 5 for the lock-time opcodes) every number below \<open>2 ^ (8 k - 1)\<close> in magnitude is read back from its
  serialization, and a string is accepted as a number only if it is the serialization of the number it is read as,
  which is in that range.
\<close>

theorem CScriptNum_roundtrip:
  assumes "0 < k" "k \<le> 7"
  shows "(\<bar>v\<bar> < 2 ^ (8 * k - 1) \<longrightarrow> make_CScriptNum (serialize v) True k = Inr v) \<and>
    (make_CScriptNum vch True k = Inr v \<longrightarrow> serialize v = vch \<and> \<bar>v\<bar> < 2 ^ (8 * k - 1))"
proof (intro conjI impI)
  assume v: "\<bar>v\<bar> < 2 ^ (8 * k - 1)"
  have "(2 :: int) ^ (8 * k - 1) \<le> 2 ^ 63" using assms by (intro power_increasing) auto
  then have "\<bar>v\<bar> < 2 ^ 63" using v by linarith
  then show "make_CScriptNum (serialize v) True k = Inr v"
    using serialize_length [OF v] serialize_minimal [of v k] serialize_num [of v] set_vch_num [of "serialize v"] assms
    by (simp add: make_CScriptNum_def)
next
  assume "make_CScriptNum vch True k = Inr v"
  then have vch: "length vch \<le> k" "IsMinimallyEncoded vch k" "v = set_vch vch"
    by (auto simp: make_CScriptNum_def split: if_splits)
  then have v: "v = num_val vch" using assms set_vch_num by simp
  show "serialize v = vch" using serialize_minimal_id [OF vch(2)] vch(1) assms v by simp
  show "\<bar>v\<bar> < 2 ^ (8 * k - 1)" using num_val_bound [OF vch(1) assms(1)] v by simp
qed

theorem CScriptNum_roundtrip_witness:
  "make_CScriptNum (serialize (-255)) True nDefaultMaxNumSize = Inr (-255)"
  using CScriptNum_roundtrip [of 4 "-255"] by (simp add: nDefaultMaxNumSize_def)

text \<open>
  \<open>MinimallyEncode\<close> (the work of \<open>OP_BIN2NUM\<close> and \<open>OP_NUM2BIN\<close>) keeps the number a byte string of any length
  stands for, never lengthens it, and produces a minimal encoding.
\<close>

theorem MinimallyEncode_correct:
  "num_val (fst (MinimallyEncode data)) = num_val data \<and>
   length (fst (MinimallyEncode data)) \<le> length data \<and>
   IsMinimallyEncoded (fst (MinimallyEncode data)) (length data)"
  using MinimallyEncode_ok [of data "length data"] by blast

text \<open>
  What a script pushes is what is read back: after the bytes that \<open>CScript::operator<<\<close> appends for a data
  element (with a direct push, \<open>OP_PUSHDATA1\<close>, \<open>OP_PUSHDATA2\<close> or \<open>OP_PUSHDATA4\<close> by its size), \<open>GetScriptOp\<close> returns that
  element, a push opcode, and the rest of the script.
\<close>

theorem GetScriptOp_reads_push:
  assumes "length b < 2 ^ 32"
  shows "\<exists>opcode. GetScriptOp (drop (length script) (push_data script b @ rest)) = (Some (opcode, b), rest)
    \<and> opcode \<le> OP_PUSHDATA4"
  using GetScriptOp_push [OF assms] push_data_append [of script b] by simp

theorem GetScriptOp_reads_push_witness:
  "\<exists>opcode. GetScriptOp (drop (length [OP_DUP]) (push_data [OP_DUP] [1, 2, 3] @ [OP_EQUAL])) = (Some (opcode, [1, 2, 3]), [OP_EQUAL])
    \<and> opcode \<le> OP_PUSHDATA4"
  by (rule GetScriptOp_reads_push) simp

text \<open>
  The accurate count of signature operations (keys of \<open>OP_N OP_CHECKMULTISIG\<close> counted as \<open>N\<close>) never exceeds
  the legacy count, which charges twenty for each multisignature.
\<close>

theorem GetSigOpCount_accurate_le: "GetSigOpCount script True \<le> GetSigOpCount script False"
  by (simp add: GetSigOpCount_def sigop_loop_accurate)

end
