(* ===== verification/Interpreter.thy ===== *)
theory Interpreter
  imports Script "HOL-Library.Signed_Division"
begin

text \<open>
  The script interpreter, \<^verbatim>\<open>src/src/script/interpreter.{h,cpp}\<close>: the signature and key encoding checks,
  \<open>FindAndDelete\<close>, \<open>EvalScript\<close> with one definition for each group of opcodes of its switch, and \<open>VerifyScript\<close>.

  The stack and the alternative stack are lists with their top first (\<open>stacktop(-1)\<close> is the head), \<open>vfExec\<close> has the
  innermost conditional first.  A result \<open>Inl e\<close> is the return of false with the script error \<open>e\<close>; the exceptions of
  \<open>CScriptNum\<close> are caught by \<open>EvalScript\<close> and give \<open>SCRIPT_ERR_UNKNOWN_ERROR\<close>.  The signature checker that \<open>EvalScript\<close>
  is given is the record \<open>BaseSignatureChecker\<close>; the elliptic-curve operations of the secp256k1 library and the hash
  functions are the record \<open>crypto\<close>.
\<close>

unbundle bit_operations_syntax

named_theorems flag_defs "the values of the verification flags"

section \<open>Errors and flags\<close>

datatype ScriptError =
  SCRIPT_ERR_OK | SCRIPT_ERR_UNKNOWN_ERROR | SCRIPT_ERR_EVAL_FALSE | SCRIPT_ERR_OP_RETURN
  | SCRIPT_ERR_SCRIPT_SIZE | SCRIPT_ERR_PUSH_SIZE | SCRIPT_ERR_OP_COUNT | SCRIPT_ERR_STACK_SIZE
  | SCRIPT_ERR_SIG_COUNT | SCRIPT_ERR_PUBKEY_COUNT
  | SCRIPT_ERR_VERIFY | SCRIPT_ERR_EQUALVERIFY | SCRIPT_ERR_CHECKMULTISIGVERIFY | SCRIPT_ERR_CHECKSIGVERIFY
  | SCRIPT_ERR_CHECKDATASIGVERIFY | SCRIPT_ERR_NUMEQUALVERIFY
  | SCRIPT_ERR_BAD_OPCODE | SCRIPT_ERR_DISABLED_OPCODE | SCRIPT_ERR_INVALID_STACK_OPERATION
  | SCRIPT_ERR_INVALID_ALTSTACK_OPERATION | SCRIPT_ERR_UNBALANCED_CONDITIONAL
  | SCRIPT_ERR_INVALID_SPLIT_RANGE | SCRIPT_ERR_INVALID_OPERAND_SIZE | SCRIPT_ERR_INVALID_NUMBER_RANGE
  | SCRIPT_ERR_IMPOSSIBLE_ENCODING | SCRIPT_ERR_DIV_BY_ZERO | SCRIPT_ERR_MOD_BY_ZERO
  | SCRIPT_ERR_NEGATIVE_LOCKTIME | SCRIPT_ERR_UNSATISFIED_LOCKTIME
  | SCRIPT_ERR_SIG_HASHTYPE | SCRIPT_ERR_SIG_DER | SCRIPT_ERR_MINIMALDATA | SCRIPT_ERR_SIG_PUSHONLY
  | SCRIPT_ERR_SIG_HIGH_S | SCRIPT_ERR_SIG_NULLDUMMY | SCRIPT_ERR_PUBKEYTYPE | SCRIPT_ERR_CLEANSTACK
  | SCRIPT_ERR_SIG_NULLFAIL | SCRIPT_ERR_DISCOURAGE_UPGRADABLE_NOPS
  | SCRIPT_ERR_SCHNORR_SIG_SIZE | SCRIPT_ERR_SCHNORR_SIG_HASHTYPE | SCRIPT_ERR_SCHNORR_SIG
  | SCRIPT_ERR_OP_CODESEPARATOR | SCRIPT_ERR_SIG_FINDANDDELETE

definition SIGHASH_ALL :: byte where [flag_defs]: "SIGHASH_ALL = 1"
definition SIGHASH_NONE :: byte where [flag_defs]: "SIGHASH_NONE = 2"
definition SIGHASH_SINGLE :: byte where [flag_defs]: "SIGHASH_SINGLE = 3"
definition SIGHASH_ANYONECANPAY :: byte where [flag_defs]: "SIGHASH_ANYONECANPAY = 0x80"

definition SCRIPT_VERIFY_NONE :: u32 where [flag_defs]: "SCRIPT_VERIFY_NONE = 0"
definition SCRIPT_VERIFY_P2SH :: u32 where [flag_defs]: "SCRIPT_VERIFY_P2SH = push_bit 0 1"
definition SCRIPT_VERIFY_STRICTENC :: u32 where [flag_defs]: "SCRIPT_VERIFY_STRICTENC = push_bit 1 1"
definition SCRIPT_VERIFY_DERSIG :: u32 where [flag_defs]: "SCRIPT_VERIFY_DERSIG = push_bit 2 1"
definition SCRIPT_VERIFY_LOW_S :: u32 where [flag_defs]: "SCRIPT_VERIFY_LOW_S = push_bit 3 1"
definition SCRIPT_VERIFY_NULLDUMMY :: u32 where [flag_defs]: "SCRIPT_VERIFY_NULLDUMMY = push_bit 4 1"
definition SCRIPT_VERIFY_SIGPUSHONLY :: u32 where [flag_defs]: "SCRIPT_VERIFY_SIGPUSHONLY = push_bit 5 1"
definition SCRIPT_VERIFY_MINIMALDATA :: u32 where [flag_defs]: "SCRIPT_VERIFY_MINIMALDATA = push_bit 6 1"
definition SCRIPT_VERIFY_DISCOURAGE_UPGRADABLE_NOPS :: u32 where
  [flag_defs]: "SCRIPT_VERIFY_DISCOURAGE_UPGRADABLE_NOPS = push_bit 7 1"
definition SCRIPT_VERIFY_CLEANSTACK :: u32 where [flag_defs]: "SCRIPT_VERIFY_CLEANSTACK = push_bit 8 1"
definition SCRIPT_VERIFY_CHECKLOCKTIMEVERIFY :: u32 where
  [flag_defs]: "SCRIPT_VERIFY_CHECKLOCKTIMEVERIFY = push_bit 9 1"
definition SCRIPT_VERIFY_CHECKSEQUENCEVERIFY :: u32 where
  [flag_defs]: "SCRIPT_VERIFY_CHECKSEQUENCEVERIFY = push_bit 10 1"
definition SCRIPT_VERIFY_NULLFAIL :: u32 where [flag_defs]: "SCRIPT_VERIFY_NULLFAIL = push_bit 14 1"
definition SCRIPT_ENABLE_DIP0020_OPCODES :: u32 where [flag_defs]: "SCRIPT_ENABLE_DIP0020_OPCODES = push_bit 15 1"
definition SCRIPT_VERIFY_CONST_SCRIPTCODE :: u32 where [flag_defs]: "SCRIPT_VERIFY_CONST_SCRIPTCODE = push_bit 16 1"
definition SCRIPT_ENABLE_SCHNORR :: u32 where [flag_defs]: "SCRIPT_ENABLE_SCHNORR = push_bit 17 1"
definition SCRIPT_ENABLE_LARGE_ELEMENTS :: u32 where [flag_defs]: "SCRIPT_ENABLE_LARGE_ELEMENTS = push_bit 18 1"

text \<open>The flags in the order of the enumeration.\<close>

definition script_verify_flags :: "u32 list" where
  "script_verify_flags = [
     SCRIPT_VERIFY_NONE, SCRIPT_VERIFY_P2SH, SCRIPT_VERIFY_STRICTENC, SCRIPT_VERIFY_DERSIG, SCRIPT_VERIFY_LOW_S,
     SCRIPT_VERIFY_NULLDUMMY, SCRIPT_VERIFY_SIGPUSHONLY, SCRIPT_VERIFY_MINIMALDATA,
     SCRIPT_VERIFY_DISCOURAGE_UPGRADABLE_NOPS, SCRIPT_VERIFY_CLEANSTACK, SCRIPT_VERIFY_CHECKLOCKTIMEVERIFY,
     SCRIPT_VERIFY_CHECKSEQUENCEVERIFY, SCRIPT_VERIFY_NULLFAIL, SCRIPT_ENABLE_DIP0020_OPCODES,
     SCRIPT_VERIFY_CONST_SCRIPTCODE, SCRIPT_ENABLE_LARGE_ELEMENTS, SCRIPT_ENABLE_SCHNORR]"

definition flag :: "u32 \<Rightarrow> u32 \<Rightarrow> bool" where
  "flag flags f \<longleftrightarrow> flags AND f \<noteq> 0"

datatype SigVersion = BASE | SCHNORR

section \<open>The interfaces\<close>

record crypto =
  RIPEMD160 :: "bytes \<Rightarrow> bytes"
  SHA1 :: "bytes \<Rightarrow> bytes"
  SHA256 :: "bytes \<Rightarrow> bytes"
  PubKey_Verify :: "bytes \<Rightarrow> bytes \<Rightarrow> bytes \<Rightarrow> bool"
  PubKey_VerifySchnorr :: "bytes \<Rightarrow> bytes \<Rightarrow> bytes \<Rightarrow> bool"
  PubKey_CheckLowS :: "bytes \<Rightarrow> bool"

definition Hash160 :: "crypto \<Rightarrow> bytes \<Rightarrow> bytes" where
  "Hash160 cr v = RIPEMD160 cr (SHA256 cr v)"

definition Hash256 :: "crypto \<Rightarrow> bytes \<Rightarrow> bytes" where
  "Hash256 cr v = SHA256 cr (SHA256 cr v)"

record BaseSignatureChecker =
  CheckSig :: "bytes \<Rightarrow> bytes \<Rightarrow> CScript \<Rightarrow> SigVersion \<Rightarrow> bool"
  CheckSchnorrSig :: "bytes \<Rightarrow> bytes \<Rightarrow> CScript \<Rightarrow> byte \<Rightarrow> bool"
  CheckLockTime :: "CScriptNum \<Rightarrow> bool"
  CheckSequence :: "CScriptNum \<Rightarrow> bool"

text \<open>The base class: every check fails.\<close>

definition base_checker :: BaseSignatureChecker where
  "base_checker = \<lparr>CheckSig = \<lambda>_ _ _ _. False, CheckSchnorrSig = \<lambda>_ _ _ _. False, CheckLockTime = \<lambda>_. False,
     CheckSequence = \<lambda>_. False\<rparr>"

text \<open>What \<open>EvalScript\<close> is called with besides the stack and the script.\<close>

record eval_env =
  env_flags :: u32
  env_checker :: BaseSignatureChecker
  env_sigversion :: SigVersion
  env_crypto :: crypto

section \<open>Encodings\<close>

definition CastToBool :: "valtype \<Rightarrow> bool" where
  "CastToBool vch \<longleftrightarrow>
     (case dropWhile (\<lambda>b. b = 0) vch of
        [] \<Rightarrow> False
      | b # rest \<Rightarrow> \<not> (rest = [] \<and> b = 0x80))"

definition COMPRESSED_SIZE :: nat where "COMPRESSED_SIZE = 33"
definition PUBKEY_SIZE :: nat where "PUBKEY_SIZE = 65"

definition IsCompressedOrUncompressedPubKey :: "valtype \<Rightarrow> bool" where
  "IsCompressedOrUncompressedPubKey vchPubKey \<longleftrightarrow>
     (if length vchPubKey < COMPRESSED_SIZE then False
      else if vchPubKey ! 0 = 0x04 then length vchPubKey = PUBKEY_SIZE
      else if vchPubKey ! 0 = 0x02 \<or> vchPubKey ! 0 = 0x03 then length vchPubKey = COMPRESSED_SIZE
      else False)"

definition IsCompressedPubKey :: "valtype \<Rightarrow> bool" where
  "IsCompressedPubKey vchPubKey \<longleftrightarrow>
     (if length vchPubKey \<noteq> COMPRESSED_SIZE then False
      else \<not> (vchPubKey ! 0 \<noteq> 0x02 \<and> vchPubKey ! 0 \<noteq> 0x03))"

text \<open>\<open>CPubKey\<close>: the length that a header byte announces, and validity of a key built from bytes.\<close>

definition PubKey_GetLen :: "byte \<Rightarrow> nat" where
  "PubKey_GetLen chHeader =
     (if chHeader = 2 \<or> chHeader = 3 then COMPRESSED_SIZE
      else if chHeader = 4 \<or> chHeader = 6 \<or> chHeader = 7 then PUBKEY_SIZE
      else 0)"

definition PubKey_IsValid :: "bytes \<Rightarrow> bool" where
  "PubKey_IsValid vch \<longleftrightarrow>
     (case vch of [] \<Rightarrow> False | h # _ \<Rightarrow> PubKey_GetLen h \<noteq> 0 \<and> PubKey_GetLen h = length vch)"

definition IsSchnorrSignature :: "valtype \<Rightarrow> bool" where
  "IsSchnorrSignature vchSig \<longleftrightarrow> length vchSig = 65"

definition IsValidSignatureEncoding :: "bytes \<Rightarrow> bool" where
  "IsValidSignatureEncoding sig \<longleftrightarrow>
     (if length sig < 9 then False
      else if length sig > 73 then False
      else if sig ! 0 \<noteq> 0x30 then False
      else if unat (sig ! 1) \<noteq> length sig - 3 then False
      else let lenR = unat (sig ! 3)
           in if 5 + lenR \<ge> length sig then False
              else let lenS = unat (sig ! (5 + lenR))
                   in if lenR + lenS + 7 \<noteq> length sig then False
                      else if sig ! 2 \<noteq> 0x02 then False
                      else if lenR = 0 then False
                      else if sig ! 4 AND 0x80 \<noteq> 0 then False
                      else if lenR > 1 \<and> sig ! 4 = 0x00 \<and> \<not> sig ! 5 AND 0x80 \<noteq> 0 then False
                      else if sig ! (lenR + 4) \<noteq> 0x02 then False
                      else if lenS = 0 then False
                      else if sig ! (lenR + 6) AND 0x80 \<noteq> 0 then False
                      else if lenS > 1 \<and> sig ! (lenR + 6) = 0x00 \<and> \<not> sig ! (lenR + 7) AND 0x80 \<noteq> 0 then False
                      else True)"

text \<open>The checks that set a script error return it, and \<open>None\<close> when they return true.\<close>

definition IsLowDERSignature :: "crypto \<Rightarrow> valtype \<Rightarrow> ScriptError option" where
  "IsLowDERSignature cr vchSig =
     (if \<not> IsValidSignatureEncoding vchSig then Some SCRIPT_ERR_SIG_DER
      else if \<not> PubKey_CheckLowS cr (butlast vchSig) then Some SCRIPT_ERR_SIG_HIGH_S
      else None)"

definition IsDefinedHashtypeSignature :: "valtype \<Rightarrow> bool" where
  "IsDefinedHashtypeSignature vchSig \<longleftrightarrow>
     (if length vchSig = 0 then False
      else let nHashType = last vchSig AND NOT SIGHASH_ANYONECANPAY
           in \<not> (nHashType < SIGHASH_ALL \<or> nHashType > SIGHASH_SINGLE))"

definition CheckSignatureEncoding :: "crypto \<Rightarrow> valtype \<Rightarrow> u32 \<Rightarrow> ScriptError option" where
  "CheckSignatureEncoding cr vchSig flags =
     (if length vchSig = 0 then None
      else if flag flags SCRIPT_ENABLE_SCHNORR \<and> IsSchnorrSignature vchSig
      then (if flag flags SCRIPT_VERIFY_STRICTENC \<and> \<not> IsDefinedHashtypeSignature vchSig
            then Some SCRIPT_ERR_SCHNORR_SIG_HASHTYPE else None)
      else if flag flags (SCRIPT_VERIFY_DERSIG OR SCRIPT_VERIFY_LOW_S OR SCRIPT_VERIFY_STRICTENC)
              \<and> \<not> IsValidSignatureEncoding vchSig then Some SCRIPT_ERR_SIG_DER
      else if flag flags SCRIPT_VERIFY_LOW_S \<and> IsLowDERSignature cr vchSig \<noteq> None then IsLowDERSignature cr vchSig
      else if flag flags SCRIPT_VERIFY_STRICTENC \<and> \<not> IsDefinedHashtypeSignature vchSig
      then Some SCRIPT_ERR_SIG_HASHTYPE
      else None)"

definition CheckPubKeyEncoding :: "valtype \<Rightarrow> u32 \<Rightarrow> ScriptError option" where
  "CheckPubKeyEncoding vchPubKey flags =
     (if flag flags SCRIPT_VERIFY_STRICTENC \<and> \<not> IsCompressedOrUncompressedPubKey vchPubKey
      then Some SCRIPT_ERR_PUBKEYTYPE else None)"

definition CheckMinimalPush :: "valtype \<Rightarrow> byte \<Rightarrow> bool" where
  "CheckMinimalPush data opcode \<longleftrightarrow>
     (if length data = 0 then opcode = OP_0
      else if length data = 1 \<and> data ! 0 \<ge> 1 \<and> data ! 0 \<le> 16 then False
      else if length data = 1 \<and> data ! 0 = 0x81 then False
      else if length data \<le> 75 then unat opcode = length data
      else if length data \<le> 255 then opcode = OP_PUSHDATA1
      else if length data \<le> 65535 then opcode = OP_PUSHDATA2
      else True)"

section \<open>\<open>FindAndDelete\<close>\<close>

text \<open>The inner loop, on a pattern that is not empty: the iterator after the matches, and their number.\<close>

function skip_matches :: "CScript \<Rightarrow> bytes \<Rightarrow> int \<Rightarrow> bytes \<times> int" where
  "skip_matches b pc nFound =
     (if b \<noteq> [] \<and> length pc \<ge> length b \<and> take (length b) pc = b
      then skip_matches b (drop (length b) pc) (nFound + 1)
      else (pc, nFound))"
  by pat_completeness auto

termination
proof (relation "measure (\<lambda>(b, pc, n). length pc)")
  fix b pc :: bytes and n :: int
  assume "b \<noteq> [] \<and> length pc \<ge> length b \<and> take (length b) pc = b"
  then have "0 < length b" "0 < length pc" by auto
  then show "((b, drop (length b) pc, n + 1), b, pc, n) \<in> measure (\<lambda>(b, pc, n). length pc)" by simp
qed simp

declare skip_matches.simps [simp del]

lemma skip_matches_length: "length (fst (skip_matches b pc n)) \<le> length pc"
proof (induction b pc n rule: skip_matches.induct)
  case (1 b pc n)
  then show ?case by (subst skip_matches.simps) (auto intro: order_trans)
qed

lemma skip_matches_less: "(pc1, n1) = skip_matches b pc n \<Longrightarrow> length pc1 \<le> length pc"
  using skip_matches_length [of b pc n] by (metis fst_conv)

function delete_loop :: "CScript \<Rightarrow> bytes \<Rightarrow> bytes \<Rightarrow> bytes \<Rightarrow> int \<Rightarrow> int \<times> bytes \<times> bytes" where
  "delete_loop b pc2 pc result nFound =
     (let result' = result @ take (length pc2 - length pc) pc2;
          (pc1, nFound') = skip_matches b pc nFound
      in case GetScriptOp pc1 of
           (Some op, pc') \<Rightarrow> delete_loop b pc1 pc' result' nFound'
         | (None, pc') \<Rightarrow> (nFound', result', pc1))"
  by pat_completeness auto

termination
  by (relation "measure (\<lambda>(b, pc2, pc, r, n). length pc)") (auto dest!: GetScriptOp_less [OF sym] skip_matches_less)

declare delete_loop.simps [simp del]

definition FindAndDelete :: "CScript \<Rightarrow> CScript \<Rightarrow> int \<times> CScript" where
  "FindAndDelete script b =
     (if b = [] then (0, script)
      else let (nFound, result, pc2) = delete_loop b script script [] 0
           in (nFound, if nFound > 0 then result @ pc2 else script))"

section \<open>The stack operations of \<open>EvalScript\<close>\<close>

type_synonym vstack = "valtype list"

definition vchFalse :: valtype where "vchFalse = []"
definition vchTrue :: valtype where "vchTrue = [1]"

definition bool_vch :: "bool \<Rightarrow> valtype" where
  "bool_vch b = (if b then vchTrue else vchFalse)"

abbreviation bad_stack :: "ScriptError + 'a" where
  "bad_stack \<equiv> Inl SCRIPT_ERR_INVALID_STACK_OPERATION"

text \<open>A \<open>CScriptNum\<close> read from the stack; its exceptions end in the handler of \<open>EvalScript\<close>.\<close>

definition with_num :: "bool \<Rightarrow> nat \<Rightarrow> valtype \<Rightarrow> (CScriptNum \<Rightarrow> ScriptError + 'a) \<Rightarrow> ScriptError + 'a" where
  "with_num fRequireMinimal nMaxNumSize vch k =
     (case make_CScriptNum vch fRequireMinimal nMaxNumSize of
        Inl _ \<Rightarrow> Inl SCRIPT_ERR_UNKNOWN_ERROR
      | Inr bn \<Rightarrow> k bn)"

definition stack_opcodes :: "byte list" where
  "stack_opcodes = [OP_2DROP, OP_2DUP, OP_3DUP, OP_2OVER, OP_2ROT, OP_2SWAP, OP_IFDUP, OP_DEPTH, OP_DROP, OP_DUP,
     OP_NIP, OP_OVER, OP_ROT, OP_SWAP, OP_TUCK, OP_SIZE]"

definition stack_op :: "byte \<Rightarrow> vstack \<Rightarrow> ScriptError + vstack" where
  "stack_op opcode s =
     (if opcode = OP_2DROP then (case s of x2 # x1 # r \<Rightarrow> Inr r | _ \<Rightarrow> bad_stack)
      else if opcode = OP_2DUP then (case s of x2 # x1 # r \<Rightarrow> Inr (x2 # x1 # x2 # x1 # r) | _ \<Rightarrow> bad_stack)
      else if opcode = OP_3DUP
      then (case s of x3 # x2 # x1 # r \<Rightarrow> Inr (x3 # x2 # x1 # x3 # x2 # x1 # r) | _ \<Rightarrow> bad_stack)
      else if opcode = OP_2OVER
      then (case s of x4 # x3 # x2 # x1 # r \<Rightarrow> Inr (x2 # x1 # x4 # x3 # x2 # x1 # r) | _ \<Rightarrow> bad_stack)
      else if opcode = OP_2ROT
      then (case s of x6 # x5 # x4 # x3 # x2 # x1 # r \<Rightarrow> Inr (x2 # x1 # x6 # x5 # x4 # x3 # r) | _ \<Rightarrow> bad_stack)
      else if opcode = OP_2SWAP
      then (case s of x4 # x3 # x2 # x1 # r \<Rightarrow> Inr (x2 # x1 # x4 # x3 # r) | _ \<Rightarrow> bad_stack)
      else if opcode = OP_IFDUP
      then (case s of x # r \<Rightarrow> Inr (if CastToBool x then x # x # r else x # r) | _ \<Rightarrow> bad_stack)
      else if opcode = OP_DEPTH then Inr (serialize (int (length s)) # s)
      else if opcode = OP_DROP then (case s of x # r \<Rightarrow> Inr r | _ \<Rightarrow> bad_stack)
      else if opcode = OP_DUP then (case s of x # r \<Rightarrow> Inr (x # x # r) | _ \<Rightarrow> bad_stack)
      else if opcode = OP_NIP then (case s of x2 # x1 # r \<Rightarrow> Inr (x2 # r) | _ \<Rightarrow> bad_stack)
      else if opcode = OP_OVER then (case s of x2 # x1 # r \<Rightarrow> Inr (x1 # x2 # x1 # r) | _ \<Rightarrow> bad_stack)
      else if opcode = OP_ROT then (case s of x3 # x2 # x1 # r \<Rightarrow> Inr (x1 # x3 # x2 # r) | _ \<Rightarrow> bad_stack)
      else if opcode = OP_SWAP then (case s of x2 # x1 # r \<Rightarrow> Inr (x1 # x2 # r) | _ \<Rightarrow> bad_stack)
      else if opcode = OP_TUCK then (case s of x2 # x1 # r \<Rightarrow> Inr (x2 # x1 # x2 # r) | _ \<Rightarrow> bad_stack)
      else \<comment> \<open>\<open>OP_SIZE\<close>\<close>
        (case s of x # r \<Rightarrow> Inr (serialize (int (length x)) # x # r) | _ \<Rightarrow> bad_stack))"

definition pick_roll :: "bool \<Rightarrow> byte \<Rightarrow> vstack \<Rightarrow> ScriptError + vstack" where
  "pick_roll fRequireMinimal opcode s =
     (if length s < 2 then bad_stack
      else with_num fRequireMinimal nDefaultMaxNumSize (hd s) (\<lambda>bn.
        let n = getint bn; s' = tl s
        in if n < 0 \<or> n \<ge> int (length s') then bad_stack
           else let vch = s' ! nat n
                in Inr (vch # (if opcode = OP_ROLL then take (nat n) s' @ drop (Suc (nat n)) s' else s'))))"

definition equal_op :: "byte \<Rightarrow> vstack \<Rightarrow> ScriptError + vstack" where
  "equal_op opcode s =
     (case s of
        vch2 # vch1 # r \<Rightarrow>
          let fEqual = (vch1 = vch2)
          in if opcode = OP_EQUALVERIFY
             then if fEqual then Inr r else Inl SCRIPT_ERR_EQUALVERIFY
             else Inr (bool_vch fEqual # r)
      | _ \<Rightarrow> bad_stack)"

definition bitwise_op :: "byte \<Rightarrow> vstack \<Rightarrow> ScriptError + vstack" where
  "bitwise_op opcode s =
     (case s of
        vch2 # vch1 # r \<Rightarrow>
          if length vch1 \<noteq> length vch2 then Inl SCRIPT_ERR_INVALID_OPERAND_SIZE
          else Inr (map2 (if opcode = OP_AND then (AND) else if opcode = OP_OR then (OR) else (XOR)) vch1 vch2 # r)
      | _ \<Rightarrow> bad_stack)"

section \<open>The numeric operations\<close>

definition unary_result :: "byte \<Rightarrow> CScriptNum \<Rightarrow> CScriptNum" where
  "unary_result opcode bn =
     (if opcode = OP_1ADD then bn + 1
      else if opcode = OP_1SUB then bn - 1
      else if opcode = OP_NEGATE then - bn
      else if opcode = OP_ABS then (if bn < 0 then - bn else bn)
      else if opcode = OP_NOT then of_bool (bn = 0)
      else \<comment> \<open>\<open>OP_0NOTEQUAL\<close>\<close> of_bool (bn \<noteq> 0))"

definition unary_opcodes :: "byte list" where
  "unary_opcodes = [OP_1ADD, OP_1SUB, OP_NEGATE, OP_ABS, OP_NOT, OP_0NOTEQUAL]"

definition unary_num :: "bool \<Rightarrow> byte \<Rightarrow> vstack \<Rightarrow> ScriptError + vstack" where
  "unary_num fRequireMinimal opcode s =
     (case s of
        x # r \<Rightarrow> with_num fRequireMinimal nDefaultMaxNumSize x (\<lambda>bn. Inr (serialize (unary_result opcode bn) # r))
      | _ \<Rightarrow> bad_stack)"

definition binary_opcodes :: "byte list" where
  "binary_opcodes = [OP_ADD, OP_SUB, OP_DIV, OP_MOD, OP_BOOLAND, OP_BOOLOR, OP_NUMEQUAL, OP_NUMEQUALVERIFY,
     OP_NUMNOTEQUAL, OP_LESSTHAN, OP_GREATERTHAN, OP_LESSTHANOREQUAL, OP_GREATERTHANOREQUAL, OP_MIN, OP_MAX]"

definition binary_result :: "byte \<Rightarrow> CScriptNum \<Rightarrow> CScriptNum \<Rightarrow> ScriptError + CScriptNum" where
  "binary_result opcode bn1 bn2 =
     (if opcode = OP_ADD then Inr (bn1 + bn2)
      else if opcode = OP_SUB then Inr (bn1 - bn2)
      else if opcode = OP_DIV then (if bn2 = 0 then Inl SCRIPT_ERR_DIV_BY_ZERO else Inr (bn1 sdiv bn2))
      else if opcode = OP_MOD then (if bn2 = 0 then Inl SCRIPT_ERR_MOD_BY_ZERO else Inr (bn1 smod bn2))
      else if opcode = OP_BOOLAND then Inr (of_bool (bn1 \<noteq> 0 \<and> bn2 \<noteq> 0))
      else if opcode = OP_BOOLOR then Inr (of_bool (bn1 \<noteq> 0 \<or> bn2 \<noteq> 0))
      else if opcode = OP_NUMEQUAL \<or> opcode = OP_NUMEQUALVERIFY then Inr (of_bool (bn1 = bn2))
      else if opcode = OP_NUMNOTEQUAL then Inr (of_bool (bn1 \<noteq> bn2))
      else if opcode = OP_LESSTHAN then Inr (of_bool (bn1 < bn2))
      else if opcode = OP_GREATERTHAN then Inr (of_bool (bn1 > bn2))
      else if opcode = OP_LESSTHANOREQUAL then Inr (of_bool (bn1 \<le> bn2))
      else if opcode = OP_GREATERTHANOREQUAL then Inr (of_bool (bn1 \<ge> bn2))
      else if opcode = OP_MIN then Inr (if bn1 < bn2 then bn1 else bn2)
      else \<comment> \<open>\<open>OP_MAX\<close>\<close> Inr (if bn1 > bn2 then bn1 else bn2))"

definition binary_num :: "bool \<Rightarrow> byte \<Rightarrow> vstack \<Rightarrow> ScriptError + vstack" where
  "binary_num fRequireMinimal opcode s =
     (case s of
        x2 # x1 # r \<Rightarrow>
          with_num fRequireMinimal nDefaultMaxNumSize x1 (\<lambda>bn1.
          with_num fRequireMinimal nDefaultMaxNumSize x2 (\<lambda>bn2.
            case binary_result opcode bn1 bn2 of
              Inl e \<Rightarrow> Inl e
            | Inr bn \<Rightarrow>
                if opcode = OP_NUMEQUALVERIFY
                then if CastToBool (serialize bn) then Inr r else Inl SCRIPT_ERR_NUMEQUALVERIFY
                else Inr (serialize bn # r)))
      | _ \<Rightarrow> bad_stack)"

definition within_op :: "bool \<Rightarrow> vstack \<Rightarrow> ScriptError + vstack" where
  "within_op fRequireMinimal s =
     (case s of
        x3 # x2 # x1 # r \<Rightarrow>
          with_num fRequireMinimal nDefaultMaxNumSize x1 (\<lambda>bn1.
          with_num fRequireMinimal nDefaultMaxNumSize x2 (\<lambda>bn2.
          with_num fRequireMinimal nDefaultMaxNumSize x3 (\<lambda>bn3.
            Inr (bool_vch (bn2 \<le> bn1 \<and> bn1 < bn3) # r))))
      | _ \<Rightarrow> bad_stack)"

section \<open>Hashing, splicing and conversion\<close>

definition hash_opcodes :: "byte list" where
  "hash_opcodes = [OP_RIPEMD160, OP_SHA1, OP_SHA256, OP_HASH160, OP_HASH256]"

definition hash_op :: "crypto \<Rightarrow> byte \<Rightarrow> vstack \<Rightarrow> ScriptError + vstack" where
  "hash_op cr opcode s =
     (case s of
        vch # r \<Rightarrow>
          Inr ((if opcode = OP_RIPEMD160 then RIPEMD160 cr vch
                else if opcode = OP_SHA1 then SHA1 cr vch
                else if opcode = OP_SHA256 then SHA256 cr vch
                else if opcode = OP_HASH160 then Hash160 cr vch
                else Hash256 cr vch) # r)
      | _ \<Rightarrow> bad_stack)"

definition cat_op :: "nat \<Rightarrow> vstack \<Rightarrow> ScriptError + vstack" where
  "cat_op nMaxElementSize s =
     (case s of
        vch2 # vch1 # r \<Rightarrow>
          if length vch1 + length vch2 > nMaxElementSize then Inl SCRIPT_ERR_PUSH_SIZE else Inr ((vch1 @ vch2) # r)
      | _ \<Rightarrow> bad_stack)"

definition split_op :: "bool \<Rightarrow> vstack \<Rightarrow> ScriptError + vstack" where
  "split_op fRequireMinimal s =
     (case s of
        pos # vch # r \<Rightarrow>
          with_num fRequireMinimal nDefaultMaxNumSize pos (\<lambda>bn.
            let nPosition = getint bn
            in if nPosition < 0 \<or> nPosition > int (length vch) then Inl SCRIPT_ERR_INVALID_SPLIT_RANGE
               else if nPosition = 0 then Inr (vch # [] # r)
               else if nPosition = int (length vch) then Inr ([] # vch # r)
               else Inr (drop (nat nPosition) vch # take (nat nPosition) vch # r))
      | _ \<Rightarrow> bad_stack)"

definition num2bin_op :: "nat \<Rightarrow> bool \<Rightarrow> vstack \<Rightarrow> ScriptError + vstack" where
  "num2bin_op nMaxElementSize fRequireMinimal s =
     (case s of
        sz # raw # r \<Rightarrow>
          with_num fRequireMinimal nDefaultMaxNumSize sz (\<lambda>bn.
            let n = getint bn
            in if n < 0 \<or> n > int nMaxElementSize then Inl SCRIPT_ERR_PUSH_SIZE
               else let rawnum = fst (MinimallyEncode raw)
                    in if int (length rawnum) > n then Inl SCRIPT_ERR_IMPOSSIBLE_ENCODING
                       else if int (length rawnum) = n then Inr (rawnum # r)
                       else let signbit = (if length rawnum > 0 then last rawnum AND 0x80 else 0);
                                rawnum' = (if length rawnum > 0 then butlast rawnum @ [last rawnum AND 0x7f] else rawnum)
                            in Inr ((rawnum' @ replicate (nat n - 1 - length rawnum') 0 @ [signbit]) # r))
      | _ \<Rightarrow> bad_stack)"

definition bin2num_op :: "vstack \<Rightarrow> ScriptError + vstack" where
  "bin2num_op s =
     (case s of
        x # r \<Rightarrow>
          let n = fst (MinimallyEncode x)
          in if \<not> IsMinimallyEncoded n nDefaultMaxNumSize then Inl SCRIPT_ERR_INVALID_NUMBER_RANGE else Inr (n # r)
      | _ \<Rightarrow> bad_stack)"

section \<open>Lock times\<close>

definition SEQUENCE_LOCKTIME_DISABLE_FLAG :: int where
  "SEQUENCE_LOCKTIME_DISABLE_FLAG = 2 ^ 31"

definition locktime_op :: "eval_env \<Rightarrow> bool \<Rightarrow> vstack \<Rightarrow> ScriptError + vstack" where
  "locktime_op env fRequireMinimal s =
     (if \<not> flag (env_flags env) SCRIPT_VERIFY_CHECKLOCKTIMEVERIFY then Inr s
      else case s of
             x # r \<Rightarrow>
               with_num fRequireMinimal 5 x (\<lambda>nLockTime.
                 if nLockTime < 0 then Inl SCRIPT_ERR_NEGATIVE_LOCKTIME
                 else if \<not> CheckLockTime (env_checker env) nLockTime then Inl SCRIPT_ERR_UNSATISFIED_LOCKTIME
                 else Inr s)
           | _ \<Rightarrow> bad_stack)"

definition sequence_op :: "eval_env \<Rightarrow> bool \<Rightarrow> vstack \<Rightarrow> ScriptError + vstack" where
  "sequence_op env fRequireMinimal s =
     (if \<not> flag (env_flags env) SCRIPT_VERIFY_CHECKSEQUENCEVERIFY then Inr s
      else case s of
             x # r \<Rightarrow>
               with_num fRequireMinimal 5 x (\<lambda>nSequence.
                 if nSequence < 0 then Inl SCRIPT_ERR_NEGATIVE_LOCKTIME
                 else if nSequence AND SEQUENCE_LOCKTIME_DISABLE_FLAG \<noteq> 0 then Inr s
                 else if \<not> CheckSequence (env_checker env) nSequence then Inl SCRIPT_ERR_UNSATISFIED_LOCKTIME
                 else Inr s)
           | _ \<Rightarrow> bad_stack)"

section \<open>Signatures\<close>

text \<open>Dropping a signature from the script code it signs.\<close>

definition drop_signature :: "eval_env \<Rightarrow> CScript \<Rightarrow> valtype \<Rightarrow> ScriptError + CScript" where
  "drop_signature env scriptCode vchSig =
     (if env_sigversion env = BASE
      then let (found, scriptCode') = FindAndDelete scriptCode (push_data [] vchSig)
           in if found > 0 \<and> flag (env_flags env) SCRIPT_VERIFY_CONST_SCRIPTCODE
              then Inl SCRIPT_ERR_SIG_FINDANDDELETE else Inr scriptCode'
      else Inr scriptCode)"

definition check_encodings :: "eval_env \<Rightarrow> valtype \<Rightarrow> valtype \<Rightarrow> ScriptError option" where
  "check_encodings env vchSig vchPubKey =
     (case CheckSignatureEncoding (env_crypto env) vchSig (env_flags env) of
        Some e \<Rightarrow> Some e
      | None \<Rightarrow> CheckPubKeyEncoding vchPubKey (env_flags env))"

definition checksig_op :: "eval_env \<Rightarrow> byte \<Rightarrow> bytes \<Rightarrow> vstack \<Rightarrow> ScriptError + vstack" where
  "checksig_op env opcode pbegincodehash s =
     (case s of
        vchPubKey # vchSig # r \<Rightarrow>
          (case check_encodings env vchSig vchPubKey of
             Some e \<Rightarrow> Inl e
           | None \<Rightarrow>
               (case drop_signature env pbegincodehash vchSig of
                  Inl e \<Rightarrow> Inl e
                | Inr scriptCode \<Rightarrow>
                    let fSuccess =
                          (if flag (env_flags env) SCRIPT_ENABLE_SCHNORR \<and> IsSchnorrSignature vchSig
                           then CheckSchnorrSig (env_checker env) (take 64 vchSig) vchPubKey scriptCode (last vchSig)
                           else CheckSig (env_checker env) vchSig vchPubKey scriptCode (env_sigversion env))
                    in if \<not> fSuccess \<and> flag (env_flags env) SCRIPT_VERIFY_NULLFAIL \<and> length vchSig \<noteq> 0
                       then Inl SCRIPT_ERR_SIG_NULLFAIL
                       else if opcode = OP_CHECKSIGVERIFY
                       then if fSuccess then Inr r else Inl SCRIPT_ERR_CHECKSIGVERIFY
                       else Inr (bool_vch fSuccess # r)))
      | _ \<Rightarrow> bad_stack)"

definition checkdatasig_op :: "eval_env \<Rightarrow> byte \<Rightarrow> vstack \<Rightarrow> ScriptError + vstack" where
  "checkdatasig_op env opcode s =
     (case s of
        vchPubKey # vchMessage # vchSig # r \<Rightarrow>
          (case (if length vchSig = 0 then Inr False
                 else let vchHash = SHA256 (env_crypto env) vchMessage
                      in if flag (env_flags env) SCRIPT_ENABLE_SCHNORR \<and> length vchSig = 64
                            \<and> length vchPubKey = COMPRESSED_SIZE
                         then Inr (PubKey_IsValid vchPubKey
                                   \<and> PubKey_VerifySchnorr (env_crypto env) vchPubKey vchHash vchSig)
                         else case check_encodings env vchSig vchPubKey of
                                Some e \<Rightarrow> Inl e
                              | None \<Rightarrow> Inr (PubKey_Verify (env_crypto env) vchPubKey vchHash vchSig)) of
             Inl e \<Rightarrow> Inl e
           | Inr fSuccess \<Rightarrow>
               if \<not> fSuccess \<and> flag (env_flags env) SCRIPT_VERIFY_NULLFAIL \<and> length vchSig \<noteq> 0
               then Inl SCRIPT_ERR_SIG_NULLFAIL
               else if opcode = OP_CHECKDATASIGVERIFY
               then if fSuccess then Inr r else Inl SCRIPT_ERR_CHECKDATASIGVERIFY
               else Inr (bool_vch fSuccess # r))
      | _ \<Rightarrow> bad_stack)"

text \<open>
  The loop over the signatures and keys of a multisignature; it is entered with at most as many signatures
  as keys, so the third equation is not reached.
\<close>

fun multisig_loop :: "eval_env \<Rightarrow> CScript \<Rightarrow> valtype list \<Rightarrow> valtype list \<Rightarrow> ScriptError + bool" where
  "multisig_loop env scriptCode [] keys = Inr True"
| "multisig_loop env scriptCode (vchSig # sigs) (vchPubKey # keys) =
     (case check_encodings env vchSig vchPubKey of
        Some e \<Rightarrow> Inl e
      | None \<Rightarrow>
          let fOk = CheckSig (env_checker env) vchSig vchPubKey scriptCode (env_sigversion env);
              sigs' = (if fOk then sigs else vchSig # sigs)
          in if length sigs' > length keys then Inr False else multisig_loop env scriptCode sigs' keys)"
| "multisig_loop env scriptCode (vchSig # sigs) [] = Inr False"

fun drop_signatures :: "eval_env \<Rightarrow> CScript \<Rightarrow> valtype list \<Rightarrow> ScriptError + CScript" where
  "drop_signatures env scriptCode [] = Inr scriptCode"
| "drop_signatures env scriptCode (vchSig # sigs) =
     (case drop_signature env scriptCode vchSig of
        Inl e \<Rightarrow> Inl e
      | Inr scriptCode' \<Rightarrow> drop_signatures env scriptCode' sigs)"

text \<open>The clean-up loop: \<open>i\<close> more pops, the first \<open>ikey2\<close> of them without the check.\<close>

fun multisig_cleanup :: "eval_env \<Rightarrow> bool \<Rightarrow> nat \<Rightarrow> nat \<Rightarrow> vstack \<Rightarrow> ScriptError + vstack" where
  "multisig_cleanup env fSuccess 0 ikey2 s = Inr s"
| "multisig_cleanup env fSuccess (Suc i) ikey2 s =
     (if \<not> fSuccess \<and> flag (env_flags env) SCRIPT_VERIFY_NULLFAIL \<and> ikey2 = 0 \<and> length (hd s) \<noteq> 0
      then Inl SCRIPT_ERR_SIG_NULLFAIL
      else multisig_cleanup env fSuccess i (ikey2 - 1) (tl s))"

definition multisig_finish :: "eval_env \<Rightarrow> byte \<Rightarrow> bool \<Rightarrow> vstack \<Rightarrow> ScriptError + vstack" where
  "multisig_finish env opcode fSuccess s =
     (case s of
        dummy # r \<Rightarrow>
          if flag (env_flags env) SCRIPT_VERIFY_NULLDUMMY \<and> length dummy \<noteq> 0 then Inl SCRIPT_ERR_SIG_NULLDUMMY
          else if opcode = OP_CHECKMULTISIGVERIFY
          then if fSuccess then Inr r else Inl SCRIPT_ERR_CHECKMULTISIGVERIFY
          else Inr (bool_vch fSuccess # r)
      | _ \<Rightarrow> bad_stack)"

text \<open>The whole operation: the operation count and the stack.\<close>

definition checkmultisig_op ::
  "eval_env \<Rightarrow> bool \<Rightarrow> byte \<Rightarrow> bytes \<Rightarrow> int \<Rightarrow> vstack \<Rightarrow> ScriptError + int \<times> vstack" where
  "checkmultisig_op env fRequireMinimal opcode pbegincodehash nOpCount s =
     (if length s < 1 then bad_stack
      else with_num fRequireMinimal nDefaultMaxNumSize (s ! 0) (\<lambda>bnKeys.
        let nKeysCount = getint bnKeys; nOpCount' = nOpCount + nKeysCount; nk = nat nKeysCount
        in if nKeysCount < 0 \<or> nKeysCount > MAX_PUBKEYS_PER_MULTISIG then Inl SCRIPT_ERR_PUBKEY_COUNT
           else if nOpCount' > MAX_OPS_PER_SCRIPT then Inl SCRIPT_ERR_OP_COUNT
           else if length s < nk + 2 then bad_stack
           else with_num fRequireMinimal nDefaultMaxNumSize (s ! (nk + 1)) (\<lambda>bnSigs.
             let nSigsCount = getint bnSigs; ns = nat nSigsCount
             in if nSigsCount < 0 \<or> nSigsCount > nKeysCount then Inl SCRIPT_ERR_SIG_COUNT
                else if length s < nk + ns + 3 then bad_stack
                else let keys = take nk (drop 1 s); sigs = take ns (drop (nk + 2) s)
                     in case drop_signatures env pbegincodehash sigs of
                          Inl e \<Rightarrow> Inl e
                        | Inr scriptCode \<Rightarrow>
                            (case multisig_loop env scriptCode sigs keys of
                               Inl e \<Rightarrow> Inl e
                             | Inr fSuccess \<Rightarrow>
                                 (case multisig_cleanup env fSuccess (nk + ns + 2) (nk + 2) s of
                                    Inl e \<Rightarrow> Inl e
                                  | Inr s' \<Rightarrow> map_sum id (Pair nOpCount') (multisig_finish env opcode fSuccess s'))))))"

section \<open>\<open>EvalScript\<close>\<close>

record eval_state =
  es_stack :: vstack
  es_altstack :: vstack
  es_vfExec :: "bool list"
  es_nOpCount :: int
  es_pbegincodehash :: bytes

definition on_stack :: "(vstack \<Rightarrow> ScriptError + vstack) \<Rightarrow> eval_state \<Rightarrow> ScriptError + eval_state" where
  "on_stack f st = map_sum id (\<lambda>s. st\<lparr>es_stack := s\<rparr>) (f (es_stack st))"

definition push_number_op :: "byte \<Rightarrow> vstack \<Rightarrow> ScriptError + vstack" where
  "push_number_op opcode s = Inr (serialize (uint opcode - (uint OP_1 - 1)) # s)"

definition verify_op :: "vstack \<Rightarrow> ScriptError + vstack" where
  "verify_op s = (case s of x # r \<Rightarrow> if CastToBool x then Inr r else Inl SCRIPT_ERR_VERIFY | _ \<Rightarrow> bad_stack)"

definition nop_op :: "eval_env \<Rightarrow> vstack \<Rightarrow> ScriptError + vstack" where
  "nop_op env s =
     (if flag (env_flags env) SCRIPT_VERIFY_DISCOURAGE_UPGRADABLE_NOPS
      then Inl SCRIPT_ERR_DISCOURAGE_UPGRADABLE_NOPS else Inr s)"

definition nop_opcodes :: "byte list" where
  "nop_opcodes = [OP_NOP1, OP_NOP4, OP_NOP5, OP_NOP6, OP_NOP7, OP_NOP8, OP_NOP9, OP_NOP10]"

definition if_op :: "bool \<Rightarrow> byte \<Rightarrow> eval_state \<Rightarrow> ScriptError + eval_state" where
  "if_op fExec opcode st =
     (if fExec
      then (case es_stack st of
              vch # r \<Rightarrow>
                let fValue = (if opcode = OP_NOTIF then \<not> CastToBool vch else CastToBool vch)
                in Inr (st\<lparr>es_stack := r, es_vfExec := fValue # es_vfExec st\<rparr>)
            | _ \<Rightarrow> Inl SCRIPT_ERR_UNBALANCED_CONDITIONAL)
      else Inr (st\<lparr>es_vfExec := False # es_vfExec st\<rparr>))"

definition else_op :: "eval_state \<Rightarrow> ScriptError + eval_state" where
  "else_op st =
     (case es_vfExec st of
        b # r \<Rightarrow> Inr (st\<lparr>es_vfExec := (\<not> b) # r\<rparr>)
      | _ \<Rightarrow> Inl SCRIPT_ERR_UNBALANCED_CONDITIONAL)"

definition endif_op :: "eval_state \<Rightarrow> ScriptError + eval_state" where
  "endif_op st =
     (case es_vfExec st of
        b # r \<Rightarrow> Inr (st\<lparr>es_vfExec := r\<rparr>)
      | _ \<Rightarrow> Inl SCRIPT_ERR_UNBALANCED_CONDITIONAL)"

definition toalt_op :: "eval_state \<Rightarrow> ScriptError + eval_state" where
  "toalt_op st =
     (case es_stack st of
        x # r \<Rightarrow> Inr (st\<lparr>es_stack := r, es_altstack := x # es_altstack st\<rparr>)
      | _ \<Rightarrow> bad_stack)"

definition fromalt_op :: "eval_state \<Rightarrow> ScriptError + eval_state" where
  "fromalt_op st =
     (case es_altstack st of
        x # r \<Rightarrow> Inr (st\<lparr>es_stack := x # es_stack st, es_altstack := r\<rparr>)
      | _ \<Rightarrow> Inl SCRIPT_ERR_INVALID_ALTSTACK_OPERATION)"

definition multisig_op :: "eval_env \<Rightarrow> bool \<Rightarrow> byte \<Rightarrow> eval_state \<Rightarrow> ScriptError + eval_state" where
  "multisig_op env fRequireMinimal opcode st =
     map_sum id (\<lambda>(n, s). st\<lparr>es_nOpCount := n, es_stack := s\<rparr>)
       (checkmultisig_op env fRequireMinimal opcode (es_pbegincodehash st) (es_nOpCount st) (es_stack st))"

definition nMaxElementSize :: "u32 \<Rightarrow> nat" where
  "nMaxElementSize flags =
     (if flag flags SCRIPT_ENABLE_LARGE_ELEMENTS then MAX_SCRIPT_ELEMENT_SIZE_EXTENDED else MAX_SCRIPT_ELEMENT_SIZE)"

text \<open>The switch; \<open>pc\<close> is the iterator after the instruction.\<close>

definition exec_opcode :: "eval_env \<Rightarrow> bool \<Rightarrow> byte \<Rightarrow> bytes \<Rightarrow> eval_state \<Rightarrow> ScriptError + eval_state" where
  "exec_opcode env fExec opcode pc st =
     (let fRequireMinimal = flag (env_flags env) SCRIPT_VERIFY_MINIMALDATA;
          maxsize = nMaxElementSize (env_flags env)
      in if opcode = OP_1NEGATE \<or> (OP_1 \<le> opcode \<and> opcode \<le> OP_16) then on_stack (push_number_op opcode) st
         else if opcode = OP_NOP then Inr st
         else if opcode = OP_CHECKLOCKTIMEVERIFY then on_stack (locktime_op env fRequireMinimal) st
         else if opcode = OP_CHECKSEQUENCEVERIFY then on_stack (sequence_op env fRequireMinimal) st
         else if opcode \<in> set nop_opcodes then on_stack (nop_op env) st
         else if opcode = OP_IF \<or> opcode = OP_NOTIF then if_op fExec opcode st
         else if opcode = OP_ELSE then else_op st
         else if opcode = OP_ENDIF then endif_op st
         else if opcode = OP_VERIFY then on_stack verify_op st
         else if opcode = OP_RETURN then Inl SCRIPT_ERR_OP_RETURN
         else if opcode = OP_TOALTSTACK then toalt_op st
         else if opcode = OP_FROMALTSTACK then fromalt_op st
         else if opcode \<in> set stack_opcodes then on_stack (stack_op opcode) st
         else if opcode = OP_PICK \<or> opcode = OP_ROLL then on_stack (pick_roll fRequireMinimal opcode) st
         else if opcode = OP_EQUAL \<or> opcode = OP_EQUALVERIFY then on_stack (equal_op opcode) st
         else if opcode = OP_AND \<or> opcode = OP_OR \<or> opcode = OP_XOR then on_stack (bitwise_op opcode) st
         else if opcode \<in> set unary_opcodes then on_stack (unary_num fRequireMinimal opcode) st
         else if opcode \<in> set binary_opcodes then on_stack (binary_num fRequireMinimal opcode) st
         else if opcode = OP_WITHIN then on_stack (within_op fRequireMinimal) st
         else if opcode \<in> set hash_opcodes then on_stack (hash_op (env_crypto env) opcode) st
         else if opcode = OP_CODESEPARATOR then Inr (st\<lparr>es_pbegincodehash := pc\<rparr>)
         else if opcode = OP_CHECKSIG \<or> opcode = OP_CHECKSIGVERIFY
         then on_stack (checksig_op env opcode (es_pbegincodehash st)) st
         else if opcode = OP_CHECKDATASIG \<or> opcode = OP_CHECKDATASIGVERIFY then on_stack (checkdatasig_op env opcode) st
         else if opcode = OP_CHECKMULTISIG \<or> opcode = OP_CHECKMULTISIGVERIFY
         then multisig_op env fRequireMinimal opcode st
         else if opcode = OP_CAT then on_stack (cat_op maxsize) st
         else if opcode = OP_SPLIT then on_stack (split_op fRequireMinimal) st
         else if opcode = OP_NUM2BIN then on_stack (num2bin_op maxsize fRequireMinimal) st
         else if opcode = OP_BIN2NUM then on_stack bin2num_op st
         else Inl SCRIPT_ERR_BAD_OPCODE)"

definition dip0020_opcodes :: "byte list" where
  "dip0020_opcodes = [OP_CAT, OP_SPLIT, OP_AND, OP_OR, OP_XOR, OP_DIV, OP_MOD, OP_NUM2BIN, OP_BIN2NUM,
     OP_CHECKDATASIG, OP_CHECKDATASIGVERIFY]"

definition disabled_opcodes :: "byte list" where
  "disabled_opcodes = [OP_INVERT, OP_2MUL, OP_2DIV, OP_MUL, OP_LSHIFT, OP_RSHIFT]"

text \<open>The checks made on every instruction, executed or not; \<open>nOpCount\<close> already counts it.\<close>

definition op_error :: "eval_env \<Rightarrow> byte \<Rightarrow> valtype \<Rightarrow> int \<Rightarrow> ScriptError option" where
  "op_error env opcode vchPushValue nOpCount =
     (let fl = env_flags env
      in if length vchPushValue > nMaxElementSize fl then Some SCRIPT_ERR_PUSH_SIZE
         else if opcode > OP_16 \<and> nOpCount > MAX_OPS_PER_SCRIPT then Some SCRIPT_ERR_OP_COUNT
         else if \<not> flag fl SCRIPT_ENABLE_DIP0020_OPCODES \<and> opcode \<in> set dip0020_opcodes
         then Some SCRIPT_ERR_DISABLED_OPCODE
         else if opcode \<in> set disabled_opcodes then Some SCRIPT_ERR_DISABLED_OPCODE
         else if opcode = OP_CODESEPARATOR \<and> env_sigversion env = BASE \<and> flag fl SCRIPT_VERIFY_CONST_SCRIPTCODE
         then Some SCRIPT_ERR_OP_CODESEPARATOR
         else None)"

text \<open>The push, or the switch when the instruction is executed or is a conditional.\<close>

definition exec_or_push :: "eval_env \<Rightarrow> byte \<Rightarrow> valtype \<Rightarrow> bytes \<Rightarrow> eval_state \<Rightarrow> ScriptError + eval_state" where
  "exec_or_push env opcode vchPushValue pc st =
     (let fExec = (False \<notin> set (es_vfExec st))
      in if fExec \<and> opcode \<le> OP_PUSHDATA4
         then if flag (env_flags env) SCRIPT_VERIFY_MINIMALDATA \<and> \<not> CheckMinimalPush vchPushValue opcode
              then Inl SCRIPT_ERR_MINIMALDATA
              else Inr (st\<lparr>es_stack := vchPushValue # es_stack st\<rparr>)
         else if fExec \<or> (OP_IF \<le> opcode \<and> opcode \<le> OP_ENDIF) then exec_opcode env fExec opcode pc st
         else Inr st)"

text \<open>One iteration of the loop, after the instruction has been read.\<close>

definition eval_op :: "eval_env \<Rightarrow> byte \<Rightarrow> valtype \<Rightarrow> bytes \<Rightarrow> eval_state \<Rightarrow> ScriptError + eval_state" where
  "eval_op env opcode vchPushValue pc st =
     (let nOpCount = (if opcode > OP_16 then es_nOpCount st + 1 else es_nOpCount st)
      in case op_error env opcode vchPushValue nOpCount of
           Some e \<Rightarrow> Inl e
         | None \<Rightarrow>
             (case exec_or_push env opcode vchPushValue pc (st\<lparr>es_nOpCount := nOpCount\<rparr>) of
                Inl e \<Rightarrow> Inl e
              | Inr st' \<Rightarrow>
                  if length (es_stack st') + length (es_altstack st') > MAX_STACK_SIZE then Inl SCRIPT_ERR_STACK_SIZE
                  else Inr st'))"

function eval_loop :: "eval_env \<Rightarrow> bytes \<Rightarrow> eval_state \<Rightarrow> ScriptError + eval_state" where
  "eval_loop env pc st =
     (if pc = [] then Inr st
      else case GetScriptOp pc of
             (None, _) \<Rightarrow> Inl SCRIPT_ERR_BAD_OPCODE
           | (Some (opcode, vchPushValue), pc') \<Rightarrow>
               (case eval_op env opcode vchPushValue pc' st of
                  Inl e \<Rightarrow> Inl e
                | Inr st' \<Rightarrow> eval_loop env pc' st'))"
  by pat_completeness auto

termination
  by (relation "measure (\<lambda>(env, pc, st). length pc)") (auto dest: GetScriptOp_less [OF sym])

declare eval_loop.simps [simp del]

definition EvalScript :: "eval_env \<Rightarrow> vstack \<Rightarrow> CScript \<Rightarrow> ScriptError + vstack" where
  "EvalScript env stack script =
     (if length script > MAX_SCRIPT_SIZE then Inl SCRIPT_ERR_SCRIPT_SIZE
      else case eval_loop env script
                  \<lparr>es_stack = stack, es_altstack = [], es_vfExec = [], es_nOpCount = 0, es_pbegincodehash = script\<rparr> of
             Inl e \<Rightarrow> Inl e
           | Inr st \<Rightarrow> if es_vfExec st \<noteq> [] then Inl SCRIPT_ERR_UNBALANCED_CONDITIONAL else Inr (es_stack st))"

section \<open>\<open>VerifyScript\<close>\<close>

text \<open>
  \<open>Some (Inl e)\<close>: verification fails and sets the error \<open>e\<close>; \<open>Some (Inr ())\<close>: it succeeds; \<open>None\<close>: an assertion fails
  (the clean-stack flag without pay-to-script-hash, or an empty stack before the redeem script).
\<close>

definition true_top :: "vstack \<Rightarrow> bool" where
  "true_top s \<longleftrightarrow> s \<noteq> [] \<and> CastToBool (hd s)"

definition clean_check :: "u32 \<Rightarrow> vstack \<Rightarrow> (ScriptError + unit) option" where
  "clean_check flags s =
     (if flag flags SCRIPT_VERIFY_CLEANSTACK
      then if \<not> flag flags SCRIPT_VERIFY_P2SH then None
           else if length s \<noteq> 1 then Some (Inl SCRIPT_ERR_CLEANSTACK)
           else Some (Inr ())
      else Some (Inr ()))"

definition VerifyScript :: "crypto \<Rightarrow> CScript \<Rightarrow> CScript \<Rightarrow> u32 \<Rightarrow> BaseSignatureChecker \<Rightarrow> (ScriptError + unit) option" where
  "VerifyScript cr scriptSig scriptPubKey flags ck =
     (let env = \<lparr>env_flags = flags, env_checker = ck, env_sigversion = BASE, env_crypto = cr\<rparr>
      in if flag flags SCRIPT_VERIFY_SIGPUSHONLY \<and> \<not> IsPushOnly scriptSig then Some (Inl SCRIPT_ERR_SIG_PUSHONLY)
         else case EvalScript env [] scriptSig of
                Inl e \<Rightarrow> Some (Inl e)
              | Inr stackCopy \<Rightarrow>
                  (case EvalScript env stackCopy scriptPubKey of
                     Inl e \<Rightarrow> Some (Inl e)
                   | Inr stack \<Rightarrow>
                       if \<not> true_top stack then Some (Inl SCRIPT_ERR_EVAL_FALSE)
                       else if flag flags SCRIPT_VERIFY_P2SH \<and> IsPayToScriptHash scriptPubKey
                       then if \<not> IsPushOnly scriptSig then Some (Inl SCRIPT_ERR_SIG_PUSHONLY)
                            else (case stackCopy of
                                    [] \<Rightarrow> None
                                  | pubKeySerialized # rest \<Rightarrow>
                                      (case EvalScript env rest pubKeySerialized of
                                         Inl e \<Rightarrow> Some (Inl e)
                                       | Inr stack2 \<Rightarrow>
                                           if \<not> true_top stack2 then Some (Inl SCRIPT_ERR_EVAL_FALSE)
                                           else clean_check flags stack2))
                       else clean_check flags stack))"

section \<open>Sizes\<close>

lemma length_abs_bytes: "unat a < 256 ^ n \<Longrightarrow> length (abs_bytes a) \<le> n"
proof (induction n arbitrary: a)
  case 0
  then have "a = 0" by (simp add: unat_eq_0)
  then show ?case by simp
next
  case (Suc n)
  show ?case
  proof (cases "a = 0")
    case False
    have "unat (drop_bit 8 a) < 256 ^ n" using Suc(2) unat_drop8 [of a] by (simp add: less_mult_imp_div_less mult.commute)
    from Suc(1) [OF this] show ?thesis using abs_bytes_step [OF False] by simp
  qed simp
qed

lemma length_serialize_9: "length (serialize v) \<le> 9"
proof -
  have "length (abs_bytes w) \<le> 8" for w :: u64
    using unsigned_less [of w, where ?'a = nat] by (intro length_abs_bytes) simp
  from this [of "word_of_int v"] this [of "word_of_int (- v)"] show ?thesis by (auto simp: serialize_def Let_def)
qed

definition small :: "nat \<Rightarrow> vstack \<Rightarrow> bool" where
  "small m s \<longleftrightarrow> (\<forall>x \<in> set s. length x \<le> m)"

lemma small_simps [simp]: "small m []" "small m (x # s) \<longleftrightarrow> length x \<le> m \<and> small m s"
  by (auto simp: small_def)

lemma small_serialize [simp]: "520 \<le> m \<Longrightarrow> length (serialize v) \<le> m"
  using length_serialize_9 [of v] by simp

lemma stack_op_small: "stack_op opcode s = Inr s' \<Longrightarrow> small m s \<Longrightarrow> 520 \<le> m \<Longrightarrow> small m s'"
  unfolding stack_op_def by (auto split: if_splits list.splits)


lemma small_subset: "small m s \<Longrightarrow> set s' \<subseteq> set s \<Longrightarrow> small m s'"
  by (auto simp: small_def)

lemma small_bool_vch [simp]: "520 \<le> m \<Longrightarrow> length (bool_vch b) \<le> m"
  by (simp add: bool_vch_def vchTrue_def vchFalse_def)

lemma with_num_Inr: "with_num f n v k = Inr y \<Longrightarrow> \<exists>bn. make_CScriptNum v f n = Inr bn \<and> k bn = Inr y"
  by (auto simp: with_num_def split: sum.splits)

lemma pick_roll_small: "pick_roll f opcode s = Inr s' \<Longrightarrow> small m s \<Longrightarrow> small m s'"
proof -
  assume p: "pick_roll f opcode s = Inr s'" and s: "small m s"
  then obtain bn where b: "\<not> getint bn < 0" "getint bn < int (length (tl s))"
    "s' = tl s ! nat (getint bn) # (if opcode = OP_ROLL then take (nat (getint bn)) (tl s) @ drop (Suc (nat (getint bn))) (tl s) else tl s)"
    by (auto simp: pick_roll_def Let_def dest!: with_num_Inr split: if_splits)
  have "set s' \<subseteq> set (tl s)" using b by (auto dest: in_set_takeD in_set_dropD)
  then have "set s' \<subseteq> set s" by (cases s) auto
  then show ?thesis using s small_subset by blast
qed

lemma equal_op_small: "equal_op opcode s = Inr s' \<Longrightarrow> small m s \<Longrightarrow> 520 \<le> m \<Longrightarrow> small m s'"
  by (auto simp: equal_op_def Let_def split: if_splits list.splits)

lemma bitwise_op_small: "bitwise_op opcode s = Inr s' \<Longrightarrow> small m s \<Longrightarrow> small m s'"
  by (auto simp: bitwise_op_def split: if_splits list.splits)

lemma unary_num_small: "unary_num f opcode s = Inr s' \<Longrightarrow> small m s \<Longrightarrow> 520 \<le> m \<Longrightarrow> small m s'"
  by (auto simp: unary_num_def dest!: with_num_Inr split: list.splits)

lemma binary_num_small: "binary_num f opcode s = Inr s' \<Longrightarrow> small m s \<Longrightarrow> 520 \<le> m \<Longrightarrow> small m s'"
  by (auto simp: binary_num_def dest!: with_num_Inr split: list.splits sum.splits if_splits)

lemma within_op_small: "within_op f s = Inr s' \<Longrightarrow> small m s \<Longrightarrow> 520 \<le> m \<Longrightarrow> small m s'"
  by (auto simp: within_op_def dest!: with_num_Inr split: list.splits)

definition hash_sizes :: "crypto \<Rightarrow> bool" where
  "hash_sizes cr \<longleftrightarrow>
     (\<forall>v. length (RIPEMD160 cr v) = 20 \<and> length (SHA1 cr v) = 20 \<and> length (SHA256 cr v) = 32)"

lemma hash_op_small: "hash_op cr opcode s = Inr s' \<Longrightarrow> hash_sizes cr \<Longrightarrow> small m s \<Longrightarrow> 520 \<le> m \<Longrightarrow> small m s'"
  by (auto simp: hash_op_def hash_sizes_def Hash160_def Hash256_def split: list.splits)

lemma cat_op_small: "cat_op m s = Inr s' \<Longrightarrow> small m s \<Longrightarrow> small m s'"
  by (auto simp: cat_op_def split: list.splits if_splits)

lemma length_MinimallyEncode: "length (fst (MinimallyEncode x)) \<le> length x"
  using MinimallyEncode_ok by blast

lemma split_op_small: "split_op f s = Inr s' \<Longrightarrow> small m s \<Longrightarrow> small m s'"
  by (auto simp: split_op_def Let_def dest!: with_num_Inr split: list.splits if_splits; linarith)

lemma num2bin_op_small: "num2bin_op m f s = Inr s' \<Longrightarrow> small m s \<Longrightarrow> small m s'"
  by (auto simp: num2bin_op_def Let_def simp flip: length_greater_0_conv dest!: with_num_Inr split: list.splits if_splits; linarith)

lemma bin2num_op_small: "bin2num_op s = Inr s' \<Longrightarrow> small m s \<Longrightarrow> small m s'"
  by (auto simp: bin2num_op_def Let_def split: list.splits if_splits intro: order_trans [OF length_MinimallyEncode])

lemma locktime_op_small: "locktime_op env f s = Inr s' \<Longrightarrow> s' = s"
  by (auto simp: locktime_op_def dest!: with_num_Inr split: list.splits if_splits)

lemma sequence_op_small: "sequence_op env f s = Inr s' \<Longrightarrow> s' = s"
  by (auto simp: sequence_op_def dest!: with_num_Inr split: list.splits if_splits)

lemma checksig_op_small: "checksig_op env opcode code s = Inr s' \<Longrightarrow> small m s \<Longrightarrow> 520 \<le> m \<Longrightarrow> small m s'"
  by (auto simp: checksig_op_def Let_def split: list.splits option.splits sum.splits if_splits)

lemma checkdatasig_op_small: "checkdatasig_op env opcode s = Inr s' \<Longrightarrow> small m s \<Longrightarrow> 520 \<le> m \<Longrightarrow> small m s'"
  by (auto simp: checkdatasig_op_def Let_def split: list.splits sum.splits if_splits)

lemma multisig_cleanup_drop: "multisig_cleanup env b i k s = Inr s' \<Longrightarrow> s' = drop i s"
  by (induction env b i k s rule: multisig_cleanup.induct) (auto simp: drop_Suc split: if_splits)

lemma multisig_finish_small: "multisig_finish env opcode b s = Inr s' \<Longrightarrow> small m s \<Longrightarrow> 520 \<le> m \<Longrightarrow> small m s'"
  by (auto simp: multisig_finish_def split: list.splits if_splits)

lemma multisig_cleanup_small: "multisig_cleanup env b i k s = Inr s' \<Longrightarrow> small m s \<Longrightarrow> small m s'"
  using multisig_cleanup_drop small_subset set_drop_subset by metis

lemma small_tl: "small m s \<Longrightarrow> small m (tl s)"
  by (cases s) auto

lemma map_sum_Inr: "map_sum id f x = Inr y \<longleftrightarrow> (\<exists>z. x = Inr z \<and> y = f z)"
  by (cases x) auto

lemma checkmultisig_op_small:
  assumes "checkmultisig_op env f opcode code n s = Inr (n', s')" "small m s" "520 \<le> m"
  shows "small m s' \<and> n \<le> n' \<and> n' \<le> MAX_OPS_PER_SCRIPT"
  using assms
  by (auto simp: checkmultisig_op_def Let_def map_sum_Inr dest!: with_num_Inr split: if_splits sum.splits
      elim!: multisig_finish_small) (metis multisig_cleanup_small small_tl)

section \<open>The limits are kept\<close>

text \<open>Every successful result has a property; the collection has one rule for each operation.\<close>

named_theorems keeps_intros "what the operations keep of the limits"

definition keeps :: "('a \<Rightarrow> bool) \<Rightarrow> ScriptError + 'a \<Rightarrow> bool" where
  "keeps P r \<longleftrightarrow> (\<forall>x. r = Inr x \<longrightarrow> P x)"

lemma keeps_basic [keeps_intros]: "keeps P (Inl e)" "P x \<Longrightarrow> keeps P (Inr x)"
  by (auto simp: keeps_def)

lemma keeps_if [keeps_intros]: "keeps P x \<Longrightarrow> keeps P y \<Longrightarrow> keeps P (if b then x else y)"
  by (simp add: keeps_def)

text \<open>The limits: the size of each element and the number of operations.\<close>

definition within_limits :: "nat \<Rightarrow> eval_state \<Rightarrow> bool" where
  "within_limits m st \<longleftrightarrow> small m (es_stack st) \<and> small m (es_altstack st) \<and> es_nOpCount st \<le> MAX_OPS_PER_SCRIPT"

lemma keeps_on_stack [keeps_intros]:
  "within_limits m st \<Longrightarrow> keeps (small m) (f (es_stack st)) \<Longrightarrow> keeps (within_limits m) (on_stack f st)"
  by (auto simp: keeps_def on_stack_def map_sum_Inr within_limits_def)

lemma keeps_stack_ops [keeps_intros]:
  assumes "small m s" "520 \<le> m"
  shows "keeps (small m) (pick_roll f opcode s)"
    "keeps (small m) (equal_op opcode s)"
    "keeps (small m) (bitwise_op opcode s)"
    "keeps (small m) (unary_num f opcode s)"
    "keeps (small m) (binary_num f opcode s)"
    "keeps (small m) (within_op f s)"
    "keeps (small m) (checksig_op env opcode code s)"
    "keeps (small m) (checkdatasig_op env opcode s)"
    "keeps (small m) (stack_op opcode s)"
    "keeps (small m) (cat_op m s)"
    "keeps (small m) (split_op f s)"
    "keeps (small m) (num2bin_op m f s)"
    "keeps (small m) (bin2num_op s)"
  unfolding keeps_def using assms
  by (blast intro: pick_roll_small equal_op_small bitwise_op_small unary_num_small binary_num_small within_op_small checksig_op_small checkdatasig_op_small stack_op_small cat_op_small split_op_small num2bin_op_small bin2num_op_small)+

lemma keeps_hash_op [keeps_intros]:
  "small m s \<Longrightarrow> 520 \<le> m \<Longrightarrow> hash_sizes c \<Longrightarrow> keeps (small m) (hash_op c opcode s)"
  unfolding keeps_def by (blast intro: hash_op_small)

lemma keeps_simple_ops [keeps_intros]:
  assumes "small m s" "520 \<le> m"
  shows "keeps (small m) (push_number_op opcode s)" "keeps (small m) (locktime_op env f s)"
    "keeps (small m) (sequence_op env f s)" "keeps (small m) (nop_op env s)" "keeps (small m) (verify_op s)"
  using assms
  by (auto simp: keeps_def push_number_op_def nop_op_def verify_op_def split: if_splits list.splits
      dest: locktime_op_small sequence_op_small)

lemma keeps_state_ops [keeps_intros]:
  assumes "within_limits m st"
  shows "keeps (within_limits m) (if_op fExec opcode st)" "keeps (within_limits m) (else_op st)"
    "keeps (within_limits m) (endif_op st)" "keeps (within_limits m) (toalt_op st)" "keeps (within_limits m) (fromalt_op st)"
    "520 \<le> m \<Longrightarrow> keeps (within_limits m) (multisig_op env f opcode st)"
  using assms
  by (auto simp: keeps_def within_limits_def if_op_def else_op_def endif_op_def toalt_op_def fromalt_op_def multisig_op_def
      Let_def map_sum_Inr split: if_splits list.splits dest: checkmultisig_op_small)

lemma exec_opcode_limits:
  assumes "within_limits m st" "m = nMaxElementSize (env_flags env)" "hash_sizes (env_crypto env)"
  shows "keeps (within_limits m) (exec_opcode env fExec opcode pc st)"
proof -
  have m: "520 \<le> m"
    by (auto simp: assms(2) nMaxElementSize_def MAX_SCRIPT_ELEMENT_SIZE_def MAX_SCRIPT_ELEMENT_SIZE_EXTENDED_def)
  have s: "small m (es_stack st)" "within_limits m (st\<lparr>es_pbegincodehash := pc\<rparr>)" using assms(1) by (auto simp: within_limits_def)
  show ?thesis
    unfolding exec_opcode_def Let_def assms(2) [symmetric] by (intro keeps_intros assms(1,3) s m)
qed

lemma exec_or_push_limits:
  assumes "within_limits m st" "m = nMaxElementSize (env_flags env)" "hash_sizes (env_crypto env)" "length vch \<le> m"
  shows "keeps (within_limits m) (exec_or_push env opcode vch pc st)"
proof -
  have "within_limits m (st\<lparr>es_stack := vch # es_stack st\<rparr>)" using assms(1,4) by (simp add: within_limits_def)
  then show ?thesis
    unfolding exec_or_push_def Let_def by (intro keeps_if keeps_basic exec_opcode_limits assms)
qed

lemma op_error_None:
  assumes "op_error env opcode vch n = None"
  shows "length vch \<le> nMaxElementSize (env_flags env)" "opcode > OP_16 \<Longrightarrow> n \<le> MAX_OPS_PER_SCRIPT"
  using assms by (auto simp: op_error_def Let_def split: if_splits)

lemma eval_op_limits:
  assumes "within_limits m st" "m = nMaxElementSize (env_flags env)" "hash_sizes (env_crypto env)"
    "eval_op env opcode vch pc st = Inr st'"
  shows "within_limits m st' \<and> length (es_stack st') + length (es_altstack st') \<le> MAX_STACK_SIZE"
proof -
  define n where "n = (if opcode > OP_16 then es_nOpCount st + 1 else es_nOpCount st)"
  have c: "op_error env opcode vch n = None" "exec_or_push env opcode vch pc (st\<lparr>es_nOpCount := n\<rparr>) = Inr st'"
    "length (es_stack st') + length (es_altstack st') \<le> MAX_STACK_SIZE"
    using assms(4) by (auto simp: eval_op_def Let_def n_def [symmetric] split: option.splits sum.splits if_splits)
  have "n \<le> MAX_OPS_PER_SCRIPT" using op_error_None(2) [OF c(1)] assms(1) by (auto simp: n_def within_limits_def)
  then have "within_limits m (st\<lparr>es_nOpCount := n\<rparr>)" using assms(1) by (simp add: within_limits_def)
  from exec_or_push_limits [OF this assms(2,3), of vch opcode pc] op_error_None(1) [OF c(1)] c(2,3) assms(2)
  show ?thesis by (simp add: keeps_def)
qed

lemma eval_loop_limits:
  assumes "m = nMaxElementSize (env_flags env)" "hash_sizes (env_crypto env)"
    "eval_loop env pc st = Inr st'" "within_limits m st" "length (es_stack st) + length (es_altstack st) \<le> MAX_STACK_SIZE"
  shows "within_limits m st' \<and> length (es_stack st') + length (es_altstack st') \<le> MAX_STACK_SIZE"
  using assms
proof (induction env pc st rule: eval_loop.induct)
  case (1 env pc st)
  show ?case
  proof (cases "pc = []")
    case True
    then show ?thesis using 1 by (simp add: eval_loop.simps)
  next
    case False
    obtain opcode vch pc' st1 where s: "GetScriptOp pc = (Some (opcode, vch), pc')"
      "eval_op env opcode vch pc' st = Inr st1" "eval_loop env pc' st1 = Inr st'"
      using 1(4) False by (subst (asm) eval_loop.simps) (auto split: prod.splits option.splits sum.splits)
    note l = eval_op_limits [OF 1(5,2,3) s(2)]
    show ?thesis using 1(1) [OF False s(1) [symmetric] refl refl s(2) 1(2,3) s(3)] l by blast
  qed
qed

end
