(* ===== verification/StandardScripts.thy ===== *)
theory StandardScripts imports Interpreter
begin

text \<open>
  The standard output scripts, \<^verbatim>\<open>script/standard.cpp\<close>: recognising the templates (\<open>Solver\<close>), reading the destinations of a
  script and building the script of a destination; and what the interpreter does on these scripts, by symbolic runs.
  A public key is the bytes from \<open>begin()\<close> to \<open>end()\<close>: none for an invalid key.
\<close>

section \<open>Templates\<close>

datatype TxoutType = NONSTANDARD | PUBKEY | PUBKEYHASH | SCRIPTHASH | MULTISIG | NULL_DATA

datatype CTxDestination = CNoDestination | PKHash bytes | ScriptHash bytes

definition PubKey_ValidSize :: "valtype \<Rightarrow> bool" where
  "PubKey_ValidSize vch \<longleftrightarrow> length vch > 0 \<and> PubKey_GetLen (hd vch) = length vch"

text \<open>The matchers give what the code stores in its reference parameters, \<open>None\<close> for false.\<close>

definition MatchPayToPubkey :: "CScript \<Rightarrow> valtype option" where
  "MatchPayToPubkey script =
     (if length script = PUBKEY_SIZE + 2 \<and> unat (script ! 0) = PUBKEY_SIZE \<and> last script = OP_CHECKSIG
      then let pubkey = take PUBKEY_SIZE (drop 1 script)
           in if PubKey_ValidSize pubkey then Some pubkey else None
      else if length script = COMPRESSED_SIZE + 2 \<and> unat (script ! 0) = COMPRESSED_SIZE \<and> last script = OP_CHECKSIG
      then let pubkey = take COMPRESSED_SIZE (drop 1 script)
           in if PubKey_ValidSize pubkey then Some pubkey else None
      else None)"

definition MatchPayToPubkeyHash :: "CScript \<Rightarrow> valtype option" where
  "MatchPayToPubkeyHash script =
     (if length script = 25 \<and> script ! 0 = OP_DUP \<and> script ! 1 = OP_HASH160 \<and> script ! 2 = 20
         \<and> script ! 23 = OP_EQUALVERIFY \<and> script ! 24 = OP_CHECKSIG
      then Some (take 20 (drop 3 script)) else None)"

definition IsSmallInteger :: "byte \<Rightarrow> bool" where
  "IsSmallInteger opcode \<longleftrightarrow> opcode \<ge> OP_1 \<and> opcode \<le> OP_16"

text \<open>
  The loop over the keys: the opcode and the position it ends with, and the keys.  A failing read leaves
  \<open>OP_INVALIDOPCODE\<close> in \<open>opcode\<close>.
\<close>

function match_keys :: "bytes \<Rightarrow> byte \<times> bytes \<times> valtype list" where
  "match_keys it =
     (case GetScriptOp it of
        (None, it') \<Rightarrow> (OP_INVALIDOPCODE, it', [])
      | (Some (opcode, data), it') \<Rightarrow>
          if PubKey_ValidSize data
          then (case match_keys it' of (op, r, pubkeys) \<Rightarrow> (op, r, data # pubkeys))
          else (opcode, it', []))"
  by pat_completeness auto

termination
  by (relation "measure length") (auto dest: GetScriptOp_less [OF sym])

declare match_keys.simps [simp del]

definition MatchMultisig :: "CScript \<Rightarrow> (int \<times> valtype list) option" where
  "MatchMultisig script =
     (if length script < 1 \<or> last script \<noteq> OP_CHECKMULTISIG then None
      else case GetScriptOp script of
             (Some (opcode, _), it) \<Rightarrow>
               if \<not> IsSmallInteger opcode then None
               else (case match_keys it of
                       (opcode', it', pubkeys) \<Rightarrow>
                         if \<not> IsSmallInteger opcode' then None
                         else (case (DecodeOP_N opcode, DecodeOP_N opcode') of
                                 (Some required, Some keys) \<Rightarrow>
                                   if int (length pubkeys) \<noteq> keys \<or> keys < required then None
                                   else if length it' = 1 then Some (required, pubkeys) else None
                               | _ \<Rightarrow> None))
           | _ \<Rightarrow> None)"

definition Solver :: "CScript \<Rightarrow> TxoutType \<times> valtype list" where
  "Solver scriptPubKey =
     (if IsPayToScriptHash scriptPubKey then (SCRIPTHASH, [take 20 (drop 2 scriptPubKey)])
      else if length scriptPubKey \<ge> 1 \<and> scriptPubKey ! 0 = OP_RETURN \<and> IsPushOnly (drop 1 scriptPubKey)
      then (NULL_DATA, [])
      else case MatchPayToPubkey scriptPubKey of
             Some data \<Rightarrow> (PUBKEY, [data])
           | None \<Rightarrow>
               (case MatchPayToPubkeyHash scriptPubKey of
                  Some data \<Rightarrow> (PUBKEYHASH, [data])
                | None \<Rightarrow>
                    (case MatchMultisig scriptPubKey of
                       Some (required, keys) \<Rightarrow>
                         (MULTISIG, [[word_of_int required]] @ keys @ [[word_of_nat (length keys)]])
                     | None \<Rightarrow> (NONSTANDARD, []))))"

section \<open>Destinations\<close>

definition ExtractDestination :: "crypto \<Rightarrow> CScript \<Rightarrow> CTxDestination option" where
  "ExtractDestination cr scriptPubKey =
     (case Solver scriptPubKey of
        (whichType, vSolutions) \<Rightarrow>
          if whichType = PUBKEY
          then if \<not> PubKey_IsValid (vSolutions ! 0) then None else Some (PKHash (Hash160 cr (vSolutions ! 0)))
          else if whichType = PUBKEYHASH then Some (PKHash (vSolutions ! 0))
          else if whichType = SCRIPTHASH then Some (ScriptHash (vSolutions ! 0))
          else None)"

text \<open>The result of \<open>ExtractDestinations\<close> with its three reference parameters; \<open>nRequired\<close> is the last one's old value.\<close>

definition ExtractDestinations :: "crypto \<Rightarrow> CScript \<Rightarrow> int \<Rightarrow> bool \<times> TxoutType \<times> CTxDestination list \<times> int" where
  "ExtractDestinations cr scriptPubKey nRequired =
     (case Solver scriptPubKey of
        (typeRet, vSolutions) \<Rightarrow>
          if typeRet = NONSTANDARD then (False, typeRet, [], nRequired)
          else if typeRet = NULL_DATA then (False, typeRet, [], nRequired)
          else if typeRet = MULTISIG
          then let addressRet = map (\<lambda>k. PKHash (Hash160 cr k)) (filter PubKey_IsValid (butlast (tl vSolutions)))
               in (addressRet \<noteq> [], typeRet, addressRet, uint (hd (hd vSolutions)))
          else (case ExtractDestination cr scriptPubKey of
                  None \<Rightarrow> (False, typeRet, [], 1)
                | Some address \<Rightarrow> (True, typeRet, [address], 1)))"

fun GetScriptForDestination :: "CTxDestination \<Rightarrow> CScript" where
  "GetScriptForDestination CNoDestination = []"
| "GetScriptForDestination (PKHash keyID) =
     push_opcode (push_opcode (push_data (push_opcode (push_opcode [] OP_DUP) OP_HASH160) keyID) OP_EQUALVERIFY) OP_CHECKSIG"
| "GetScriptForDestination (ScriptHash scriptID) = push_opcode (push_data (push_opcode [] OP_HASH160) scriptID) OP_EQUAL"

definition GetScriptForRawPubKey :: "bytes \<Rightarrow> CScript" where
  "GetScriptForRawPubKey pubKey = push_opcode (push_data [] pubKey) OP_CHECKSIG"

text \<open>\<open>None\<close>: an assertion of \<open>EncodeOP_N\<close> fails.\<close>

definition GetScriptForMultisig :: "int \<Rightarrow> bytes list \<Rightarrow> CScript option" where
  "GetScriptForMultisig nRequired keys =
     (case (EncodeOP_N nRequired, EncodeOP_N (int (length keys))) of
        (Some m, Some n) \<Rightarrow> Some (push_opcode (push_opcode (fold (\<lambda>key script. push_data script key) keys (push_opcode [] m)) n)
                                    OP_CHECKMULTISIG)
      | _ \<Rightarrow> None)"

definition IsValidDestination :: "CTxDestination \<Rightarrow> bool" where
  "IsValidDestination dest \<longleftrightarrow> dest \<noteq> CNoDestination"

abbreviation P2PKH_script :: "bytes \<Rightarrow> CScript" where
  "P2PKH_script h \<equiv> GetScriptForDestination (PKHash h)"

abbreviation P2SH_script :: "bytes \<Rightarrow> CScript" where
  "P2SH_script h \<equiv> GetScriptForDestination (ScriptHash h)"

section \<open>Running instructions\<close>

lemmas op_lists = nop_opcodes_def stack_opcodes_def unary_opcodes_def binary_opcodes_def hash_opcodes_def
  dip0020_opcodes_def disabled_opcodes_def

text \<open>The switch on the opcodes of the standard scripts.\<close>

lemma exec_opcode_standard:
  "exec_opcode env f OP_DUP pc st = on_stack (stack_op OP_DUP) st"
  "exec_opcode env f OP_HASH160 pc st = on_stack (hash_op (env_crypto env) OP_HASH160) st"
  "exec_opcode env f OP_EQUALVERIFY pc st = on_stack (equal_op OP_EQUALVERIFY) st"
  "exec_opcode env f OP_EQUAL pc st = on_stack (equal_op OP_EQUAL) st"
  "exec_opcode env f OP_CHECKSIG pc st = on_stack (checksig_op env OP_CHECKSIG (es_pbegincodehash st)) st"
  "exec_opcode env f OP_RETURN pc st = Inl SCRIPT_ERR_OP_RETURN"
  "exec_opcode env f OP_CAT pc st = on_stack (cat_op (nMaxElementSize (env_flags env))) st"
  by (simp_all add: exec_opcode_def Let_def opcodes op_lists)


lemma GetScriptOp_opcode: "OP_PUSHDATA4 < opcode \<Longrightarrow> GetScriptOp (opcode # pc) = (Some (opcode, []), pc)"
proof -
  assume "OP_PUSHDATA4 < opcode"
  then have n: "(opcode \<le> OP_PUSHDATA4) = False" by simp
  show ?thesis unfolding GetScriptOp_def list.case n by simp
qed

definition plain_opcode :: "byte \<Rightarrow> bool" where
  "plain_opcode opcode \<longleftrightarrow>
     OP_16 < opcode \<and> opcode \<notin> set dip0020_opcodes \<and> opcode \<notin> set disabled_opcodes \<and> opcode \<noteq> OP_CODESEPARATOR"

lemma plain_opcodes:
  "plain_opcode OP_DUP" "plain_opcode OP_HASH160" "plain_opcode OP_EQUALVERIFY" "plain_opcode OP_EQUAL"
  "plain_opcode OP_CHECKSIG" "plain_opcode OP_RETURN"
  by (simp_all add: plain_opcode_def opcodes op_lists)

lemma eval_loop_exec:
  assumes "plain_opcode opcode" "False \<notin> set (es_vfExec st)"
  shows "eval_loop env (opcode # pc) st =
    (if es_nOpCount st + 1 > MAX_OPS_PER_SCRIPT then Inl SCRIPT_ERR_OP_COUNT
     else case exec_opcode env True opcode pc (st\<lparr>es_nOpCount := es_nOpCount st + 1\<rparr>) of
            Inl e \<Rightarrow> Inl e
          | Inr st' \<Rightarrow>
              if length (es_stack st') + length (es_altstack st') > MAX_STACK_SIZE then Inl SCRIPT_ERR_STACK_SIZE
              else eval_loop env pc st')"
proof -
  have lt: "OP_16 < opcode" using assms(1) by (simp add: plain_opcode_def)
  moreover have "OP_PUSHDATA4 < OP_16" by (simp add: opcodes)
  ultimately have gt: "OP_PUSHDATA4 < opcode" by (rule less_trans [rotated])
  have err: "op_error env opcode [] n = (if n > MAX_OPS_PER_SCRIPT then Some SCRIPT_ERR_OP_COUNT else None)" for n
    using assms(1) lt by (simp add: op_error_def Let_def plain_opcode_def)
  show ?thesis
    using assms(2) lt gt
    by (subst eval_loop.simps)
      (auto simp: GetScriptOp_opcode [OF gt] eval_op_def Let_def err exec_or_push_def split: sum.split)
qed

text \<open>A push of up to 75 bytes is the length and the bytes.\<close>

lemma small_push:
  assumes "2 \<le> length b" "length b \<le> 75" "o' = (word_of_nat (length b) :: byte)"
  shows "push_data [] b = o' # b" "unat o' = length b" "o' \<le> OP_PUSHDATA4" "\<not> OP_16 < o'"
    "GetScriptOp (o' # b @ pc) = (Some (o', b), pc)"
proof -
  show u: "unat o' = length b" using assms by (simp add: unat_of_nat)
  have lt: "o' < OP_PUSHDATA1" using assms u by (simp add: opcodes word_less_nat_alt)
  show le: "o' \<le> OP_PUSHDATA4" "\<not> OP_16 < o'"
    using assms u by (simp_all add: opcodes word_le_nat_alt word_less_nat_alt)
  show "push_data [] b = o' # b" using assms by (simp add: push_data_def opcodes)
  show "GetScriptOp (o' # b @ pc) = (Some (o', b), pc)" using u le lt by (simp add: GetScriptOp_def read_push_def)
qed

lemma eval_loop_push:
  assumes "2 \<le> length b" "length b \<le> 75" "False \<notin> set (es_vfExec st)"
  shows "eval_loop env (push_data [] b @ pc) st =
    (if length (es_stack st) + length (es_altstack st) + 1 > MAX_STACK_SIZE then Inl SCRIPT_ERR_STACK_SIZE
     else eval_loop env pc (st\<lparr>es_stack := b # es_stack st\<rparr>))"
proof -
  let ?o = "word_of_nat (length b) :: byte"
  note p = small_push [OF assms(1,2) refl]
  have "?o \<notin> set dip0020_opcodes" "?o \<notin> set disabled_opcodes" "?o \<noteq> OP_CODESEPARATOR"
    using p(4) by (auto simp: opcodes op_lists)
  moreover have "\<not> nMaxElementSize (env_flags env) < length b"
    using assms(2) by (simp add: nMaxElementSize_def MAX_SCRIPT_ELEMENT_SIZE_def MAX_SCRIPT_ELEMENT_SIZE_EXTENDED_def)
  ultimately have err: "op_error env ?o b n = None" for n using p(4) by (simp add: op_error_def Let_def)
  have "CheckMinimalPush b ?o" using assms(1,2) p(2) by (auto simp: CheckMinimalPush_def)
  then show ?thesis unfolding p(1)
    using assms(3) p(3,4) by (subst append_Cons, subst eval_loop.simps) (auto simp: p(5) eval_op_def Let_def err exec_or_push_def)
qed

lemma eval_loop_Nil [simp]: "eval_loop env [] st = Inr st"
  by (simp add: eval_loop.simps)

section \<open>Standard scripts\<close>

lemma P2PKH_split: "P2PKH_script h = OP_DUP # OP_HASH160 # push_data [] h @ [OP_EQUALVERIFY, OP_CHECKSIG]"
  by (subst push_data_append) (simp add: push_opcode_def push_data_append [of "[OP_DUP, OP_HASH160]"])

lemma P2SH_split: "P2SH_script h = OP_HASH160 # push_data [] h @ [OP_EQUAL]"
  by (simp add: push_opcode_def push_data_append [of "[OP_HASH160]"])

declare GetScriptForDestination.simps [simp del]

lemma standard_length:
  "length h = 20 \<Longrightarrow> length (P2PKH_script h) = 25" "length h = 20 \<Longrightarrow> length (P2SH_script h) = 23"
  by (simp_all add: P2PKH_split P2SH_split push_data_def opcodes)

lemma IsPayToScriptHash_P2SH: "length h = 20 \<Longrightarrow> IsPayToScriptHash (P2SH_script h)"
  by (simp add: IsPayToScriptHash_def standard_length) (simp add: P2SH_split push_data_def opcodes nth_append)

lemma IsPayToPublicKeyHash_P2PKH: "length h = 20 \<Longrightarrow> IsPayToPublicKeyHash (P2PKH_script h)"
  by (simp add: IsPayToPublicKeyHash_def standard_length) (simp add: P2PKH_split push_data_def opcodes nth_append)

text \<open>The instructions of the standard scripts on the stacks they meet.\<close>

lemma standard_ops:
  "stack_op OP_DUP (x # r) = Inr (x # x # r)"
  "hash_op cr OP_HASH160 (x # r) = Inr (Hash160 cr x # r)"
  "hash_op cr OP_HASH160 [] = Inl SCRIPT_ERR_INVALID_STACK_OPERATION"
  "equal_op OP_EQUALVERIFY (x # y # r) = (if y = x then Inr r else Inl SCRIPT_ERR_EQUALVERIFY)"
  "equal_op OP_EQUAL (x # y # r) = Inr (bool_vch (y = x) # r)"
  by (auto simp: stack_op_def hash_op_def equal_op_def opcodes stack_opcodes_def)

lemmas run_defs = eval_loop_exec plain_opcodes exec_opcode_standard eval_loop_push on_stack_def standard_ops
  MAX_OPS_PER_SCRIPT_def

lemma checksig_op_length: "checksig_op env OP_CHECKSIG c (pk # sig # r) = Inr s \<Longrightarrow> length s \<le> Suc (length r)"
  by (auto simp: checksig_op_def Let_def split: if_splits option.splits sum.splits)

lemma EvalScript_P2PKH:
  assumes "length h = 20" "length r + 4 \<le> MAX_STACK_SIZE"
  shows "EvalScript env (pk # sig # r) (P2PKH_script h) =
    (if Hash160 (env_crypto env) pk = h then checksig_op env OP_CHECKSIG (P2PKH_script h) (pk # sig # r)
     else Inl SCRIPT_ERR_EQUALVERIFY)"
proof (cases "checksig_op env OP_CHECKSIG (P2PKH_script h) (pk # sig # r)")
  case (Inl e)
  with assms show ?thesis
    by (simp add: EvalScript_def MAX_SCRIPT_SIZE_def standard_length) (simp add: P2PKH_split run_defs)
next
  case (Inr s)
  with checksig_op_length [OF this] assms show ?thesis
    by (simp add: EvalScript_def MAX_SCRIPT_SIZE_def standard_length) (simp add: P2PKH_split run_defs)
qed

lemma EvalScript_P2SH:
  assumes "length h = 20"
  shows "EvalScript env stack (P2SH_script h) =
    (case stack of
       [] \<Rightarrow> Inl SCRIPT_ERR_INVALID_STACK_OPERATION
     | x # r \<Rightarrow> if length r + 2 \<le> MAX_STACK_SIZE then Inr (bool_vch (Hash160 (env_crypto env) x = h) # r)
                else Inl SCRIPT_ERR_STACK_SIZE)"
  using assms by (cases stack; simp add: EvalScript_def MAX_SCRIPT_SIZE_def standard_length)
    (auto simp: P2SH_split run_defs)

lemma EvalScript_pushes:
  assumes "2 \<le> length sig" "length sig \<le> 75" "2 \<le> length pk" "length pk \<le> 75"
  shows "EvalScript env [] (push_data (push_data [] sig) pk) = Inr [pk, sig]"
proof -
  have l: "length (push_data [] sig @ push_data [] pk) \<le> MAX_SCRIPT_SIZE"
    using assms by (simp add: push_data_def opcodes MAX_SCRIPT_SIZE_def)
  have "eval_loop env (push_data [] pk) st = Inr (st\<lparr>es_stack := pk # es_stack st\<rparr>)"
    if "es_vfExec st = []" "es_altstack st = []" "length (es_stack st) = 1" for st
    using eval_loop_push [of pk st env "[]"] assms that by (simp add: MAX_STACK_SIZE_def)
  with l assms show ?thesis
    by (simp add: push_data_append [of "push_data [] sig"] EvalScript_def eval_loop_push MAX_STACK_SIZE_def)
qed

lemma not_P2SH_P2PKH: "length h = 20 \<Longrightarrow> \<not> IsPayToScriptHash (P2PKH_script h)"
  by (simp add: IsPayToScriptHash_def standard_length)

lemma true_top_bool [simp]: "true_top (bool_vch b # r) = b"
  by (simp add: true_top_def bool_vch_def vchTrue_def vchFalse_def CastToBool_def)

lemma clean_check_single:
  "flag flags SCRIPT_VERIFY_CLEANSTACK \<longrightarrow> flag flags SCRIPT_VERIFY_P2SH \<Longrightarrow> clean_check flags [x] = Some (Inr ())"
  by (simp add: clean_check_def)

lemma IsPushOnly_push:
  assumes "2 \<le> length b" "length b \<le> 75"
  shows "IsPushOnly (push_data [] b @ pc) = IsPushOnly pc"
  using small_push [OF assms refl] by (simp, subst IsPushOnly.simps) simp

lemma IsPushOnly_pushes:
  assumes "2 \<le> length sig" "length sig \<le> 75" "2 \<le> length pk" "length pk \<le> 75"
  shows "IsPushOnly (push_data (push_data [] sig) pk)"
proof -
  have "IsPushOnly []" by (subst IsPushOnly.simps) simp
  with IsPushOnly_push [OF assms(3,4), of "[]"] show ?thesis
    by (simp add: push_data_append [of "push_data [] sig"] IsPushOnly_push [OF assms(1,2)])
qed

section \<open>Spending the standard outputs\<close>

text \<open>
  C13: A pay-to-public-key-hash output, spent with a signature and a key pushed in the usual way: the script engine
  accepts exactly when the key hashes to the committed hash, the encodings pass the checks the flags ask for, and the
  checker accepts the signature over the script without the signature; each other outcome has its own error.
\<close>

theorem VerifyScript_P2PKH:
  assumes "length h = 20" "2 \<le> length sig" "length sig \<le> 75" "2 \<le> length pk" "length pk \<le> 75"
    "flag flags SCRIPT_VERIFY_CLEANSTACK \<longrightarrow> flag flags SCRIPT_VERIFY_P2SH"
    "env = \<lparr>env_flags = flags, env_checker = ck, env_sigversion = BASE, env_crypto = cr\<rparr>"
  shows "VerifyScript cr (push_data (push_data [] sig) pk) (P2PKH_script h) flags ck =
    (if Hash160 cr pk \<noteq> h then Some (Inl SCRIPT_ERR_EQUALVERIFY)
     else case check_encodings env sig pk of
            Some e \<Rightarrow> Some (Inl e)
          | None \<Rightarrow>
              (case drop_signature env (P2PKH_script h) sig of
                 Inl e \<Rightarrow> Some (Inl e)
               | Inr scriptCode \<Rightarrow>
                   if (if flag flags SCRIPT_ENABLE_SCHNORR \<and> IsSchnorrSignature sig
                       then CheckSchnorrSig ck (take 64 sig) pk scriptCode (last sig)
                       else CheckSig ck sig pk scriptCode BASE) then Some (Inr ())
                   else if flag flags SCRIPT_VERIFY_NULLFAIL then Some (Inl SCRIPT_ERR_SIG_NULLFAIL)
                   else Some (Inl SCRIPT_ERR_EVAL_FALSE)))"
  using assms
  by (auto simp: VerifyScript_def IsPushOnly_pushes clean_check_single EvalScript_pushes EvalScript_P2PKH MAX_STACK_SIZE_def not_P2SH_P2PKH checksig_op_def
      Let_def opcodes split: option.split sum.split)

text \<open>A hash family with digests of the right sizes, and signature checks that fail, for the instances below.\<close>

definition example_crypto :: crypto where
  "example_crypto = \<lparr>RIPEMD160 = \<lambda>_. replicate 20 7, SHA1 = \<lambda>_. replicate 20 1, SHA256 = \<lambda>_. replicate 32 2,
     PubKey_Verify = \<lambda>_ _ _. False, PubKey_VerifySchnorr = \<lambda>_ _ _. False, PubKey_CheckLowS = \<lambda>_. False\<rparr>"

theorem VerifyScript_P2PKH_witness:
  "VerifyScript example_crypto
     (push_data (push_data [] [1, 2, 3]) [4, 5]) (GetScriptForDestination (PKHash (replicate 20 7))) SCRIPT_VERIFY_NONE
     (base_checker\<lparr>CheckSig := \<lambda>sig pk code v. sig = [1, 2, 3] \<and> pk = [4, 5]\<rparr>) = Some (Inr ())"
  (is "VerifyScript ?cr _ _ ?f ?ck = _")
proof -
  have "drop_signature \<lparr>env_flags = ?f, env_checker = ?ck, env_sigversion = BASE, env_crypto = example_crypto\<rparr> c s =
      Inr (snd (FindAndDelete c (push_data [] s)))" for c s
    by (simp add: drop_signature_def flag_def flag_defs split: prod.split)
  moreover have "check_encodings \<lparr>env_flags = ?f, env_checker = ?ck, env_sigversion = BASE, env_crypto = example_crypto\<rparr> s k = None" for s k
    by (simp add: check_encodings_def CheckSignatureEncoding_def CheckPubKeyEncoding_def flag_def flag_defs)
  ultimately show ?thesis
    by (subst VerifyScript_P2PKH [OF _ _ _ _ _ _ refl]) (simp_all add: Hash160_def example_crypto_def flag_def flag_defs)
qed

text \<open>
  C2: A pay-to-script-hash output under the pay-to-script-hash rule: verification succeeds exactly when the
  signature script only pushes, leaves at least one item (within the stack limit), the top item hashes to the committed hash, and that
  item, run as a script on the rest of the stack, ends with a true value on top (and nothing else, when a clean stack is asked for).
\<close>

theorem VerifyScript_P2SH:
  assumes "length h = 20" "flag flags SCRIPT_VERIFY_P2SH"
    "env = \<lparr>env_flags = flags, env_checker = ck, env_sigversion = BASE, env_crypto = cr\<rparr>"
  shows "VerifyScript cr scriptSig (GetScriptForDestination (ScriptHash h)) flags ck = Some (Inr ()) \<longleftrightarrow>
    IsPushOnly scriptSig \<and>
    (\<exists>redeem rest stack2. EvalScript env [] scriptSig = Inr (redeem # rest) \<and> length rest + 2 \<le> MAX_STACK_SIZE
       \<and> Hash160 cr redeem = h \<and> EvalScript env rest redeem = Inr stack2 \<and> true_top stack2
       \<and> (flag flags SCRIPT_VERIFY_CLEANSTACK \<longrightarrow> length stack2 = 1))"
proof -
  have "clean_check flags s = Some (Inr ()) \<longleftrightarrow> (flag flags SCRIPT_VERIFY_CLEANSTACK \<longrightarrow> length s = 1)" for s
    using assms(2) by (simp add: clean_check_def)
  with assms show ?thesis
    by (cases "EvalScript env [] scriptSig") (auto simp: VerifyScript_def Let_def EvalScript_P2SH IsPayToScriptHash_P2SH split: sum.splits list.splits if_splits)
qed

theorem VerifyScript_P2SH_witness:
  "VerifyScript example_crypto
     (push_data [] [OP_1, OP_1]) (GetScriptForDestination (ScriptHash (replicate 20 7))) SCRIPT_VERIFY_P2SH base_checker = Some (Inr ())"
proof -
  let ?env = "\<lparr>env_flags = SCRIPT_VERIFY_P2SH, env_checker = base_checker, env_sigversion = BASE, env_crypto = example_crypto\<rparr>"
  have "EvalScript ?env [] (push_data [] [OP_1, OP_1]) = Inr [[OP_1, OP_1]]" by code_simp
  moreover have "EvalScript ?env [] [OP_1, OP_1] = Inr [[1], [1]]" by code_simp
  moreover have "IsPushOnly (push_data [] [OP_1, OP_1])" by code_simp
  moreover have "true_top [[1], [1]]" by code_simp
  ultimately show ?thesis
    by (subst VerifyScript_P2SH [OF _ _ refl]) (simp_all add: flag_def flag_defs Hash160_def example_crypto_def MAX_STACK_SIZE_def)
qed


lemma EvalScript_unspendable:
  assumes "IsUnspendable script"
  shows "\<exists>e. EvalScript env stack script = Inl e"
proof (cases "length script > MAX_SCRIPT_SIZE")
  case False
  then obtain r where r: "script = OP_RETURN # r" using assms by (cases script) (auto simp: IsUnspendable_def)
  with False show ?thesis by (simp add: EvalScript_def run_defs)
qed (simp add: EvalScript_def)

text \<open>
  C27: The outputs the node prunes as unspendable cannot be spent: no signature script makes verification of such an
  output succeed, whatever the flags and the signature checker.
\<close>

theorem IsUnspendable_sound:
  assumes "IsUnspendable scriptPubKey"
  shows "VerifyScript cr scriptSig scriptPubKey flags ck \<noteq> Some (Inr ())"
proof -
  from EvalScript_unspendable [OF assms] have "\<exists>e. EvalScript env stack scriptPubKey = Inl e" for env stack .
  then show ?thesis by (simp add: VerifyScript_def Let_def split: sum.split) (metis sum.distinct(1))
qed

theorem IsUnspendable_sound_witness:
  "VerifyScript example_crypto [OP_1] [OP_RETURN, OP_1] SCRIPT_VERIFY_NONE base_checker \<noteq> Some (Inr ())"
  by (rule IsUnspendable_sound) (simp add: IsUnspendable_def)


text \<open>
  The script flags are not all soft forks, as the comment on them says: with the flag of the re-enabled opcodes the node accepts a script it
  rejects without it, for every checker.
\<close>

theorem DIP0020_not_soft_fork:
  "VerifyScript cr [] [OP_1, OP_1, OP_CAT] (SCRIPT_VERIFY_NONE OR SCRIPT_ENABLE_DIP0020_OPCODES) ck = Some (Inr ()) \<and>
   VerifyScript cr [] [OP_1, OP_1, OP_CAT] SCRIPT_VERIFY_NONE ck = Some (Inl SCRIPT_ERR_DISABLED_OPCODE)"
by code_simp

text \<open>
  A strictly encoded DER signature with its hash type can have 65 bytes, the length the Schnorr rule takes for its own.
\<close>

theorem DER_signature_65:
  "\<exists>vchSig. IsValidSignatureEncoding vchSig \<and> IsSchnorrSignature vchSig"
proof (intro exI conjI)
  let ?s = "[0x30, 62, 0x02, 29] @ replicate 29 1 @ [0x02, 29] @ replicate 29 1 @ [1] :: bytes"
  show "IsValidSignatureEncoding ?s" by code_simp
  show "IsSchnorrSignature ?s" by (simp add: IsSchnorrSignature_def)
qed

text \<open>
  C26: The script interpreter keeps its resource limits: if the hash functions return digests of their sizes and
  the initial stack is within the limits, then whenever \<open>EvalScript\<close> accepts, no more than 1000 elements are left and
  each has at most 520 bytes, or 4096 with the large-elements flag.
\<close>

theorem EvalScript_limits:
  assumes "hash_sizes (env_crypto env)" "EvalScript env stack script = Inr stack'"
    "length stack \<le> MAX_STACK_SIZE" "\<forall>x \<in> set stack. length x \<le> nMaxElementSize (env_flags env)"
  shows "length stack' \<le> MAX_STACK_SIZE \<and> (\<forall>x \<in> set stack'. length x \<le> nMaxElementSize (env_flags env))"
proof -
  let ?st = "\<lparr>es_stack = stack, es_altstack = [], es_vfExec = [], es_nOpCount = 0, es_pbegincodehash = script\<rparr>"
  obtain st' where st': "eval_loop env script ?st = Inr st'" "es_stack st' = stack'"
    using assms(2) by (auto simp: EvalScript_def split: if_splits sum.splits)
  have "within_limits (nMaxElementSize (env_flags env)) ?st"
    using assms(4) by (auto simp: within_limits_def small_def MAX_OPS_PER_SCRIPT_def)
  from eval_loop_limits [OF refl assms(1) st'(1) this] assms(3) st'(2) show ?thesis
    by (auto simp: within_limits_def small_def)
qed

theorem EvalScript_limits_witness:
  "length [vchTrue, replicate 20 7 :: byte list] \<le> MAX_STACK_SIZE 
    \<and> length vchTrue \<le> nMaxElementSize 0 \<and> length (replicate 20 7 :: bytes) \<le> nMaxElementSize 0"
proof -
  have "EvalScript \<lparr>env_flags = 0, env_checker = base_checker, env_sigversion = BASE, env_crypto = example_crypto\<rparr> [[5]]
      [OP_HASH160, OP_1] = Inr [vchTrue, replicate 20 7]"
    by code_simp
  moreover have "hash_sizes example_crypto" by (simp add: hash_sizes_def example_crypto_def)
  ultimately show ?thesis
    using EvalScript_limits [of "\<lparr>env_flags = 0, env_checker = base_checker, env_sigversion = BASE, env_crypto = example_crypto\<rparr>"]
    by (fastforce simp: MAX_STACK_SIZE_def nMaxElementSize_def MAX_SCRIPT_ELEMENT_SIZE_def MAX_SCRIPT_ELEMENT_SIZE_EXTENDED_def)
qed

section \<open>Recognising the templates\<close>

lemma not_nulldata: "GetScriptForDestination d = c # s \<Longrightarrow> c \<noteq> OP_RETURN"
  by (cases d) (auto simp: P2PKH_split P2SH_split GetScriptForDestination.simps(1) opcodes)

lemma Solver_P2SH: "length h = 20 \<Longrightarrow> Solver (P2SH_script h) = (SCRIPTHASH, [h])"
  by (simp add: Solver_def IsPayToScriptHash_P2SH) (simp add: P2SH_split push_data_def opcodes)

lemma Solver_P2PKH:
  assumes "length h = 20"
  shows "Solver (P2PKH_script h) = (PUBKEYHASH, [h])"
proof -
  have "MatchPayToPubkey (P2PKH_script h) = None" using assms by (simp add: MatchPayToPubkey_def standard_length PUBKEY_SIZE_def COMPRESSED_SIZE_def)
  moreover have "MatchPayToPubkeyHash (P2PKH_script h) = Some h"
    using assms by (simp add: MatchPayToPubkeyHash_def standard_length) (simp add: P2PKH_split push_data_def opcodes nth_append)
  moreover have "P2PKH_script h ! 0 \<noteq> OP_RETURN" by (simp add: P2PKH_split opcodes)
  ultimately show ?thesis using assms by (simp add: Solver_def not_P2SH_P2PKH)
qed

lemma PubKey_sizes:
  assumes "PubKey_ValidSize k"
  shows "2 \<le> length k" "length k \<le> 75"
  using assms by (auto simp: PubKey_ValidSize_def PubKey_GetLen_def COMPRESSED_SIZE_def PUBKEY_SIZE_def split: if_splits)

lemma match_keys_push:
  "PubKey_ValidSize k \<Longrightarrow> match_keys (push_data [] k @ r) = (case match_keys r of (op, it, ks) \<Rightarrow> (op, it, k # ks))"
  using small_push [OF PubKey_sizes refl] by (simp, subst match_keys.simps) simp

lemma match_keys_end: "OP_PUSHDATA4 < op \<Longrightarrow> match_keys (op # r) = (op, r, [])"
  by (subst match_keys.simps) (simp add: GetScriptOp_opcode PubKey_ValidSize_def)

lemma match_keys_pushes:
  assumes "\<forall>k \<in> set keys. PubKey_ValidSize k" "OP_PUSHDATA4 < op"
  shows "match_keys (concat (map (push_data []) keys) @ op # r) = (op, r, keys)"
  using assms by (induction keys) (simp_all add: match_keys_push match_keys_end)

lemma fold_push_data: "fold (\<lambda>key script. push_data script key) keys s = s @ concat (map (push_data []) keys)"
proof (induction keys arbitrary: s)
  case (Cons k keys)
  then show ?case using push_data_append [of s k] by simp
qed simp

lemma EncodeOP_N_small:
  assumes "1 \<le> n" "n \<le> 16"
  shows "\<exists>op. EncodeOP_N n = Some op \<and> IsSmallInteger op \<and> DecodeOP_N op = Some n \<and> OP_PUSHDATA4 < op \<and> op \<noteq> OP_HASH160 \<and> op \<noteq> OP_RETURN
    \<and> op \<noteq> OP_DUP"
proof -
  define op where "op = (word_of_int (uint OP_1 + n - 1) :: byte)"
  have u: "uint op = 80 + n" using assms unfolding op_def by (subst uint_word_of_int) (simp add: opcodes)
  have "EncodeOP_N n = Some op" using assms by (simp add: EncodeOP_N_def op_def)
  with assms u show ?thesis
    by (intro exI [of _ op])
      (auto simp: IsSmallInteger_def DecodeOP_N_def opcodes word_le_def word_less_def word_uint_eq_iff)
qed

lemma MatchMultisig_build:
  assumes "1 \<le> m" "m \<le> int (length keys)" "length keys \<le> 16" "\<forall>k \<in> set keys. PubKey_ValidSize k"
  shows "\<exists>script. GetScriptForMultisig m keys = Some script \<and> Solver script = (MULTISIG, [[word_of_int m]] @ keys @ [[word_of_nat (length keys)]])"
proof -
  obtain o1 where o1: "EncodeOP_N m = Some o1" "IsSmallInteger o1" "DecodeOP_N o1 = Some m" "OP_PUSHDATA4 < o1" "o1 \<noteq> OP_HASH160" "o1 \<noteq> OP_RETURN" "o1 \<noteq> OP_DUP"
    using EncodeOP_N_small [of m] assms by auto
  obtain o2 where o2: "EncodeOP_N (int (length keys)) = Some o2" "IsSmallInteger o2" "DecodeOP_N o2 = Some (int (length keys))" "OP_PUSHDATA4 < o2"
    using EncodeOP_N_small [of "int (length keys)"] assms by auto
  define script where "script = o1 # concat (map (push_data []) keys) @ o2 # [OP_CHECKMULTISIG]"
  have "GetScriptForMultisig m keys = Some script"
    by (simp add: GetScriptForMultisig_def o1 o2 push_opcode_def fold_push_data script_def)
  moreover have "MatchMultisig script = Some (m, keys)"
    using assms by (simp add: MatchMultisig_def script_def GetScriptOp_opcode o1 o2 match_keys_pushes)
  moreover have "unat o1 > 76" using o1(4) by (simp add: word_less_nat_alt opcodes)
  then have "MatchPayToPubkey script = None" "MatchPayToPubkeyHash script = None" "\<not> IsPayToScriptHash script" "script ! 0 \<noteq> OP_RETURN"
    using o1 by (simp_all add: MatchPayToPubkey_def MatchPayToPubkeyHash_def IsPayToScriptHash_def script_def PUBKEY_SIZE_def COMPRESSED_SIZE_def)
  ultimately show ?thesis by (simp add: Solver_def)
qed

text \<open>
  C29: Building an output script and reading it back are inverse: a key hash or script hash is the destination of its script,
  and the solver finds the keys and the threshold of a multisignature script.
\<close>

theorem destination_roundtrip:
  assumes "length h = 20" "1 \<le> m" "m \<le> int (length keys)" "length keys \<le> 16" "\<forall>k \<in> set keys. PubKey_ValidSize k"
  shows "ExtractDestination cr (GetScriptForDestination (PKHash h)) = Some (PKHash h) \<and>
    ExtractDestination cr (GetScriptForDestination (ScriptHash h)) = Some (ScriptHash h) \<and>
    (\<exists>script. GetScriptForMultisig m keys = Some script \<and>
       Solver script = (MULTISIG, [[word_of_int m]] @ keys @ [[word_of_nat (length keys)]]))"
  using assms MatchMultisig_build [OF assms(2-)] by (simp add: ExtractDestination_def Solver_P2PKH Solver_P2SH)

theorem destination_roundtrip_witness:
  "ExtractDestination example_crypto (GetScriptForDestination (PKHash (replicate 20 3))) = Some (PKHash (replicate 20 3)) \<and>
    ExtractDestination example_crypto (GetScriptForDestination (ScriptHash (replicate 20 3))) = Some (ScriptHash (replicate 20 3)) \<and>
    (\<exists>script. GetScriptForMultisig 1 [2 # replicate 32 9, 4 # replicate 64 8] = Some script \<and>
       Solver script = (MULTISIG, [[1]] @ [2 # replicate 32 9, 4 # replicate 64 8] @ [[2]]))"
  using destination_roundtrip [of "replicate 20 3" 1 "[2 # replicate 32 9, 4 # replicate 64 8]" example_crypto]
  by (simp add: PubKey_ValidSize_def PubKey_GetLen_def COMPRESSED_SIZE_def PUBKEY_SIZE_def)

end
