(* ===== verification/Serialize.thy ===== *)
theory Serialize
  imports Prelude
begin

text \<open>
  The wire format, \<^verbatim>\<open>serialize.h\<close>: integers, compact sizes, variable-length integers, vectors and bit sets.  Writing gives
  the bytes appended to the stream.  Reading takes the bytes left in the stream and gives the value and the rest of
  the stream, or an error: \<open>ios_failure\<close> is the exception the code throws, \<open>out_of_bounds\<close> an access outside a vector.
  The locales \<open>codec\<close> and \<open>canonical_codec\<close> say what a format promises; every format below is an instance.
\<close>

unbundle bit_operations_syntax

section \<open>Readers\<close>

datatype io_error = ios_failure | out_of_bounds

type_synonym 'a reader = "bytes \<Rightarrow> io_error + 'a \<times> bytes"

definition rreturn :: "'a \<Rightarrow> 'a reader" where
  "rreturn a s = Inr (a, s)"

definition rthrow :: "io_error \<Rightarrow> 'a reader" where
  "rthrow e s = Inl e"

definition rbind :: "'a reader \<Rightarrow> ('a \<Rightarrow> 'b reader) \<Rightarrow> 'b reader" where
  "rbind m f s = (case m s of Inl e \<Rightarrow> Inl e | Inr (a, s') \<Rightarrow> f a s')"

text \<open>Reading \<open>n\<close> bytes throws at the end of the data.\<close>

definition stream_read :: "nat \<Rightarrow> bytes reader" where
  "stream_read n s = (if length s < n then Inl ios_failure else Inr (take n s, drop n s))"

named_theorems reader_simps "running the readers"

lemmas [reader_simps] = rreturn_def rthrow_def

section \<open>Integers\<close>

definition ser_writedata8 :: "byte \<Rightarrow> bytes" where
  "ser_writedata8 obj = [obj]"

definition ser_writedata16 :: "u16 \<Rightarrow> bytes" where
  "ser_writedata16 obj = WriteLE16 obj"

definition ser_writedata32 :: "u32 \<Rightarrow> bytes" where
  "ser_writedata32 obj = WriteLE32 obj"

definition ser_writedata64 :: "u64 \<Rightarrow> bytes" where
  "ser_writedata64 obj = WriteLE64 obj"

definition ser_readdata8 :: "byte reader" where
  "ser_readdata8 = rbind (stream_read 1) (\<lambda>b. rreturn (b ! 0))"

definition ser_readdata16 :: "u16 reader" where
  "ser_readdata16 = rbind (stream_read 2) (\<lambda>b. rreturn (ReadLE16 b))"

definition ser_readdata32 :: "u32 reader" where
  "ser_readdata32 = rbind (stream_read 4) (\<lambda>b. rreturn (ReadLE32 b))"

definition ser_readdata64 :: "u64 reader" where
  "ser_readdata64 = rbind (stream_read 8) (\<lambda>b. rreturn (ReadLE64 b))"

section \<open>Compact sizes\<close>

text \<open>Sizes are 64-bit values, given by their numbers.\<close>

definition MAX_SIZE :: nat where
  "MAX_SIZE = 0x02000000"

definition GetSizeOfCompactSize :: "nat \<Rightarrow> nat" where
  "GetSizeOfCompactSize nSize =
     (if nSize < 253 then 1 else if nSize \<le> 0xffff then 1 + 2 else if nSize \<le> 0xffffffff then 1 + 4 else 1 + 8)"

definition WriteCompactSize :: "nat \<Rightarrow> bytes" where
  "WriteCompactSize nSize =
     (if nSize < 253 then ser_writedata8 (word_of_nat nSize)
      else if nSize \<le> 0xffff then ser_writedata8 253 @ ser_writedata16 (word_of_nat nSize)
      else if nSize \<le> 0xffffffff then ser_writedata8 254 @ ser_writedata32 (word_of_nat nSize)
      else ser_writedata8 255 @ ser_writedata64 (word_of_nat nSize))"

definition ReadCompactSize :: "bool \<Rightarrow> nat reader" where
  "ReadCompactSize range_check =
     rbind
       (rbind ser_readdata8 (\<lambda>chSize.
          if chSize < 253 then rreturn (unat chSize)
          else if chSize = 253
          then rbind ser_readdata16 (\<lambda>n. if unat n < 253 then rthrow ios_failure else rreturn (unat n))
          else if chSize = 254
          then rbind ser_readdata32 (\<lambda>n. if unat n < 0x10000 then rthrow ios_failure else rreturn (unat n))
          else rbind ser_readdata64 (\<lambda>n. if unat n < 0x100000000 then rthrow ios_failure else rreturn (unat n))))
       (\<lambda>nSizeRet. if range_check \<and> nSizeRet > MAX_SIZE then rthrow ios_failure else rreturn nSizeRet)"

section \<open>Variable-length integers\<close>

text \<open>
  A value of the integer type is given by its number and the type by its greatest value: no operation of these
  loops leaves the range of the type, by the checks they make.
\<close>

function size_varint_loop :: "nat \<Rightarrow> nat \<Rightarrow> nat" where
  "size_varint_loop nRet n = (if n \<le> 0x7F then nRet + 1 else size_varint_loop (nRet + 1) (n div 128 - 1))"
  by pat_completeness auto

termination
  by (relation "measure snd") (auto simp: less_mult_imp_div_less dest: le_less_trans [OF diff_le_self])

definition GetSizeOfVarInt :: "nat \<Rightarrow> nat" where
  "GetSizeOfVarInt n = size_varint_loop 0 n"

text \<open>The digits as the first loop stores them in \<open>tmp\<close>, last digit first.\<close>

function varint_tmp :: "bool \<Rightarrow> nat \<Rightarrow> bytes" where
  "varint_tmp len n =
     (let b = (word_of_nat n AND 0x7F) OR (if len then 0x80 else 0x00)
      in if n \<le> 0x7F then [b] else b # varint_tmp True (n div 128 - 1))"
  by pat_completeness auto

termination
  by (relation "measure snd") (auto simp: less_mult_imp_div_less dest: le_less_trans [OF diff_le_self])

declare size_varint_loop.simps [simp del] varint_tmp.simps [simp del]

definition WriteVarInt :: "nat \<Rightarrow> bytes" where
  "WriteVarInt n = rev (varint_tmp False n)"

fun ReadVarInt_loop :: "nat \<Rightarrow> nat \<Rightarrow> nat reader" where
  "ReadVarInt_loop maxI n [] = Inl ios_failure"
| "ReadVarInt_loop maxI n (chData # s) =
     (if n > maxI div 128 then Inl ios_failure
      else let n' = n * 128 + unat (chData AND 0x7F)
           in if chData AND 0x80 \<noteq> 0
              then if n' = maxI then Inl ios_failure else ReadVarInt_loop maxI (n' + 1) s
              else Inr (n', s))"

definition ReadVarInt :: "nat \<Rightarrow> nat reader" where
  "ReadVarInt maxI = ReadVarInt_loop maxI 0"

section \<open>Vectors\<close>

definition Serialize_bytes :: "bytes \<Rightarrow> bytes" where
  "Serialize_bytes v = WriteCompactSize (length v) @ v"

text \<open>Vectors of bytes are read in blocks of at most 5000000 bytes.\<close>

function read_blocks :: "nat \<Rightarrow> bytes reader" where
  "read_blocks n =
     (if n = 0 then rreturn []
      else let blk = min n (1 + 4999999)
           in rbind (stream_read blk) (\<lambda>b. rbind (read_blocks (n - blk)) (\<lambda>v. rreturn (b @ v))))"
  by pat_completeness auto

termination
  by (relation "measure id") auto

declare read_blocks.simps [simp del]

definition Unserialize_bytes :: "bytes reader" where
  "Unserialize_bytes = rbind (ReadCompactSize True) read_blocks"

text \<open>
  Vectors of other types: the elements one after the other.  The space reserved in batches while reading is
  not part of the model.
\<close>

definition Vector_Ser :: "('a \<Rightarrow> bytes) \<Rightarrow> 'a list \<Rightarrow> bytes" where
  "Vector_Ser ser v = WriteCompactSize (length v) @ concat (map ser v)"

primrec read_elems :: "'a reader \<Rightarrow> nat \<Rightarrow> 'a list reader" where
  "read_elems unser 0 = rreturn []"
| "read_elems unser (Suc n) = rbind unser (\<lambda>a. rbind (read_elems unser n) (\<lambda>v. rreturn (a # v)))"

definition Vector_Unser :: "'a reader \<Rightarrow> 'a list reader" where
  "Vector_Unser unser = rbind (ReadCompactSize True) (read_elems unser)"

text \<open>Strings with a limit on their length.\<close>

definition LimitedString_Unser :: "nat \<Rightarrow> bytes reader" where
  "LimitedString_Unser Limit =
     rbind (ReadCompactSize True) (\<lambda>sz. if sz > Limit then rthrow ios_failure else stream_read sz)"

text \<open>Integers of a given number of bytes; writing throws when the value does not fit.\<close>

definition CustomUint_Ser :: "nat \<Rightarrow> bool \<Rightarrow> nat \<Rightarrow> io_error + bytes" where
  "CustomUint_Ser n BigEndian v =
     (if v > 2 ^ (8 * n) - 1 then Inl ios_failure
      else if BigEndian then Inr (rev (le_words n v)) else Inr (le_words n v))"

definition CustomUint_Unser :: "nat \<Rightarrow> bool \<Rightarrow> nat reader" where
  "CustomUint_Unser n BigEndian = rbind (stream_read n) (\<lambda>b. rreturn (le_val (if BigEndian then rev b else b)))"

section \<open>Bit sets\<close>

definition GetSizeOfFixedBitSet :: "nat \<Rightarrow> nat" where
  "GetSizeOfFixedBitSet sz = (sz + 7) div 8"

definition put_bit :: "bool list \<Rightarrow> nat \<Rightarrow> bytes \<Rightarrow> bytes" where
  "put_bit vec p vBytes = vBytes[p div 8 := vBytes ! (p div 8) OR push_bit (p mod 8) (if vec ! p then 1 else 0)]"

definition WriteFixedBitSet :: "bool list \<Rightarrow> nat \<Rightarrow> bytes" where
  "WriteFixedBitSet vec sz = fold (put_bit vec) [0..<min sz (length vec)] (replicate ((sz + 7) div 8) 0)"

definition ReadFixedBitSet :: "nat \<Rightarrow> bool list reader" where
  "ReadFixedBitSet sz =
     rbind (stream_read ((sz + 7) div 8)) (\<lambda>vBytes.
       let vec = map (\<lambda>p. vBytes ! (p div 8) AND push_bit (p mod 8) 1 \<noteq> 0) [0..<sz]
       in if length vBytes * 8 \<noteq> sz
             \<and> last vBytes AND NOT (drop_bit (length vBytes * 8 - sz) 0xff) \<noteq> 0
          then rthrow ios_failure else rreturn vec)"

text \<open>\<open>(uint32_t)(i - last)\<close>: positions are 32-bit integers.\<close>

fun write_varints_loop :: "bool list \<Rightarrow> int \<Rightarrow> int \<Rightarrow> bytes" where
  "write_varints_loop [] i last_i = []"
| "write_varints_loop (b # vec) i last_i =
     (if b then WriteVarInt (unat (word_of_int (i - last_i) :: u32)) @ write_varints_loop vec (i + 1) i
      else write_varints_loop vec (i + 1) last_i)"

definition WriteFixedVarIntsBitSet :: "bool list \<Rightarrow> bytes" where
  "WriteFixedVarIntsBitSet vec = write_varints_loop vec 0 (-1) @ WriteVarInt 0"

lemma ReadVarInt_loop_shrinks: "ReadVarInt_loop m n s = Inr (k, r) \<Longrightarrow> length r < length s"
  by (induction m n s rule: ReadVarInt_loop.induct) (auto simp: Let_def split: if_splits)

text \<open>
  \<open>int32_t idx = last + offset\<close> adds modulo \<open>2\<^sup>3\<^sup>2\<close> and reads the sum as a signed number.  An index below zero passes
  the first check, and the second one when it is the first entry; the store is then outside the vector.
\<close>

function read_varints_loop :: "nat \<Rightarrow> int \<Rightarrow> bool list \<Rightarrow> bool list reader" where
  "read_varints_loop sz last_i vec s =
     (case ReadVarInt (2 ^ 32 - 1) s of
        Inl e \<Rightarrow> Inl e
      | Inr (offset, s') \<Rightarrow>
          if offset = 0 then Inr (vec, s')
          else let idx = sint (word_of_int last_i + word_of_nat offset :: u32)
               in if idx \<ge> sint (word_of_nat sz :: u32) then Inl ios_failure
                  else if last_i \<noteq> -1 \<and> idx \<le> last_i then Inl ios_failure
                  else if idx < 0 \<or> idx \<ge> int (length vec) then Inl out_of_bounds
                  else read_varints_loop sz idx (vec[nat idx := True]) s')"
  by pat_completeness auto

termination
  by (relation "measure (\<lambda>(sz, l, vec, s). length s)") (auto simp: ReadVarInt_def dest: ReadVarInt_loop_shrinks)

declare read_varints_loop.simps [simp del]

definition ReadFixedVarIntsBitSet :: "nat \<Rightarrow> bool list reader" where
  "ReadFixedVarIntsBitSet sz = read_varints_loop sz (-1) (replicate sz False)"

definition WriteAutoBitSet :: "bool list \<Rightarrow> bytes" where
  "WriteAutoBitSet vec =
     (if GetSizeOfFixedBitSet (length vec) < length (WriteFixedVarIntsBitSet vec)
      then ser_writedata8 0 @ WriteFixedBitSet vec (length vec)
      else ser_writedata8 1 @ WriteFixedVarIntsBitSet vec)"

definition ReadAutoBitSet :: "nat \<Rightarrow> bool list reader" where
  "ReadAutoBitSet sz =
     rbind ser_readdata8 (\<lambda>isVarInts.
       if isVarInts \<noteq> 0 \<and> isVarInts \<noteq> 1 then rthrow ios_failure
       else if isVarInts = 0 then ReadFixedBitSet sz else ReadFixedVarIntsBitSet sz)"

definition DynamicBitSet_Ser :: "bool list \<Rightarrow> bytes" where
  "DynamicBitSet_Ser vec = WriteCompactSize (length vec) @ WriteFixedBitSet vec (length vec)"

definition DynamicBitSet_Unser :: "bool list reader" where
  "DynamicBitSet_Unser = rbind (ReadCompactSize True) ReadFixedBitSet"

section \<open>Codecs\<close>

text \<open>
  What a format promises for the values \<open>valid\<close> admits: reading back what was written gives the value and leaves the
  rest of the stream; and, for a canonical format, nothing else is accepted.
\<close>

locale codec =
  fixes ser :: "'a \<Rightarrow> bytes" and unser :: "'a reader" and valid :: "'a \<Rightarrow> bool"
  assumes read_back: "valid a \<Longrightarrow> unser (ser a @ r) = Inr (a, r)"

locale canonical_codec = codec +
  assumes only_written: "unser s = Inr (a, r) \<Longrightarrow> valid a \<and> s = ser a @ r"
begin

lemma reads_iff: "unser s = Inr (a, r) \<longleftrightarrow> valid a \<and> s = ser a @ r"
  using read_back only_written by blast

lemma ser_prefix_free: "valid a \<Longrightarrow> valid b \<Longrightarrow> ser a @ r = ser b @ r' \<Longrightarrow> a = b \<and> r = r'"
  by (metis Pair_inject read_back sum.inject(2))

end

section \<open>Integers and sizes\<close>

lemma rbind_Inr [reader_simps]: "m s = Inr (a, s') \<Longrightarrow> rbind m f s = f a s'"
  by (simp add: rbind_def)

lemma rbind_eq_Inr:
  "rbind m f s = Inr (b, r) \<longleftrightarrow> (\<exists>a s'. m s = Inr (a, s') \<and> f a s' = Inr (b, r))"
  by (auto simp: rbind_def split: sum.splits)

lemma stream_read_append [reader_simps]: "length b = n \<Longrightarrow> stream_read n (b @ r) = Inr (b, r)"
  by (simp add: stream_read_def)

lemma stream_read_eq_Inr: "stream_read n s = Inr (b, r) \<longleftrightarrow> s = b @ r \<and> length b = n"
  by (auto simp: stream_read_def)

lemma le_words_bytes_le_val: "length p = n \<Longrightarrow> 8 * n = LENGTH('a) \<Longrightarrow>
    le_words n (unat (word_of_nat (le_val (p :: bytes)) :: 'a::len word)) = p"
  using le_val_less [of p] le_words_le_val [of p] by (simp add: unat_of_nat)

interpretation int8: canonical_codec ser_writedata8 ser_readdata8 "\<lambda>_. True"
  by unfold_locales (auto simp: ser_writedata8_def ser_readdata8_def reader_simps rbind_eq_Inr stream_read_eq_Inr length_Suc_conv)

interpretation int16: canonical_codec ser_writedata16 ser_readdata16 "\<lambda>_. True"
  by unfold_locales
    (auto simp: ser_writedata16_def ser_readdata16_def reader_simps rbind_eq_Inr stream_read_eq_Inr
      WriteLE16_def ReadLE16_def le_words_bytes_le_val)

interpretation int32: canonical_codec ser_writedata32 ser_readdata32 "\<lambda>_. True"
  by unfold_locales
    (auto simp: ser_writedata32_def ser_readdata32_def reader_simps rbind_eq_Inr stream_read_eq_Inr
      WriteLE32_def ReadLE32_def le_words_bytes_le_val)

interpretation int64: canonical_codec ser_writedata64 ser_readdata64 "\<lambda>_. True"
  by unfold_locales
    (auto simp: ser_writedata64_def ser_readdata64_def reader_simps rbind_eq_Inr stream_read_eq_Inr
      WriteLE64_def ReadLE64_def le_words_bytes_le_val)


lemma ReadCompactSize_written:
  assumes "n < 2 ^ 64" "range_check \<longrightarrow> n \<le> MAX_SIZE"
  shows "ReadCompactSize range_check (WriteCompactSize n @ r) = Inr (n, r)"
proof -
  have b: "word_of_nat n < (253 :: byte)" "unat (word_of_nat n :: byte) = n" if "n < 253"
    using that by (simp_all add: word_less_nat_alt unat_of_nat)
  have 16: "unat (word_of_nat n :: u16) = n" if "n \<le> 0xffff" using that by (simp add: unat_of_nat)
  have 32: "unat (word_of_nat n :: u32) = n" if "n \<le> 0xffffffff" using that by (simp add: unat_of_nat)
  have 64: "unat (word_of_nat n :: u64) = n" using assms(1) by (simp add: unat_of_nat)
  show ?thesis
    using assms(2) int8.read_back int16.read_back int32.read_back int64.read_back
    by (auto simp: ReadCompactSize_def WriteCompactSize_def reader_simps b 16 32 64)
qed

text \<open>The part of the reader after the first byte.\<close>

lemma ReadCompactSize_cases:
  assumes "ReadCompactSize range_check s = Inr (n, r)"
  obtains (small) c where "s = ser_writedata8 c @ r" "n = unat c" "c < 253"
  | (two) c where "s = ser_writedata8 253 @ ser_writedata16 c @ r" "n = unat c" "253 \<le> n"
  | (four) c where "s = ser_writedata8 254 @ ser_writedata32 c @ r" "n = unat c" "0x10000 \<le> n"
  | (eight) c where "s = ser_writedata8 255 @ ser_writedata64 c @ r" "n = unat c" "0x100000000 \<le> n"
proof -
  obtain c t where s: "s = ser_writedata8 c @ t"
    and m: "(if c < 253 then rreturn (unat c)
          else if c = 253
          then rbind ser_readdata16 (\<lambda>n. if unat n < 253 then rthrow ios_failure else rreturn (unat n))
          else if c = 254
          then rbind ser_readdata32 (\<lambda>n. if unat n < 0x10000 then rthrow ios_failure else rreturn (unat n))
          else rbind ser_readdata64 (\<lambda>n. if unat n < 0x100000000 then rthrow ios_failure else rreturn (unat n))) t = Inr (n, r)"
    using assms unfolding ReadCompactSize_def rbind_eq_Inr int8.reads_iff
    by (auto simp: reader_simps split: if_split_asm)
  have c: "c = 255" if "\<not> c < 253" "c \<noteq> 253" "c \<noteq> 254"
    using that unsigned_less [of c, where ?'a = nat] by (auto simp: word_less_nat_alt word_unat_eq_iff)
  consider "c < 253" | "c = 253" | "c = 254" | "c = 255" using c by blast
  then show thesis
  proof cases
    case 1
    with s m small show ?thesis by (simp add: reader_simps)
  next
    case 2
    with s m two show ?thesis by (auto simp: rbind_eq_Inr int16.reads_iff reader_simps split: if_split_asm)
  next
    case 3
    with s m four show ?thesis by (auto simp: rbind_eq_Inr int32.reads_iff reader_simps split: if_split_asm)
  next
    case 4
    with s m eight show ?thesis by (auto simp: rbind_eq_Inr int64.reads_iff reader_simps split: if_split_asm)
  qed
qed

lemma WriteCompactSize_read:
  assumes "ReadCompactSize range_check s = Inr (n, r)"
  shows "n < 2 ^ 64 \<and> s = WriteCompactSize n @ r"
  using assms
proof (cases rule: ReadCompactSize_cases)
  case (small c)
  then show ?thesis by (simp add: WriteCompactSize_def word_less_nat_alt)
next
  case (two c)
  then show ?thesis using unsigned_less [of c, where ?'a = nat] by (auto simp: WriteCompactSize_def)
next
  case (four c)
  then show ?thesis using unsigned_less [of c, where ?'a = nat] by (auto simp: WriteCompactSize_def)
next
  case (eight c)
  then show ?thesis using unsigned_less [of c, where ?'a = nat] by (auto simp: WriteCompactSize_def)
qed

lemma ReadCompactSize_range: "ReadCompactSize True s = Inr (n, r) \<Longrightarrow> n \<le> MAX_SIZE"
  unfolding ReadCompactSize_def by (subst (asm) rbind_eq_Inr) (auto simp: reader_simps split: if_split_asm)

interpretation compact: canonical_codec WriteCompactSize "ReadCompactSize range_check"
  "\<lambda>n. n < 2 ^ 64 \<and> (range_check \<longrightarrow> n \<le> MAX_SIZE)" for range_check
proof unfold_locales
  fix s n r
  assume a: "ReadCompactSize range_check s = Inr (n, r)"
  then show "(n < 2 ^ 64 \<and> (range_check \<longrightarrow> n \<le> MAX_SIZE)) \<and> s = WriteCompactSize n @ r"
    using WriteCompactSize_read [OF a] ReadCompactSize_range [of s n r] by (cases range_check) auto
qed (simp add: ReadCompactSize_written)


section \<open>Variable-length integers\<close>

lemma unat_of_nat_7F: "unat (word_of_nat n AND 0x7F :: byte) = n mod 128"
  by (simp add: unat_and_7f unat_of_nat mod_mod_cancel)

text \<open>The digits of all places but the last, most significant first.\<close>

definition varint_high :: "nat \<Rightarrow> bytes" where
  "varint_high m = rev (varint_tmp True m)"

lemma varint_high_small: "m \<le> 127 \<Longrightarrow> varint_high m = [(word_of_nat m AND 0x7F) OR 0x80]"
  by (simp add: varint_high_def varint_tmp.simps [of True m])

lemma varint_high_big: "127 < m \<Longrightarrow> varint_high m = varint_high (m div 128 - 1) @ [(word_of_nat m AND 0x7F) OR 0x80]"
  unfolding varint_high_def by (subst varint_tmp.simps) (simp add: Let_def)

lemma WriteVarInt_eq: "WriteVarInt n = (if n \<le> 127 then [] else varint_high (n div 128 - 1)) @ [word_of_nat n AND 0x7F]"
  unfolding varint_high_def WriteVarInt_def by (subst varint_tmp.simps) (simp add: Let_def)

lemma high_digit:
  "unat ((word_of_nat m AND 0x7F :: byte) OR 0x80) = m mod 128 + 128"
  by (subst unat_or_80) (simp_all add: unat_of_nat_7F)

lemma read_high_digit:
  assumes "n \<le> maxI div 128" "n * 128 + d \<noteq> maxI" "d < 128"
  shows "ReadVarInt_loop maxI n (((word_of_nat d AND 0x7F) OR 0x80) # s) = ReadVarInt_loop maxI (n * 128 + d + 1) s"
  using assms by (simp add: Let_def high_bit_unat [simplified] high_digit unat_and_7f)

lemma word_of_nat_mod_7F: "(word_of_nat m AND 0x7F :: byte) = word_of_nat (m mod 128) AND 0x7F"
  by (simp add: word_unat_eq_iff unat_of_nat_7F)

lemma ReadVarInt_high:
  assumes "m < maxI"
  shows "ReadVarInt_loop maxI 0 (varint_high m @ s) = ReadVarInt_loop maxI (m + 1) s"
  using assms
proof (induction m arbitrary: s rule: less_induct)
  case (less m)
  show ?case
  proof (cases "m \<le> 127")
    case True
    with less.prems show ?thesis using read_high_digit [of 0 maxI m s] by (simp add: varint_high_small)
  next
    case False
    then have m: "m div 128 - 1 < m" "m div 128 \<ge> 1" "m div 128 - 1 < maxI" using less.prems by auto
    have "m div 128 \<le> maxI div 128" using less.prems by (simp add: div_le_mono)
    moreover have "m div 128 * 128 + m mod 128 = m" by simp
    ultimately show ?thesis
      using less.IH [OF m(1) m(3)] m(2) False less.prems read_high_digit [of "m div 128" maxI "m mod 128" s]
      by (simp add: varint_high_big word_of_nat_mod_7F [of m])
  qed
qed

lemma read_last_digit:
  assumes "n \<le> maxI div 128" "d < 128"
  shows "ReadVarInt_loop maxI n ((word_of_nat d AND 0x7F) # s) = Inr (n * 128 + d, s)"
proof -
  define w where "w = (word_of_nat d AND 0x7F :: byte)"
  have "unat w = d" using assms(2) by (simp only: w_def unat_of_nat_7F) simp
  then show ?thesis using assms unfolding w_def [symmetric] by (simp add: Let_def high_bit_unat [simplified] unat_and_7f)
qed

lemma ReadVarInt_written:
  assumes "n \<le> maxI"
  shows "ReadVarInt maxI (WriteVarInt n @ r) = Inr (n, r)"
proof (cases "n \<le> 127")
  case True
  then show ?thesis using read_last_digit [of 0 maxI n r] by (simp add: ReadVarInt_def WriteVarInt_eq)
next
  case False
  then have "n div 128 \<ge> 1" "n div 128 - 1 < maxI" "n div 128 \<le> maxI div 128" "n div 128 * 128 + n mod 128 = n"
    using assms by (auto simp: div_le_mono)
  then show ?thesis
    using False ReadVarInt_high [of "n div 128 - 1" maxI] read_last_digit [of "n div 128" maxI "n mod 128" r]
    by (simp add: ReadVarInt_def WriteVarInt_eq word_of_nat_mod_7F [of n])
qed

text \<open>Conversely, what has been read so far determines the bytes.\<close>

definition varint_prefix :: "nat \<Rightarrow> bytes" where
  "varint_prefix n = (if n = 0 then [] else varint_high (n - 1))"

lemma varint_prefix_step:
  assumes "128 \<le> unat c"
  shows "varint_prefix n @ [c] = varint_prefix (n * 128 + unat (c AND 0x7F) + 1)"
proof -
  have lt: "unat c < 256" using unsigned_less [of c, where ?'a = nat] by simp
  have c: "c = (word_of_nat m AND 0x7F) OR 0x80" if "m mod 128 = unat c mod 128" for m
    using assms lt that by (simp add: word_unat_eq_iff high_digit le_mod_geq)
  show ?thesis
  proof (cases "n = 0")
    case True
    then show ?thesis using c [of "unat c mod 128"] by (simp add: varint_prefix_def unat_and_7f varint_high_small)
  next
    case False
    then have "127 < n * 128 + unat c mod 128" "(n * 128 + unat c mod 128) div 128 = n" by auto
    then show ?thesis using False c [of "n * 128 + unat c mod 128"]
      by (simp add: varint_prefix_def unat_and_7f varint_high_big)
  qed
qed

lemma varint_prefix_last:
  assumes "unat c < 128"
  shows "varint_prefix n @ [c] = WriteVarInt (n * 128 + unat (c AND 0x7F))"
proof -
  have c: "c = word_of_nat m AND 0x7F" if "m mod 128 = unat c" for m
    using assms that by (simp add: word_unat_eq_iff unat_of_nat_7F)
  have "(n * 128 + unat c) div 128 = n" "(n * 128 + unat c) mod 128 = unat c" using assms by auto
  then show ?thesis using assms c [of "n * 128 + unat c"] by (auto simp: varint_prefix_def unat_and_7f WriteVarInt_eq)
qed

lemma ReadVarInt_loop_reads:
  assumes "ReadVarInt_loop maxI n s = Inr (k, r)" "maxI mod 128 = 127"
  shows "varint_prefix n @ s = WriteVarInt k @ r \<and> k \<le> maxI"
  using assms
proof (induction maxI n s rule: ReadVarInt_loop.induct)
  case (2 maxI n c s)
  show ?case
  proof (cases "128 \<le> unat c")
    case True
    then show ?thesis using 2 varint_prefix_step [OF True, of n]
      by (auto simp: Let_def high_bit_unat [simplified] split: if_split_asm) (metis append_Cons append_Nil append_assoc)+
  next
    case False
    then have lt: "unat c < 128" by simp
    have k: "k = n * 128 + unat (c AND 0x7F)" "r = s" "n \<le> maxI div 128"
      using False 2(2) by (auto simp: Let_def high_bit_unat [simplified] split: if_split_asm)
    have "n * 128 + unat c mod 128 \<le> maxI div 128 * 128 + 127" using k(3) by (intro add_mono mult_right_mono) auto
    also have "\<dots> = maxI" using 2(3) by (metis div_mult_mod_eq)
    finally show ?thesis using varint_prefix_last [OF lt, of n] k by (simp add: unat_and_7f)
  qed
qed simp

text \<open>The greatest values of the integer types end in seven ones.\<close>

interpretation varint: canonical_codec WriteVarInt "ReadVarInt (2 ^ (k + 7) - 1)" "\<lambda>n. n \<le> 2 ^ (k + 7) - 1" for k
proof unfold_locales
  fix s a r
  have "(2 ^ (k + 7) - 1) mod 128 = (127 :: nat)"
  proof -
    have "2 ^ (k + 7) - 1 = (2 ^ k - 1) * 128 + (127 :: nat)" by (simp add: power_add algebra_simps)
    then show ?thesis by simp
  qed
  then show "ReadVarInt (2 ^ (k + 7) - 1) s = Inr (a, r) \<Longrightarrow> a \<le> 2 ^ (k + 7) - 1 \<and> s = WriteVarInt a @ r"
    using ReadVarInt_loop_reads [of _ 0 s a r] by (auto simp: ReadVarInt_def varint_prefix_def)
qed (simp add: ReadVarInt_written)

section \<open>Vectors\<close>

context codec
begin

lemma bind_back: "valid a \<Longrightarrow> rbind unser f (ser a @ r) = f a r"
  using rbind_Inr [of unser "ser a @ r" a r f] read_back [of a r] by simp

end

lemma compact_bind_back: "n \<le> MAX_SIZE \<Longrightarrow> rbind (ReadCompactSize True) f (WriteCompactSize n @ r) = f n r"
  by (rule compact.bind_back) (simp add: MAX_SIZE_def)

lemma read_blocks_eq: "read_blocks n s = (if length s < n then Inl ios_failure else Inr (take n s, drop n s))"
proof (induction n arbitrary: s rule: less_induct)
  case (less n)
  show ?case
  proof (cases "n = 0")
    case True
    then show ?thesis by (simp add: read_blocks.simps [of 0] reader_simps)
  next
    case False
    define b where "b = min n (1 + 4999999)"
    have b: "n - b < n" "b \<le> n" using False by (simp_all add: b_def)
    have "read_blocks n = rbind (stream_read b) (\<lambda>x. rbind (read_blocks (n - b)) (\<lambda>v. rreturn (x @ v)))"
      using False by (subst read_blocks.simps) (simp add: b_def Let_def)
    moreover have "take b s @ take (n - b) (drop b s) = take n s"
      using b(2) by (metis le_add_diff_inverse take_add)
    ultimately show ?thesis using b(2) less.IH [OF b(1)] by (auto simp: rbind_def stream_read_def rreturn_def)
  qed
qed

interpretation byte_vector: canonical_codec Serialize_bytes Unserialize_bytes "\<lambda>v. length v \<le> MAX_SIZE"
proof unfold_locales
  fix v r
  show "length v \<le> MAX_SIZE \<Longrightarrow> Unserialize_bytes (Serialize_bytes v @ r) = Inr (v, r)"
    by (simp add: Unserialize_bytes_def Serialize_bytes_def compact_bind_back read_blocks_eq)
next
  fix s v r
  show "Unserialize_bytes s = Inr (v, r) \<Longrightarrow> length v \<le> MAX_SIZE \<and> s = Serialize_bytes v @ r"
    by (auto simp: Unserialize_bytes_def Serialize_bytes_def rbind_eq_Inr compact.reads_iff read_blocks_eq split: if_split_asm)
qed

text \<open>A format gives a format for vectors, canonical when the format is.\<close>

context codec
begin

lemma read_elems_back:
  "\<forall>a \<in> set v. valid a \<Longrightarrow> read_elems unser (length v) (concat (map ser v) @ r) = Inr (v, r)"
  by (induction v) (simp_all add: reader_simps bind_back)

lemma vector_read_back:
  "length v \<le> MAX_SIZE \<Longrightarrow> \<forall>a \<in> set v. valid a \<Longrightarrow> Vector_Unser unser (Vector_Ser ser v @ r) = Inr (v, r)"
  by (simp add: Vector_Unser_def Vector_Ser_def compact_bind_back read_elems_back)

end

context canonical_codec
begin

lemma read_elems_only:
  "read_elems unser n s = Inr (v, r) \<Longrightarrow> length v = n \<and> (\<forall>a \<in> set v. valid a) \<and> s = concat (map ser v) @ r"
proof (induction n arbitrary: s v)
  case (Suc n)
  then obtain a s' v' where v: "v = a # v'" "unser s = Inr (a, s')" "read_elems unser n s' = Inr (v', r)"
    by (auto simp: rbind_eq_Inr reader_simps)
  with Suc.IH [OF v(3)] show ?case by (simp add: reads_iff)
qed (simp add: reader_simps)

lemma vector_codec:
  "canonical_codec (Vector_Ser ser) (Vector_Unser unser) (\<lambda>v. length v \<le> MAX_SIZE \<and> (\<forall>a \<in> set v. valid a))"
proof unfold_locales
  fix s v r
  show "Vector_Unser unser s = Inr (v, r) \<Longrightarrow> (length v \<le> MAX_SIZE \<and> (\<forall>a \<in> set v. valid a)) \<and> s = Vector_Ser ser v @ r"
    by (auto simp: Vector_Unser_def Vector_Ser_def rbind_eq_Inr compact.reads_iff dest!: read_elems_only)
qed (simp add: vector_read_back)

end

section \<open>Bit sets\<close>

lemma stream_bind: "length b = n \<Longrightarrow> rbind (stream_read n) f (b @ r) = f b r"
  by (simp add: rbind_def stream_read_append)

lemma length_put_bits: "length (fold (put_bit vec) ps vb) = length vb"
  by (induction ps arbitrary: vb) (auto simp: put_bit_def)

lemma bit_put_bit:
  assumes "p div 8 < length vb" "i < 8"
  shows "bit (put_bit vec p vb ! q) i \<longleftrightarrow> bit (vb ! q) i \<or> q = p div 8 \<and> i = p mod 8 \<and> vec ! p"
proof -
  have "bit (push_bit (p mod 8) (if vec ! p then 1 else 0) :: byte) i \<longleftrightarrow> i = p mod 8 \<and> vec ! p"
    using assms(2) by (simp only: bit_push_bit_iff) (auto simp: bit_1_iff)
  then show ?thesis using assms(1) unfolding put_bit_def by (cases "q = p div 8") (simp_all only: nth_list_update_eq
      nth_list_update_neq bit_or_iff, auto)
qed

text \<open>Bit \<open>i\<close> of byte \<open>q\<close> after the first \<open>m\<close> positions have been stored.\<close>

lemma bit_put_bits:
  assumes "m \<le> 8 * k" "q < k" "i < 8"
  shows "bit (fold (put_bit vec) [0..<m] (replicate k 0) ! q) i \<longleftrightarrow> 8 * q + i < m \<and> vec ! (8 * q + i)"
  using assms(1)
proof (induction m)
  case 0
  then show ?case using assms by simp
next
  case (Suc m)
  have m: "m div 8 < k" using Suc(2) by auto
  have "8 * q + i = m \<longleftrightarrow> q = m div 8 \<and> i = m mod 8" using assms(3) by auto
  with Suc m assms(3) show ?case by (auto simp: bit_put_bit length_put_bits less_Suc_eq)
qed

lemma ReadFixedBitSet_written:
  assumes "length vec = sz"
  shows "ReadFixedBitSet sz (WriteFixedBitSet vec sz @ r) = Inr (vec, r)"
proof -
  define k where "k = (sz + 7) div 8"
  define vb where "vb = WriteFixedBitSet vec sz"
  have len: "length vb = k" by (simp add: vb_def WriteFixedBitSet_def length_put_bits k_def)
  have sz: "sz \<le> 8 * k" "8 * k < sz + 8" unfolding k_def by auto
  have bits: "bit (vb ! q) i \<longleftrightarrow> 8 * q + i < sz \<and> vec ! (8 * q + i)" if "q < k" "i < 8" for q i
    using bit_put_bits [OF sz(1) that, of vec] assms by (simp add: vb_def WriteFixedBitSet_def k_def)
  have "vb ! (p div 8) AND push_bit (p mod 8) 1 \<noteq> 0 \<longleftrightarrow> vec ! p" if "p < sz" for p
    using bits [of "p div 8" "p mod 8"] that sz unfolding bit_iff_and_push_bit_not_eq_0 [symmetric] by auto
  then have vec: "map (\<lambda>p. vb ! (p div 8) AND push_bit (p mod 8) 1 \<noteq> 0) [0..<sz] = vec"
    using assms by (intro nth_equalityI) auto
  have "last vb AND NOT (drop_bit (k * 8 - sz) 0xff) = 0" if "k * 8 \<noteq> sz"
  proof (rule bit_eqI)
    fix i assume "possible_bit TYPE(8 word) i"
    then have i: "i < 8" by simp
    have "k > 0" using that sz by auto
    then have l: "last vb = vb ! (k - 1)" using len by (metis last_conv_nth list.size(3) less_irrefl)
    have m: "(0xff :: byte) = mask 8" by (simp add: mask_eq_exp_minus_1)
    have "bit (0xff :: byte) j \<longleftrightarrow> j < 8" for j unfolding m by (simp only: bit_mask_iff) simp
    then have "bit (drop_bit (k * 8 - sz) (0xff :: byte)) i \<longleftrightarrow> k * 8 - sz + i < 8"
      by (simp only: bit_drop_bit_eq o_apply)
    moreover have "bit (last vb) i \<longleftrightarrow> 8 * (k - 1) + i < sz \<and> vec ! (8 * (k - 1) + i)"
      using i bits [of "k - 1" i] \<open>k > 0\<close> by (simp add: l)
    moreover have "8 * (k - 1) + i < sz \<Longrightarrow> k * 8 - sz + i < 8" using sz \<open>k > 0\<close> by linarith
    ultimately show "bit (last vb AND NOT (drop_bit (k * 8 - sz) 0xff)) i = bit 0 i"
      unfolding bit_and_iff bit_not_iff bit_0_eq bot_fun_def bot_bool_def by blast
  qed
  then have "k * 8 = sz \<or> last vb AND NOT (drop_bit (k * 8 - sz) 0xff) = 0" by blast
  then show ?thesis
    using len vec by (simp add: ReadFixedBitSet_def stream_bind vb_def [symmetric] k_def [symmetric] reader_simps Let_def)
qed

lemma sint_word_of_int_32: "- (2 ^ 31) \<le> x \<Longrightarrow> x < 2 ^ 31 \<Longrightarrow> sint (word_of_int x :: u32) = x"
  by (simp add: signed_of_int signed_take_bit_int_eq_self)

text \<open>
  Reading back the positions of the bits: \<open>pre\<close> are the bits already passed, \<open>last_i\<close> the last one set.
\<close>

lemma read_varints_written:
  assumes "length pre + length vec = sz" "sz < 2 ^ 31" "-1 \<le> last_i" "last_i < int (length pre)"
  shows "read_varints_loop sz last_i (pre @ replicate (length vec) False)
      (write_varints_loop vec (int (length pre)) last_i @ WriteVarInt 0 @ r) = Inr (pre @ vec, r)"
  using assms
proof (induction vec arbitrary: pre last_i)
  case Nil
  then show ?case
    using ReadVarInt_written [of 0 "2 ^ 32 - 1" r] by (subst read_varints_loop.simps) simp
next
  case (Cons b vec)
  let ?i = "int (length pre)"
  show ?case
  proof (cases b)
    case False
    then show ?thesis using Cons.IH [of "pre @ [False]" last_i] Cons.prems by (simp add: ac_simps)
  next
    case True
    define d where "d = unat (word_of_int (?i - last_i) :: u32)"
    have di: "int d = ?i - last_i"
      using Cons.prems unfolding d_def uint_nat [symmetric] uint_word_of_int by simp
    have idx: "sint (word_of_int last_i + word_of_nat d :: u32) = ?i"
    proof -
      have "(word_of_int last_i + word_of_nat d :: u32) = word_of_int (last_i + int d)" by simp
      also have "last_i + int d = ?i" using di by simp
      finally show ?thesis using Cons.prems sint_word_of_int_32 [of ?i] by simp
    qed
    have "sint (word_of_nat sz :: u32) = int sz" using Cons.prems(2) sint_word_of_int_32 [of "int sz"] by simp
    moreover have "ReadVarInt (2 ^ 32 - 1) (WriteVarInt d @ s) = Inr (d, s)" for s
      using di Cons.prems by (intro ReadVarInt_written) auto
    moreover have "d \<noteq> 0" using di Cons.prems by auto
    ultimately have "read_varints_loop sz last_i (pre @ replicate (length (b # vec)) False) (WriteVarInt d @ s) =
        read_varints_loop sz ?i (pre @ True # replicate (length vec) False) s" for s
      using Cons.prems idx by (subst read_varints_loop.simps) (simp add: list_update_append)
    moreover have "write_varints_loop (b # vec) ?i last_i = WriteVarInt d @ write_varints_loop vec (?i + 1) ?i"
      using True by (simp only: write_varints_loop.simps d_def if_True)
    ultimately show ?thesis using True Cons.IH [of "pre @ [True]" ?i] Cons.prems by (simp add: ac_simps)
  qed
qed

lemma ReadFixedVarIntsBitSet_written:
  assumes "length vec < 2 ^ 31"
  shows "ReadFixedVarIntsBitSet (length vec) (WriteFixedVarIntsBitSet vec @ r) = Inr (vec, r)"
  using read_varints_written [of "[]" vec "length vec" "-1" r] assms
  by (simp add: ReadFixedVarIntsBitSet_def WriteFixedVarIntsBitSet_def)

section \<open>Properties\<close>

text \<open>
  C11: Compact sizes and variable-length integers have exactly one encoding: the readers accept exactly the bytes the
  writers give for a value in range (at most \<open>MAX_SIZE\<close> for a range-checked compact size; for the variable-length
  integers of a type with the greatest value \<open>2 ^ (k + 7) - 1\<close>, the values of the type) and leave the rest of the stream.
\<close>

theorem integer_encodings_canonical:
  "(ReadCompactSize range_check s = Inr (n, r) \<longleftrightarrow>
      (n < 2 ^ 64 \<and> (range_check \<longrightarrow> n \<le> MAX_SIZE)) \<and> s = WriteCompactSize n @ r) \<and>
   (ReadVarInt (2 ^ (k + 7) - 1) s = Inr (m, r) \<longleftrightarrow> m \<le> 2 ^ (k + 7) - 1 \<and> s = WriteVarInt m @ r)"
  by (simp only: compact.reads_iff varint.reads_iff)

theorem integer_encodings_canonical_witness:
  "ReadCompactSize True [253, 0xe8, 3, 7] = Inr (1000, [7]) \<and> ReadVarInt (2 ^ (25 + 7) - 1) [0x82, 0xFE, 0x7F] = Inr (65535, [])"
proof -
  have "WriteLE16 1000 = [0xe8, 3]" unfolding WriteLE16_def by (subst numeral_2_eq_2) simp
  then have "WriteCompactSize 1000 @ [7] = [253, 0xe8, 3, 7]"
    by (simp add: WriteCompactSize_def ser_writedata8_def ser_writedata16_def)
  moreover have "WriteVarInt 65535 @ [] = [0x82, 0xFE, 0x7F]"
    by (simp add: WriteVarInt_eq varint_high_big varint_high_small)
  ultimately show ?thesis
    using integer_encodings_canonical [where range_check = True and s = "[253, 0xe8, 3, 7]" and n = 1000 and r = "[7]"]
      integer_encodings_canonical [where s = "[0x82, 0xFE, 0x7F]" and r = "[]" and k = 25 and m = 65535]
    by (simp add: MAX_SIZE_def)
qed



text \<open>
  C31: The list-of-positions reader does not protect the vector from a hostile stream: for every size below \<open>2\<^sup>3\<^sup>1\<close>,
  the five bytes of the first offset \<open>0x80000001\<close> pass its checks and make it store outside the vector.
\<close>

theorem ReadFixedVarIntsBitSet_out_of_bounds:
  assumes "sz < 2 ^ 31"
  shows "ReadFixedVarIntsBitSet sz (WriteVarInt 0x80000001 @ r) = Inl out_of_bounds"
proof -
  have "sint (word_of_nat sz :: u32) = int sz" using assms sint_word_of_int_32 [of "int sz"] by simp
  moreover have "sint (0x80000000 :: u32) = - 2147483648" by simp
  ultimately show ?thesis
    using ReadVarInt_written [of "0x80000001" "2 ^ 32 - 1" r]
    by (simp add: ReadFixedVarIntsBitSet_def read_varints_loop.simps [of sz])
qed

theorem ReadFixedVarIntsBitSet_out_of_bounds_witness:
  "ReadFixedVarIntsBitSet 400 [0x86, 0xFE, 0xFE, 0xFF, 0x01] = Inl out_of_bounds"
proof -
  have "WriteVarInt 0x80000001 @ [] = [0x86, 0xFE, 0xFE, 0xFF, 0x01]"
    by (simp add: WriteVarInt_eq varint_high_big varint_high_small)
  then show ?thesis using ReadFixedVarIntsBitSet_out_of_bounds [of 400 "[]"] by simp
qed

end
