(* ===== verification/Transaction.thy ===== *)
theory Transaction
  imports Serialize Script "HOL-Library.List_Lexorder"
begin

text \<open>
  Transactions, \<^verbatim>\<open>primitives/transaction.{h,cpp}\<close> and \<^verbatim>\<open>amount.h\<close>: the data, its order and its wire format.  The
  formats of the parts are codecs, put together from those of \<open>Serialize\<close>.  Amounts are signed 64-bit numbers
  given by their value.  The version is a signed 16-bit number, kept as a word and read with \<open>sint\<close>.
\<close>

unbundle bit_operations_syntax

section \<open>Amounts\<close>

type_synonym CAmount = int

definition COIN :: CAmount where
  "COIN = 100000000"

definition MAX_MONEY :: CAmount where
  "MAX_MONEY = 21000000 * COIN"

definition MoneyRange :: "CAmount \<Rightarrow> bool" where
  "MoneyRange nValue \<longleftrightarrow> nValue \<ge> 0 \<and> nValue \<le> MAX_MONEY"

section \<open>Data\<close>

definition TRANSACTION_NORMAL :: u16 where "TRANSACTION_NORMAL = 0"
definition TRANSACTION_PROVIDER_REGISTER :: u16 where "TRANSACTION_PROVIDER_REGISTER = 1"
definition TRANSACTION_PROVIDER_UPDATE_SERVICE :: u16 where "TRANSACTION_PROVIDER_UPDATE_SERVICE = 2"
definition TRANSACTION_PROVIDER_UPDATE_REGISTRAR :: u16 where "TRANSACTION_PROVIDER_UPDATE_REGISTRAR = 3"
definition TRANSACTION_PROVIDER_UPDATE_REVOKE :: u16 where "TRANSACTION_PROVIDER_UPDATE_REVOKE = 4"
definition TRANSACTION_COINBASE :: u16 where "TRANSACTION_COINBASE = 5"
definition TRANSACTION_QUORUM_COMMITMENT :: u16 where "TRANSACTION_QUORUM_COMMITMENT = 6"
definition TRANSACTION_MNHF_SIGNAL :: u16 where "TRANSACTION_MNHF_SIGNAL = 7"
definition TRANSACTION_SMSG_ROOM :: u16 where "TRANSACTION_SMSG_ROOM = 8"

definition transaction_types :: "u16 list" where
  "transaction_types = [
     TRANSACTION_NORMAL, TRANSACTION_PROVIDER_REGISTER, TRANSACTION_PROVIDER_UPDATE_SERVICE,
     TRANSACTION_PROVIDER_UPDATE_REGISTRAR, TRANSACTION_PROVIDER_UPDATE_REVOKE, TRANSACTION_COINBASE,
     TRANSACTION_QUORUM_COMMITMENT, TRANSACTION_MNHF_SIGNAL, TRANSACTION_SMSG_ROOM]"

record COutPoint =
  op_hash :: uint256
  op_n :: u32

record CTxIn =
  prevout :: COutPoint
  scriptSig :: CScript
  in_nSequence :: u32

record CTxOut =
  nValue :: CAmount
  scriptPubKey :: CScript

record CTransaction =
  tx_vin :: "CTxIn list"
  tx_vout :: "CTxOut list"
  tx_nVersion :: u16
  tx_nType :: u16
  tx_nLockTime :: u32
  tx_vExtraPayload :: bytes

definition NULL_INDEX :: u32 where
  "NULL_INDEX = 0xffffffff"

definition COutPoint_null :: COutPoint where
  "COutPoint_null = \<lparr>op_hash = null_hash, op_n = NULL_INDEX\<rparr>"

definition COutPoint_IsNull :: "COutPoint \<Rightarrow> bool" where
  "COutPoint_IsNull p \<longleftrightarrow> list_all (\<lambda>b. b = 0) (op_hash p) \<and> op_n p = NULL_INDEX"

text \<open>\<open>operator<\<close> compares the bytes of the hashes from the first on, then the indices.\<close>

instantiation COutPoint_ext :: (linorder) linorder
begin

definition less_eq_COutPoint_ext :: "'a COutPoint_scheme \<Rightarrow> 'a COutPoint_scheme \<Rightarrow> bool" where
  "less_eq_COutPoint_ext a b \<longleftrightarrow>
     op_hash a < op_hash b \<or> op_hash a = op_hash b
       \<and> (op_n a < op_n b \<or> op_n a = op_n b \<and> COutPoint.more a \<le> COutPoint.more b)"

definition less_COutPoint_ext :: "'a COutPoint_scheme \<Rightarrow> 'a COutPoint_scheme \<Rightarrow> bool" where
  "less_COutPoint_ext a b \<longleftrightarrow>
     op_hash a < op_hash b \<or> op_hash a = op_hash b
       \<and> (op_n a < op_n b \<or> op_n a = op_n b \<and> COutPoint.more a < COutPoint.more b)"

instance
  by intro_classes (auto simp: less_eq_COutPoint_ext_def less_COutPoint_ext_def intro: COutPoint.equality)

end

definition SEQUENCE_FINAL :: u32 where "SEQUENCE_FINAL = 0xffffffff"
definition SEQUENCE_LOCKTIME_TYPE_FLAG :: u32 where "SEQUENCE_LOCKTIME_TYPE_FLAG = push_bit 22 1"
definition SEQUENCE_LOCKTIME_MASK :: u32 where "SEQUENCE_LOCKTIME_MASK = 0x0000ffff"
definition SEQUENCE_LOCKTIME_GRANULARITY :: nat where "SEQUENCE_LOCKTIME_GRANULARITY = 9"

definition CTxOut_null :: CTxOut where
  "CTxOut_null = \<lparr>nValue = -1, scriptPubKey = []\<rparr>"

definition CTxOut_IsNull :: "CTxOut \<Rightarrow> bool" where
  "CTxOut_IsNull o' \<longleftrightarrow> nValue o' = -1"

definition CTransaction_IsNull :: "CTransaction \<Rightarrow> bool" where
  "CTransaction_IsNull tx \<longleftrightarrow> tx_vin tx = [] \<and> tx_vout tx = []"

definition IsCoinBase :: "CTransaction \<Rightarrow> bool" where
  "IsCoinBase tx \<longleftrightarrow> length (tx_vin tx) = 1 \<and> COutPoint_IsNull (prevout (tx_vin tx ! 0))"

text \<open>\<open>None\<close>: the value is out of range and the code throws.\<close>

fun value_out_loop :: "CTxOut list \<Rightarrow> CAmount \<Rightarrow> CAmount option" where
  "value_out_loop [] nValueOut = Some nValueOut"
| "value_out_loop (tx_out # vout) nValueOut =
     (if \<not> MoneyRange (nValue tx_out) \<or> \<not> MoneyRange (nValueOut + nValue tx_out) then None
      else value_out_loop vout (nValueOut + nValue tx_out))"

definition GetValueOut :: "CTransaction \<Rightarrow> CAmount option" where
  "GetValueOut tx = value_out_loop (tx_vout tx) 0"

text \<open>
  The orders of BIP 69.  A hash is compared from its last byte on; a script is a \<open>prevector\<close>, whose \<open>operator<\<close> compares
  the sizes before the bytes.
\<close>

definition prevector_less :: "bytes \<Rightarrow> bytes \<Rightarrow> bool" where
  "prevector_less v w = (if length v < length w then True else if length v > length w then False else v < w)"

definition CompareInputBIP69 :: "CTxIn \<Rightarrow> CTxIn \<Rightarrow> bool" where
  "CompareInputBIP69 a b =
     (if op_hash (prevout a) = op_hash (prevout b) then op_n (prevout a) < op_n (prevout b)
      else rev (op_hash (prevout a)) < rev (op_hash (prevout b)))"

definition CompareOutputBIP69 :: "CTxOut \<Rightarrow> CTxOut \<Rightarrow> bool" where
  "CompareOutputBIP69 a b \<longleftrightarrow> nValue a < nValue b \<or> nValue a = nValue b \<and> prevector_less (scriptPubKey a) (scriptPubKey b)"

section \<open>Wire format\<close>

definition Serialize_uint256 :: "uint256 \<Rightarrow> bytes" where
  "Serialize_uint256 h = h"

definition Unserialize_uint256 :: "uint256 reader" where
  "Unserialize_uint256 = stream_read 32"

definition Serialize_COutPoint :: "COutPoint \<Rightarrow> bytes" where
  "Serialize_COutPoint p = Serialize_uint256 (op_hash p) @ ser_writedata32 (op_n p)"

definition Unserialize_COutPoint :: "COutPoint reader" where
  "Unserialize_COutPoint =
     rbind Unserialize_uint256 (\<lambda>h. rbind ser_readdata32 (\<lambda>n. rreturn \<lparr>op_hash = h, op_n = n\<rparr>))"

definition Serialize_CTxIn :: "CTxIn \<Rightarrow> bytes" where
  "Serialize_CTxIn i = Serialize_COutPoint (prevout i) @ Serialize_bytes (scriptSig i) @ ser_writedata32 (in_nSequence i)"

definition Unserialize_CTxIn :: "CTxIn reader" where
  "Unserialize_CTxIn =
     rbind Unserialize_COutPoint (\<lambda>p. rbind Unserialize_bytes (\<lambda>s. rbind ser_readdata32 (\<lambda>n.
       rreturn \<lparr>prevout = p, scriptSig = s, in_nSequence = n\<rparr>)))"

definition Serialize_CAmount :: "CAmount \<Rightarrow> bytes" where
  "Serialize_CAmount v = ser_writedata64 (word_of_int v)"

definition Unserialize_CAmount :: "CAmount reader" where
  "Unserialize_CAmount = rbind ser_readdata64 (\<lambda>w. rreturn (sint w))"

definition Serialize_CTxOut :: "CTxOut \<Rightarrow> bytes" where
  "Serialize_CTxOut o' = Serialize_CAmount (nValue o') @ Serialize_bytes (scriptPubKey o')"

definition Unserialize_CTxOut :: "CTxOut reader" where
  "Unserialize_CTxOut =
     rbind Unserialize_CAmount (\<lambda>v. rbind Unserialize_bytes (\<lambda>s. rreturn \<lparr>nValue = v, scriptPubKey = s\<rparr>))"

text \<open>\<open>nVersion | (nType << 16)\<close> on 32-bit integers: the version is sign-extended.\<close>

definition n32bitVersion :: "CTransaction \<Rightarrow> u32" where
  "n32bitVersion tx = scast (tx_nVersion tx) OR push_bit 16 (ucast (tx_nType tx))"

definition has_payload :: "u16 \<Rightarrow> u16 \<Rightarrow> bool" where
  "has_payload nVersion nType \<longleftrightarrow> nVersion = 3 \<and> nType \<noteq> TRANSACTION_NORMAL"

definition Serialize_CTransaction :: "CTransaction \<Rightarrow> bytes" where
  "Serialize_CTransaction tx =
     ser_writedata32 (n32bitVersion tx) @ Vector_Ser Serialize_CTxIn (tx_vin tx) @ Vector_Ser Serialize_CTxOut (tx_vout tx)
     @ ser_writedata32 (tx_nLockTime tx)
     @ (if has_payload (tx_nVersion tx) (tx_nType tx) then Serialize_bytes (tx_vExtraPayload tx) else [])"

definition Unserialize_CTransaction :: "CTransaction reader" where
  "Unserialize_CTransaction =
     rbind ser_readdata32 (\<lambda>n32.
       let nVersion = ucast (n32 AND 0xffff); nType = ucast (drop_bit 16 n32 AND 0xffff)
       in rbind (Vector_Unser Unserialize_CTxIn) (\<lambda>vin. rbind (Vector_Unser Unserialize_CTxOut) (\<lambda>vout.
            rbind ser_readdata32 (\<lambda>nLockTime.
              rbind (if has_payload nVersion nType then Unserialize_bytes else rreturn []) (\<lambda>vExtraPayload.
                rreturn \<lparr>tx_vin = vin, tx_vout = vout, tx_nVersion = nVersion, tx_nType = nType,
                  tx_nLockTime = nLockTime, tx_vExtraPayload = vExtraPayload\<rparr>)))))"

definition GetTotalSize :: "CTransaction \<Rightarrow> nat" where
  "GetTotalSize tx = length (Serialize_CTransaction tx)"

section \<open>The formats of the parts\<close>

interpretation uint256: canonical_codec Serialize_uint256 Unserialize_uint256 "\<lambda>h. length h = 32"
  by unfold_locales (auto simp: Serialize_uint256_def Unserialize_uint256_def reader_simps stream_read_eq_Inr)

interpretation amount: canonical_codec Serialize_CAmount Unserialize_CAmount "\<lambda>v. - (2 ^ 63) \<le> v \<and> v < 2 ^ 63"
proof unfold_locales
  fix v :: int and r
  assume v: "- (2 ^ 63) \<le> v \<and> v < 2 ^ 63"
  then have "sint (word_of_int v :: u64) = v" by (simp add: signed_of_int signed_take_bit_int_eq_self)
  then show "Unserialize_CAmount (Serialize_CAmount v @ r) = Inr (v, r)"
    by (simp add: Unserialize_CAmount_def Serialize_CAmount_def int64.bind_back reader_simps)
next
  fix s v r
  assume "Unserialize_CAmount s = Inr (v, r)"
  then obtain w :: u64 where "v = sint w" "s = ser_writedata64 w @ r"
    by (auto simp: Unserialize_CAmount_def rbind_eq_Inr int64.reads_iff reader_simps)
  then show "(- (2 ^ 63) \<le> v \<and> v < 2 ^ 63) \<and> s = Serialize_CAmount v @ r"
    using sint_greater_eq [of w] sint_less [of w] by (simp add: Serialize_CAmount_def)
qed

abbreviation valid_outpoint :: "COutPoint \<Rightarrow> bool" where
  "valid_outpoint p \<equiv> length (op_hash p) = 32"

abbreviation valid_txin :: "CTxIn \<Rightarrow> bool" where
  "valid_txin i \<equiv> valid_outpoint (prevout i) \<and> length (scriptSig i) \<le> MAX_SIZE"

abbreviation valid_txout :: "CTxOut \<Rightarrow> bool" where
  "valid_txout o' \<equiv> (- (2 ^ 63) \<le> nValue o' \<and> nValue o' < 2 ^ 63) \<and> length (scriptPubKey o') \<le> MAX_SIZE"

interpretation outpoint: canonical_codec Serialize_COutPoint Unserialize_COutPoint valid_outpoint
  by unfold_locales
    (auto simp: Serialize_COutPoint_def Unserialize_COutPoint_def uint256.bind_back int32.bind_back rbind_eq_Inr
      uint256.reads_iff int32.reads_iff reader_simps)

interpretation txin: canonical_codec Serialize_CTxIn Unserialize_CTxIn valid_txin
  by unfold_locales
    (auto simp: Serialize_CTxIn_def Unserialize_CTxIn_def outpoint.bind_back byte_vector.bind_back int32.bind_back
      rbind_eq_Inr outpoint.reads_iff byte_vector.reads_iff int32.reads_iff reader_simps)

interpretation txout: canonical_codec Serialize_CTxOut Unserialize_CTxOut valid_txout
  by unfold_locales
    (auto simp: Serialize_CTxOut_def Unserialize_CTxOut_def amount.bind_back byte_vector.bind_back
      rbind_eq_Inr amount.reads_iff byte_vector.reads_iff reader_simps)

interpretation txins: canonical_codec "Vector_Ser Serialize_CTxIn" "Vector_Unser Unserialize_CTxIn"
  "\<lambda>v. length v \<le> MAX_SIZE \<and> (\<forall>i \<in> set v. valid_txin i)"
  by (rule txin.vector_codec)

interpretation txouts: canonical_codec "Vector_Ser Serialize_CTxOut" "Vector_Unser Unserialize_CTxOut"
  "\<lambda>v. length v \<le> MAX_SIZE \<and> (\<forall>i \<in> set v. valid_txout i)"
  by (rule txout.vector_codec)

text \<open>A transaction the format can carry; the payload is only there for the special types.\<close>

definition valid_tx :: "CTransaction \<Rightarrow> bool" where
  "valid_tx tx \<longleftrightarrow>
     (length (tx_vin tx) \<le> MAX_SIZE \<and> (\<forall>i \<in> set (tx_vin tx). valid_txin i)) \<and>
     (length (tx_vout tx) \<le> MAX_SIZE \<and> (\<forall>o' \<in> set (tx_vout tx). valid_txout o')) \<and>
     (if has_payload (tx_nVersion tx) (tx_nType tx) then length (tx_vExtraPayload tx) \<le> MAX_SIZE else tx_vExtraPayload tx = [])"

text \<open>The 32-bit field and its halves.\<close>

lemma and_ffff: "(x :: u32) AND 0xffff = take_bit 16 x"
  by (simp add: take_bit_eq_mask mask_eq_exp_minus_1)

lemma version_low: "ucast (n32bitVersion tx AND 0xffff) = tx_nVersion tx"
proof (rule bit_word_eqI)
  fix i assume "i < LENGTH(16)"
  then have i: "i < 16" "min 15 i = i" by simp_all
  then show "bit (ucast (n32bitVersion tx AND 0xffff) :: u16) i = bit (tx_nVersion tx) i"
    unfolding and_ffff
    by (simp add: n32bitVersion_def bit_ucast_iff bit_take_bit_iff bit_or_iff bit_signed_iff bit_push_bit_iff)
qed

lemma sint_neg_bit: "sint (v :: u16) < 0 \<longleftrightarrow> bit v 15"
  by (simp add: sint_uint signed_take_bit_negative_iff bit_uint_iff)

lemma version_high:
  "ucast (drop_bit 16 (n32bitVersion tx) AND 0xffff) = (if sint (tx_nVersion tx) < 0 then 0xffff else tx_nType tx)"
proof -
  have m: "(0xffff :: u16) = mask 16" by (simp add: mask_eq_exp_minus_1)
  have b: "bit (ucast (take_bit 16 (drop_bit 16 (n32bitVersion tx))) :: u16) i \<longleftrightarrow> bit (tx_nVersion tx) 15 \<or> bit (tx_nType tx) i"
    if "i < 16" for i
    using that by (auto simp: n32bitVersion_def bit_ucast_iff bit_take_bit_iff bit_drop_bit_eq bit_or_iff bit_signed_iff bit_push_bit_iff min_def)
  show ?thesis unfolding and_ffff m
    by (rule bit_word_eqI) (auto simp: b sint_neg_bit bit_mask_iff)
qed


lemma Unserialize_Serialize_CTransaction:
  assumes "valid_tx tx"
  shows "Unserialize_CTransaction (Serialize_CTransaction tx @ r) =
    Inr (if sint (tx_nVersion tx) < 0 then tx\<lparr>tx_nType := 0xffff\<rparr> else tx, r)"
proof -
  have neg: "tx_nVersion tx \<noteq> 3" if "sint (tx_nVersion tx) < 0" using that by auto
  then have pay: "has_payload (tx_nVersion tx) (if sint (tx_nVersion tx) < 0 then 0xffff else tx_nType tx) =
      has_payload (tx_nVersion tx) (tx_nType tx)"
    by (auto simp: has_payload_def)
  have payload: "rbind (if has_payload (tx_nVersion tx) (tx_nType tx) then Unserialize_bytes else rreturn []) f
      ((if has_payload (tx_nVersion tx) (tx_nType tx) then Serialize_bytes (tx_vExtraPayload tx) else []) @ r) = f (tx_vExtraPayload tx) r" for f
    using assms by (auto simp: valid_tx_def byte_vector.read_back rbind_def reader_simps)
  show ?thesis
    using assms unfolding Unserialize_CTransaction_def Serialize_CTransaction_def valid_tx_def append_assoc
    by (simp add: int32.bind_back txins.bind_back txouts.bind_back version_low version_high Let_def pay payload reader_simps)
qed

text \<open>
  C12: A transaction the wire format can carry is read back as written exactly when its version is not negative or its type
  is \<open>0xffff\<close>: the sign-extended negative version overwrites the type in the 32-bit field.
\<close>

theorem CTransaction_roundtrip:
  assumes "valid_tx tx"
  shows "Unserialize_CTransaction (Serialize_CTransaction tx @ r) = Inr (tx, r) \<longleftrightarrow>
      0 \<le> sint (tx_nVersion tx) \<or> tx_nType tx = 0xffff"
proof -
  have "tx\<lparr>tx_nType := 0xffff\<rparr> = tx \<longleftrightarrow> tx_nType tx = 0xffff"
    by (metis CTransaction.surjective CTransaction.update_convs(4) CTransaction.select_convs(4))
  with assms show ?thesis by (auto simp: Unserialize_Serialize_CTransaction)
qed

text \<open>A transaction with one input and one output, for the instances.\<close>

definition example_tx :: "u16 \<Rightarrow> CTransaction" where
  "example_tx version = \<lparr>tx_vin = [\<lparr>prevout = \<lparr>op_hash = replicate 32 1, op_n = 0\<rparr>, scriptSig = [0x51], in_nSequence = 0xffffffff\<rparr>],
     tx_vout = [\<lparr>nValue = 5, scriptPubKey = [0x51]\<rparr>], tx_nVersion = version, tx_nType = 0, tx_nLockTime = 0, tx_vExtraPayload = []\<rparr>"

lemma valid_example_tx: "valid_tx (example_tx v)"
  by (simp add: valid_tx_def example_tx_def MAX_SIZE_def has_payload_def TRANSACTION_NORMAL_def)

theorem CTransaction_roundtrip_witness:
  "Unserialize_CTransaction (Serialize_CTransaction (example_tx 2) @ [7]) = Inr (example_tx 2, [7]) \<and>
   Unserialize_CTransaction (Serialize_CTransaction (example_tx 0xffff) @ [7]) \<noteq> Inr (example_tx 0xffff, [7])"
  using CTransaction_roundtrip [OF valid_example_tx, of 2 "[7]"] CTransaction_roundtrip [OF valid_example_tx, of "0xffff" "[7]"]
  by (simp add: example_tx_def)

text \<open>
  Two different transactions with a negative version have the same bytes, hence the same hash.
\<close>

lemma negative_version_same_bytes:
  assumes "sint (tx_nVersion tx) < 0"
  shows "Serialize_CTransaction (tx\<lparr>tx_nType := t\<rparr>) = Serialize_CTransaction tx"
proof -
  have "bit (tx_nVersion tx) 15" using assms by (simp add: sint_neg_bit)
  then have "n32bitVersion (tx\<lparr>tx_nType := t\<rparr>) = n32bitVersion tx"
    by (intro bit_word_eqI) (auto simp: n32bitVersion_def bit_or_iff bit_signed_iff bit_push_bit_iff bit_ucast_iff min_def)
  moreover have "tx_nVersion tx \<noteq> 3" using assms by auto
  ultimately show ?thesis by (simp add: Serialize_CTransaction_def has_payload_def)
qed

section \<open>Amounts\<close>

lemma value_out_loop_Some:
  assumes "MoneyRange acc"
  shows "value_out_loop vout acc = Some v \<longleftrightarrow>
    (\<forall>o' \<in> set vout. MoneyRange (nValue o')) \<and> v = acc + sum_list (map nValue vout) \<and> MoneyRange v"
  using assms
proof (induction vout arbitrary: acc)
  case (Cons o' vout)
  have nonneg: "0 \<le> sum_list (map nValue vout)" if "\<forall>o' \<in> set vout. MoneyRange (nValue o')"
    using that by (intro sum_list_nonneg) (auto simp: MoneyRange_def)
  show ?case
  proof (cases "MoneyRange (nValue o') \<and> MoneyRange (acc + nValue o')")
    case True
    then show ?thesis using Cons.IH [of "acc + nValue o'"] by (auto simp: add.assoc)
  next
    case False
    then show ?thesis using Cons.prems nonneg by (auto simp: MoneyRange_def)
  qed
qed auto

lemma GetValueOut_Some:
  "GetValueOut tx = Some v \<longleftrightarrow>
    (\<forall>o' \<in> set (tx_vout tx). MoneyRange (nValue o')) \<and> v = sum_list (map nValue (tx_vout tx)) \<and> MoneyRange v"
  by (simp add: GetValueOut_def value_out_loop_Some MoneyRange_def MAX_MONEY_def COIN_def)

section \<open>The orders\<close>

text \<open>
  The script order of the outputs is not the lexicographic order BIP 69 asks for: a shorter script comes first.
\<close>

lemma CompareOutputBIP69_shorter_first:
  assumes "length s < length t"
  shows "CompareOutputBIP69 \<lparr>nValue = v, scriptPubKey = s\<rparr> \<lparr>nValue = v, scriptPubKey = t\<rparr>"
  using assms by (simp add: CompareOutputBIP69_def prevector_less_def)

lemma CompareOutputBIP69_not_lexicographic:
  "CompareOutputBIP69 \<lparr>nValue = 1, scriptPubKey = [0xa9]\<rparr> \<lparr>nValue = 1, scriptPubKey = [0x76, 0xa9]\<rparr> \<and>
   [0x76, 0xa9] < ([0xa9] :: bytes)"
  by (simp add: CompareOutputBIP69_shorter_first)

lemma CompareInputBIP69_total:
  "CompareInputBIP69 a b \<or> CompareInputBIP69 b a \<or> prevout a = prevout b"
  by (auto simp: CompareInputBIP69_def intro: COutPoint.equality)

end
