(* ===== verification/SigHash.thy ===== *)
theory SigHash
  imports Transaction Interpreter
begin

text \<open>
  What a signature signs: the signature serializer, \<open>SignatureHash\<close> and the checker of a transaction input that the
  script interpreter calls, \<^verbatim>\<open>script/interpreter.cpp\<close>.  A position in the script code is the list of bytes from there on,
  as in \<open>Script\<close>.
\<close>

unbundle bit_operations_syntax

section \<open>Hashes of transactions\<close>

definition GetHash :: "crypto \<Rightarrow> CTransaction \<Rightarrow> uint256" where
  "GetHash cr tx = Hash256 cr (Serialize_CTransaction tx)"

section \<open>The signature serializer\<close>

record CTransactionSignatureSerializer =
  txTo :: CTransaction
  scriptCode :: CScript
  nIn :: nat
  fAnyoneCanPay :: bool
  fHashSingle :: bool
  fHashNone :: bool

definition make_serializer :: "CTransaction \<Rightarrow> CScript \<Rightarrow> nat \<Rightarrow> int \<Rightarrow> CTransactionSignatureSerializer" where
  "make_serializer tx code n nHashType =
     \<lparr>txTo = tx, scriptCode = code, nIn = n, fAnyoneCanPay = (nHashType AND uint SIGHASH_ANYONECANPAY \<noteq> 0),
      fHashSingle = (nHashType AND 0x1f = uint SIGHASH_SINGLE), fHashNone = (nHashType AND 0x1f = uint SIGHASH_NONE)\<rparr>"

function count_separators :: "bytes \<Rightarrow> nat" where
  "count_separators it =
     (case GetScriptOp it of
        (None, _) \<Rightarrow> 0
      | (Some (opcode, _), it') \<Rightarrow> (if opcode = OP_CODESEPARATOR then 1 else 0) + count_separators it')"
  by pat_completeness auto

termination
  by (relation "measure length") (auto dest: GetScriptOp_less [OF sym])

function copy_code :: "bytes \<Rightarrow> bytes \<Rightarrow> bytes" where
  "copy_code itBegin it =
     (case GetScriptOp it of
        (None, it') \<Rightarrow> if itBegin \<noteq> [] then take (length itBegin - length it') itBegin else []
      | (Some (opcode, _), it') \<Rightarrow>
          if opcode = OP_CODESEPARATOR
          then take (length itBegin - length it' - 1) itBegin @ copy_code it' it'
          else copy_code itBegin it')"
  by pat_completeness auto

termination
  by (relation "measure (\<lambda>(b, it). length it)") (auto dest: GetScriptOp_less [OF sym])

declare count_separators.simps [simp del] copy_code.simps [simp del]

definition SerializeScriptCode :: "CTransactionSignatureSerializer \<Rightarrow> bytes" where
  "SerializeScriptCode z =
     WriteCompactSize (length (scriptCode z) - count_separators (scriptCode z)) @ copy_code (scriptCode z) (scriptCode z)"

definition SerializeInput :: "CTransactionSignatureSerializer \<Rightarrow> nat \<Rightarrow> bytes" where
  "SerializeInput z nInput0 =
     (let nInput = (if fAnyoneCanPay z then nIn z else nInput0); txin = tx_vin (txTo z) ! nInput
      in Serialize_COutPoint (prevout txin)
         @ (if nInput \<noteq> nIn z then Serialize_bytes [] else SerializeScriptCode z)
         @ (if nInput \<noteq> nIn z \<and> (fHashSingle z \<or> fHashNone z) then ser_writedata32 0
            else ser_writedata32 (in_nSequence txin)))"

definition SerializeOutput :: "CTransactionSignatureSerializer \<Rightarrow> nat \<Rightarrow> bytes" where
  "SerializeOutput z nOutput =
     (if fHashSingle z \<and> nOutput \<noteq> nIn z then Serialize_CTxOut CTxOut_null
      else Serialize_CTxOut (tx_vout (txTo z) ! nOutput))"

definition Serialize_signature :: "CTransactionSignatureSerializer \<Rightarrow> bytes" where
  "Serialize_signature z =
     (let tx = txTo z;
          nInputs = (if fAnyoneCanPay z then 1 else length (tx_vin tx));
          nOutputs = (if fHashNone z then 0 else if fHashSingle z then nIn z + 1 else length (tx_vout tx))
      in ser_writedata32 (n32bitVersion tx)
         @ WriteCompactSize nInputs @ concat (map (SerializeInput z) [0..<nInputs])
         @ WriteCompactSize nOutputs @ concat (map (SerializeOutput z) [0..<nOutputs])
         @ ser_writedata32 (tx_nLockTime tx)
         @ (if has_payload (tx_nVersion tx) (tx_nType tx) then Serialize_bytes (tx_vExtraPayload tx) else []))"

definition uint256_ONE :: uint256 where
  "uint256_ONE = 1 # replicate 31 0"

text \<open>The bytes that are hashed, and the hash; \<open>None\<close> is a failing assertion.\<close>

definition signature_preimage :: "CScript \<Rightarrow> CTransaction \<Rightarrow> nat \<Rightarrow> int \<Rightarrow> bytes" where
  "signature_preimage code tx n nHashType =
     Serialize_signature (make_serializer tx code n nHashType) @ ser_writedata32 (word_of_int nHashType)"

definition SignatureHash :: "crypto \<Rightarrow> CScript \<Rightarrow> CTransaction \<Rightarrow> nat \<Rightarrow> int \<Rightarrow> uint256 option" where
  "SignatureHash cr code tx n nHashType =
     (if \<not> n < length (tx_vin tx) then None
      else if nHashType AND 0x1f = uint SIGHASH_SINGLE \<and> n \<ge> length (tx_vout tx) then Some uint256_ONE
      else Some (Hash256 cr (signature_preimage code tx n nHashType)))"

section \<open>The checker\<close>

text \<open>
  The checker is made for an input of the transaction, so that the assertion of \<open>SignatureHash\<close> holds; the model of a
  checker for any other index accepts no signature.
\<close>

definition checker_CheckSig :: "crypto \<Rightarrow> CTransaction \<Rightarrow> nat \<Rightarrow> bytes \<Rightarrow> bytes \<Rightarrow> CScript \<Rightarrow> SigVersion \<Rightarrow> bool" where
  "checker_CheckSig cr tx n vchSigIn vchPubKey code sigversion =
     (if \<not> PubKey_IsValid vchPubKey then False
      else if vchSigIn = [] then False
      else case SignatureHash cr code tx n (uint (last vchSigIn)) of
             None \<Rightarrow> False
           | Some sighash \<Rightarrow> PubKey_Verify cr vchPubKey sighash (butlast vchSigIn))"

definition checker_CheckSchnorrSig :: "crypto \<Rightarrow> CTransaction \<Rightarrow> nat \<Rightarrow> bytes \<Rightarrow> bytes \<Rightarrow> CScript \<Rightarrow> byte \<Rightarrow> bool" where
  "checker_CheckSchnorrSig cr tx n sig64 vchPubKey code nHashType =
     (if \<not> PubKey_IsValid vchPubKey \<or> length vchPubKey \<noteq> COMPRESSED_SIZE then False
      else case SignatureHash cr code tx n (uint nHashType) of
             None \<Rightarrow> False
           | Some sighash \<Rightarrow> PubKey_VerifySchnorr cr vchPubKey sighash sig64)"

definition checker_CheckLockTime :: "CTransaction \<Rightarrow> nat \<Rightarrow> CScriptNum \<Rightarrow> bool" where
  "checker_CheckLockTime tx n nLockTime =
     (if \<not> (tx_nLockTime tx < LOCKTIME_THRESHOLD \<and> nLockTime < uint LOCKTIME_THRESHOLD
            \<or> tx_nLockTime tx \<ge> LOCKTIME_THRESHOLD \<and> nLockTime \<ge> uint LOCKTIME_THRESHOLD) then False
      else if nLockTime > uint (tx_nLockTime tx) then False
      else if SEQUENCE_FINAL = in_nSequence (tx_vin tx ! n) then False
      else True)"

definition checker_CheckSequence :: "CTransaction \<Rightarrow> nat \<Rightarrow> CScriptNum \<Rightarrow> bool" where
  "checker_CheckSequence tx n nSequence =
     (let txToSequence = uint (in_nSequence (tx_vin tx ! n));
          nLockTimeMask = uint (SEQUENCE_LOCKTIME_TYPE_FLAG OR SEQUENCE_LOCKTIME_MASK);
          txToSequenceMasked = txToSequence AND nLockTimeMask;
          nSequenceMasked = nSequence AND nLockTimeMask;
          type_flag = uint SEQUENCE_LOCKTIME_TYPE_FLAG
      in if (scast (tx_nVersion tx) :: u32) < 2 then False
         else if txToSequence AND SEQUENCE_LOCKTIME_DISABLE_FLAG \<noteq> 0 then False
         else if \<not> (txToSequenceMasked < type_flag \<and> nSequenceMasked < type_flag
                     \<or> txToSequenceMasked \<ge> type_flag \<and> nSequenceMasked \<ge> type_flag) then False
         else if nSequenceMasked > txToSequenceMasked then False
         else True)"

definition TransactionSignatureChecker :: "crypto \<Rightarrow> CTransaction \<Rightarrow> nat \<Rightarrow> BaseSignatureChecker" where
  "TransactionSignatureChecker cr tx n =
     \<lparr>CheckSig = checker_CheckSig cr tx n, CheckSchnorrSig = checker_CheckSchnorrSig cr tx n,
      CheckLockTime = checker_CheckLockTime tx n, CheckSequence = checker_CheckSequence tx n\<rparr>"

section \<open>Script code without its separators\<close>

lemma GetScriptOp_consumes:
  assumes "GetScriptOp it = (Some (opcode, d), it')"
  shows "\<exists>b. it = b @ it' \<and> b \<noteq> [] \<and> (opcode = OP_CODESEPARATOR \<longrightarrow> b = [OP_CODESEPARATOR])"
proof (cases it)
  case (Cons c pc)
  have n: "\<not> OP_CODESEPARATOR \<le> OP_PUSHDATA4" by (simp add: opcodes)
  have c: "opcode = c" and s: "\<exists>n. it' = drop n pc" and l: "\<not> c \<le> OP_PUSHDATA4 \<Longrightarrow> it' = pc"
    using assms Cons by (auto simp: GetScriptOp_def read_push_def split: if_splits intro: exI [of _ 0])
  obtain n where "it' = drop n pc" using s by blast
  then have "it = (c # take n pc) @ it'" by (simp add: Cons)
  moreover have "it = [c] @ it'" if "\<not> c \<le> OP_PUSHDATA4" using Cons l [OF that] by simp
  ultimately show ?thesis using c n by (metis list.distinct(1))
qed (use assms in \<open>simp add: GetScriptOp_def\<close>)

text \<open>A script all of whose instructions can be read, and its instructions other than the separators.\<close>

function parses :: "bytes \<Rightarrow> bool" where
  "parses it \<longleftrightarrow> it = [] \<or> (case GetScriptOp it of (None, _) \<Rightarrow> False | (Some _, it') \<Rightarrow> parses it')"
  by pat_completeness auto

termination
  by (relation "measure length") (auto dest: GetScriptOp_less [OF sym])

function without_separators :: "bytes \<Rightarrow> bytes" where
  "without_separators it =
     (case GetScriptOp it of
        (None, _) \<Rightarrow> []
      | (Some (opcode, _), it') \<Rightarrow>
          (if opcode = OP_CODESEPARATOR then [] else take (length it - length it') it) @ without_separators it')"
  by pat_completeness auto

termination
  by (relation "measure length") (auto dest: GetScriptOp_less [OF sym])

declare parses.simps [simp del] without_separators.simps [simp del]

lemma GetScriptOp_Nil [simp]: "GetScriptOp [] = (None, [])"
  by (simp add: GetScriptOp_def)

lemma parses_cases:
  assumes "parses it"
  obtains (nil) "it = []"
  | (op) opcode d b it' where "it = b @ it'" "b \<noteq> []" "GetScriptOp it = (Some (opcode, d), it')" "parses it'"
      "opcode = OP_CODESEPARATOR \<Longrightarrow> b = [OP_CODESEPARATOR]"
proof (cases "it = []")
  case False
  then obtain opcode d it' where g: "GetScriptOp it = (Some (opcode, d), it')" "parses it'"
    using assms by (subst (asm) parses.simps) (auto split: prod.splits option.splits)
  then show thesis using GetScriptOp_consumes [OF g(1)] op by blast
qed (use nil in blast)

lemma copy_code_parsed:
  "parses it \<Longrightarrow> copy_code (p @ it) it = p @ without_separators it"
proof (induction it arbitrary: p rule: length_induct)
  case (1 it)
  from 1(2) show ?case
  proof (cases rule: parses_cases)
    case nil
    then show ?thesis by (simp add: copy_code.simps [of _ "[]"] without_separators.simps [of "[]"])
  next
    case (op opcode d b it')
    then have "length it' < length it" by simp
    then have IH: "copy_code (q @ it') it' = q @ without_separators it'" for q using 1(1) op(4) by blast
    have w: "without_separators it = (if opcode = OP_CODESEPARATOR then [] else b) @ without_separators it'"
      by (subst without_separators.simps) (simp add: op(3), simp add: op(1))
    have "copy_code (p @ it) it = (if opcode = OP_CODESEPARATOR
        then take (length (p @ it) - length it' - 1) (p @ it) @ copy_code it' it' else copy_code (p @ it) it')"
      by (subst copy_code.simps) (simp add: op(3))
    then show ?thesis using w IH [of "[]"] IH [of "p @ b"] op(1,5) by auto
  qed
qed

lemma length_without_separators:
  "parses it \<Longrightarrow> length (without_separators it) + count_separators it = length it"
proof (induction it rule: length_induct)
  case (1 it)
  from 1(2) show ?case
  proof (cases rule: parses_cases)
    case nil
    then show ?thesis by (simp add: count_separators.simps [of "[]"] without_separators.simps [of "[]"])
  next
    case (op opcode d b it')
    then have "length it' < length it" by simp
    then have IH: "length (without_separators it') + count_separators it' = length it'" using 1(1) op(4) by blast
    have w: "without_separators it = (if opcode = OP_CODESEPARATOR then [] else b) @ without_separators it'"
      by (subst without_separators.simps) (simp add: op(3), simp add: op(1))
    have "count_separators it = (if opcode = OP_CODESEPARATOR then 1 else 0) + count_separators it'"
      by (subst count_separators.simps) (simp add: op(3))
    then show ?thesis using w IH op(1,5) by auto
  qed
qed

lemma SerializeScriptCode_parsed:
  "parses (scriptCode z) \<Longrightarrow> SerializeScriptCode z = Serialize_bytes (without_separators (scriptCode z))"
  using copy_code_parsed [of "scriptCode z" "[]"] length_without_separators [of "scriptCode z"]
  by (simp add: SerializeScriptCode_def Serialize_bytes_def) (metis add_diff_cancel_right')

section \<open>Signing everything\<close>

text \<open>The transaction that a signature over everything commits to: the script code in its input, no other scripts.\<close>

definition signed_tx :: "CScript \<Rightarrow> CTransaction \<Rightarrow> nat \<Rightarrow> CTransaction" where
  "signed_tx code tx n =
     tx\<lparr>tx_vin := map (\<lambda>i. (tx_vin tx ! i)\<lparr>scriptSig := if i = n then without_separators code else []\<rparr>) [0..<length (tx_vin tx)]\<rparr>"

definition signs_all :: "int \<Rightarrow> bool" where
  "signs_all nHashType \<longleftrightarrow>
     nHashType AND 0x80 = 0 \<and> nHashType AND 0x1f \<noteq> 2 \<and> nHashType AND 0x1f \<noteq> 3"

lemma signature_preimage_all:
  assumes "parses code" "signs_all nHashType"
  shows "signature_preimage code tx n nHashType =
    Serialize_CTransaction (signed_tx code tx n) @ ser_writedata32 (word_of_int nHashType)"
proof -
  let ?z = "make_serializer tx code n nHashType"
  have z: "\<not> fAnyoneCanPay ?z" "\<not> fHashSingle ?z" "\<not> fHashNone ?z" "txTo ?z = tx" "nIn ?z = n" "scriptCode ?z = code"
    using assms(2) by (simp_all add: make_serializer_def signs_all_def SIGHASH_ANYONECANPAY_def SIGHASH_SINGLE_def SIGHASH_NONE_def)
  have "SerializeInput ?z = (\<lambda>i. Serialize_CTxIn ((tx_vin tx ! i)\<lparr>scriptSig := if i = n then without_separators code else []\<rparr>))"
    using z assms(1) by (intro ext) (simp add: SerializeInput_def Serialize_CTxIn_def Let_def SerializeScriptCode_parsed)
  moreover have "concat (map (SerializeOutput ?z) [0..<length (tx_vout tx)]) = concat (map Serialize_CTxOut (tx_vout tx))"
    using z by (intro arg_cong [where f = concat] nth_equalityI) (simp_all add: SerializeOutput_def)
  ultimately show ?thesis
    using z by (simp add: signature_preimage_def Serialize_signature_def Serialize_CTransaction_def Vector_Ser_def signed_tx_def
        Let_def n32bitVersion_def comp_def)
qed


lemma valid_signed_tx:
  assumes "valid_tx tx" "parses code" "length code \<le> MAX_SIZE"
  shows "valid_tx (signed_tx code tx n)"
proof -
  have "length (without_separators code) \<le> MAX_SIZE" using length_without_separators [OF assms(2)] assms(3) by simp
  then show ?thesis using assms(1) by (auto simp: valid_tx_def signed_tx_def)
qed

lemma signed_tx_eqD:
  assumes "signed_tx code tx n = signed_tx code' tx' n'"
  shows "tx_vout tx = tx_vout tx'" "tx_nVersion tx = tx_nVersion tx'" "tx_nType tx = tx_nType tx'"
    "tx_nLockTime tx = tx_nLockTime tx'" "tx_vExtraPayload tx = tx_vExtraPayload tx'"
    "map (\<lambda>i. (prevout i, in_nSequence i)) (tx_vin tx) = map (\<lambda>i. (prevout i, in_nSequence i)) (tx_vin tx')"
    "n < length (tx_vin tx) \<Longrightarrow> without_separators code \<noteq> [] \<Longrightarrow> n = n' \<and> without_separators code = without_separators code'"
proof -
  let ?f = "\<lambda>tx code n i. (tx_vin tx ! i)\<lparr>scriptSig := if i = n then without_separators code else []\<rparr>"
  have vin: "map (?f tx code n) [0..<length (tx_vin tx)] = map (?f tx' code' n') [0..<length (tx_vin tx')]"
    using arg_cong [OF assms, of tx_vin] by (simp add: signed_tx_def)
  then have len: "length (tx_vin tx) = length (tx_vin tx')" by (auto dest: map_eq_imp_length_eq)
  have nth: "?f tx code n i = ?f tx' code' n' i" if "i < length (tx_vin tx)" for i
    using arg_cong [OF vin, of "\<lambda>l. l ! i"] that len by simp
  show "tx_vout tx = tx_vout tx'" using arg_cong [OF assms, of tx_vout] by (simp add: signed_tx_def)
  show "tx_nVersion tx = tx_nVersion tx'" using arg_cong [OF assms, of tx_nVersion] by (simp add: signed_tx_def)
  show "tx_nType tx = tx_nType tx'" using arg_cong [OF assms, of tx_nType] by (simp add: signed_tx_def)
  show "tx_nLockTime tx = tx_nLockTime tx'" using arg_cong [OF assms, of tx_nLockTime] by (simp add: signed_tx_def)
  show "tx_vExtraPayload tx = tx_vExtraPayload tx'" using arg_cong [OF assms, of tx_vExtraPayload] by (simp add: signed_tx_def)
  have "prevout (tx_vin tx ! i) = prevout (tx_vin tx' ! i) \<and> in_nSequence (tx_vin tx ! i) = in_nSequence (tx_vin tx' ! i)"
    if "i < length (tx_vin tx)" for i
    using arg_cong [OF nth [OF that], of prevout] arg_cong [OF nth [OF that], of in_nSequence] by simp
  then show "map (\<lambda>i. (prevout i, in_nSequence i)) (tx_vin tx) = map (\<lambda>i. (prevout i, in_nSequence i)) (tx_vin tx')"
    using len by (intro nth_equalityI) simp_all
  show "n = n' \<and> without_separators code = without_separators code'"
    if "n < length (tx_vin tx)" "without_separators code \<noteq> []"
    using arg_cong [OF nth [OF that(1)], of scriptSig] that(2) by (simp split: if_split_asm)
qed



text \<open>The known exception: a hash type for a single output, with no output at the index of the input, signs the number one.\<close>

lemma SignatureHash_single_out_of_range:
  assumes "n < length (tx_vin tx)" "length (tx_vout tx) \<le> n"
  shows "SignatureHash cr code tx n 3 = Some uint256_ONE"
  using assms by (simp add: SignatureHash_def SIGHASH_SINGLE_def)

end
