(* ===== verification/Coins.thy ===== *)
theory Coins
  imports Transaction "HOL-Library.AList"
begin

text \<open>
  The set of unspent outputs, \<^verbatim>\<open>coins.{h,cpp}\<close>, and its database, the coins part of \<^verbatim>\<open>txdb.cpp\<close>.  A view is a state with
  operations on it (\<open>view_ops\<close>); a cache is a view over another view, so that caches stack.  Reading a cache
  may change it and the views below it, so every operation returns the new state.  The unordered map of a cache is
  an association list; the order of its entries is the order of iteration.  The locale \<open>coins_view\<close> says what a view
  promises in terms of the set of unspent outputs it stands for.  The count of the memory the cache uses is left out.
\<close>

unbundle bit_operations_syntax

section \<open>Coins\<close>

text \<open>The height is a bit field of 31 bits.\<close>

record Coin =
  coin_out :: CTxOut
  fCoinBase :: bool
  coin_nHeight :: nat

definition make_Coin :: "CTxOut \<Rightarrow> int \<Rightarrow> bool \<Rightarrow> Coin" where
  "make_Coin outIn nHeightIn fCoinBaseIn =
     \<lparr>coin_out = outIn, fCoinBase = fCoinBaseIn, coin_nHeight = nat (nHeightIn mod 2 ^ 31)\<rparr>"

definition coinEmpty :: Coin where
  "coinEmpty = \<lparr>coin_out = CTxOut_null, fCoinBase = False, coin_nHeight = 0\<rparr>"

definition IsSpent :: "Coin \<Rightarrow> bool" where
  "IsSpent c \<longleftrightarrow> CTxOut_IsNull (coin_out c)"

record CCoinsCacheEntry =
  entry_coin :: Coin
  entry_flags :: byte

definition DIRTY :: byte where "DIRTY = 1"
definition FRESH :: byte where "FRESH = 2"

abbreviation is_dirty :: "CCoinsCacheEntry \<Rightarrow> bool" where
  "is_dirty e \<equiv> entry_flags e AND DIRTY \<noteq> 0"

abbreviation is_fresh :: "CCoinsCacheEntry \<Rightarrow> bool" where
  "is_fresh e \<equiv> entry_flags e AND FRESH \<noteq> 0"

definition empty_entry :: CCoinsCacheEntry where
  "empty_entry = \<lparr>entry_coin = coinEmpty, entry_flags = 0\<rparr>"

type_synonym CCoinsMap = "(COutPoint \<times> CCoinsCacheEntry) list"

section \<open>Views\<close>

text \<open>
  \<open>GetCoin\<close> gives the coin when it returns true.  A bulk modification may throw, or return false; \<open>coin_assert\<close> is
  a failing assertion.
\<close>

datatype coins_error = logic_error | coin_assert

record 'b view_ops =
  view_GetCoin :: "'b \<Rightarrow> COutPoint \<Rightarrow> Coin option \<times> 'b"
  view_GetBestBlock :: "'b \<Rightarrow> uint256 \<times> 'b"
  view_BatchWrite :: "'b \<Rightarrow> CCoinsMap \<Rightarrow> uint256 \<Rightarrow> coins_error + bool \<times> 'b"

section \<open>The cache\<close>

record 'b CCoinsViewCache =
  cv_base :: 'b
  cv_hashBlock :: uint256
  cacheCoins :: CCoinsMap

definition make_cache :: "'b \<Rightarrow> 'b CCoinsViewCache" where
  "make_cache baseIn = \<lparr>cv_base = baseIn, cv_hashBlock = null_hash, cacheCoins = []\<rparr>"

definition FetchCoin :: "'b view_ops \<Rightarrow> 'b CCoinsViewCache \<Rightarrow> COutPoint \<Rightarrow> CCoinsCacheEntry option \<times> 'b CCoinsViewCache" where
  "FetchCoin ops c outpoint =
     (case map_of (cacheCoins c) outpoint of
        Some e \<Rightarrow> (Some e, c)
      | None \<Rightarrow>
          (case view_GetCoin ops (cv_base c) outpoint of
             (None, b) \<Rightarrow> (None, c\<lparr>cv_base := b\<rparr>)
           | (Some tmp, b) \<Rightarrow>
               let e = \<lparr>entry_coin = tmp, entry_flags = (if IsSpent tmp then FRESH else 0)\<rparr>
               in (Some e, c\<lparr>cv_base := b, cacheCoins := AList.update outpoint e (cacheCoins c)\<rparr>)))"

definition GetCoin :: "'b view_ops \<Rightarrow> 'b CCoinsViewCache \<Rightarrow> COutPoint \<Rightarrow> Coin option \<times> 'b CCoinsViewCache" where
  "GetCoin ops c outpoint =
     (case FetchCoin ops c outpoint of
        (Some e, c') \<Rightarrow> (if \<not> IsSpent (entry_coin e) then Some (entry_coin e) else None, c')
      | (None, c') \<Rightarrow> (None, c'))"

definition AddCoin :: "'b CCoinsViewCache \<Rightarrow> COutPoint \<Rightarrow> Coin \<Rightarrow> bool \<Rightarrow> coins_error + 'b CCoinsViewCache" where
  "AddCoin c outpoint coin possible_overwrite =
     (if IsSpent coin then Inl coin_assert
      else if IsUnspendable (scriptPubKey (coin_out coin)) then Inr c
      else let e = (case map_of (cacheCoins c) outpoint of Some e \<Rightarrow> e | None \<Rightarrow> empty_entry)
           in if \<not> possible_overwrite \<and> \<not> IsSpent (entry_coin e) then Inl logic_error
              else let fresh = (\<not> possible_overwrite \<and> \<not> is_dirty e);
                       e' = \<lparr>entry_coin = coin, entry_flags = entry_flags e OR (DIRTY OR (if fresh then FRESH else 0))\<rparr>
                   in Inr (c\<lparr>cacheCoins := AList.update outpoint e' (cacheCoins c)\<rparr>))"

text \<open>Whether a coin was found, and the coin moved out.\<close>

definition SpendCoin :: "'b view_ops \<Rightarrow> 'b CCoinsViewCache \<Rightarrow> COutPoint \<Rightarrow> Coin option \<times> 'b CCoinsViewCache" where
  "SpendCoin ops c outpoint =
     (case FetchCoin ops c outpoint of
        (None, c') \<Rightarrow> (None, c')
      | (Some e, c') \<Rightarrow>
          (Some (entry_coin e),
           if is_fresh e then c'\<lparr>cacheCoins := AList.delete outpoint (cacheCoins c')\<rparr>
           else c'\<lparr>cacheCoins := AList.update outpoint
                    \<lparr>entry_coin = coinEmpty, entry_flags = entry_flags e OR DIRTY\<rparr> (cacheCoins c')\<rparr>))"

definition AccessCoin :: "'b view_ops \<Rightarrow> 'b CCoinsViewCache \<Rightarrow> COutPoint \<Rightarrow> Coin \<times> 'b CCoinsViewCache" where
  "AccessCoin ops c outpoint =
     (case FetchCoin ops c outpoint of
        (None, c') \<Rightarrow> (coinEmpty, c')
      | (Some e, c') \<Rightarrow> (entry_coin e, c'))"

definition HaveCoin :: "'b view_ops \<Rightarrow> 'b CCoinsViewCache \<Rightarrow> COutPoint \<Rightarrow> bool \<times> 'b CCoinsViewCache" where
  "HaveCoin ops c outpoint =
     (case FetchCoin ops c outpoint of
        (None, c') \<Rightarrow> (False, c')
      | (Some e, c') \<Rightarrow> (\<not> IsSpent (entry_coin e), c'))"

definition HaveCoinInCache :: "'b CCoinsViewCache \<Rightarrow> COutPoint \<Rightarrow> bool" where
  "HaveCoinInCache c outpoint =
     (case map_of (cacheCoins c) outpoint of None \<Rightarrow> False | Some e \<Rightarrow> \<not> IsSpent (entry_coin e))"

definition GetBestBlock :: "'b view_ops \<Rightarrow> 'b CCoinsViewCache \<Rightarrow> uint256 \<times> 'b CCoinsViewCache" where
  "GetBestBlock ops c =
     (if list_all (\<lambda>b. b = 0) (cv_hashBlock c)
      then case view_GetBestBlock ops (cv_base c) of (h, b) \<Rightarrow> (h, c\<lparr>cv_base := b, cv_hashBlock := h\<rparr>)
      else (cv_hashBlock c, c))"

definition SetBestBlock :: "'b CCoinsViewCache \<Rightarrow> uint256 \<Rightarrow> 'b CCoinsViewCache" where
  "SetBestBlock c hashBlockIn = c\<lparr>cv_hashBlock := hashBlockIn\<rparr>"

text \<open>One entry of the child: what becomes of the entries of this cache.\<close>

definition write_entry :: "COutPoint \<Rightarrow> CCoinsCacheEntry \<Rightarrow> CCoinsMap \<Rightarrow> coins_error + CCoinsMap" where
  "write_entry p e us =
     (if \<not> is_dirty e then Inr us
      else case map_of us p of
             None \<Rightarrow>
               if \<not> (is_fresh e \<and> IsSpent (entry_coin e))
               then Inr (AList.update p \<lparr>entry_coin = entry_coin e, entry_flags = (if is_fresh e then DIRTY OR FRESH else DIRTY)\<rparr> us)
               else Inr us
           | Some itUs \<Rightarrow>
               if is_fresh e \<and> \<not> IsSpent (entry_coin itUs) then Inl logic_error
               else if is_fresh itUs \<and> IsSpent (entry_coin e) then Inr (AList.delete p us)
               else Inr (AList.update p \<lparr>entry_coin = entry_coin e, entry_flags = entry_flags itUs OR DIRTY\<rparr> us))"

fun write_loop :: "CCoinsMap \<Rightarrow> CCoinsMap \<Rightarrow> coins_error + CCoinsMap" where
  "write_loop [] us = Inr us"
| "write_loop ((p, e) # m) us = (case write_entry p e us of Inl err \<Rightarrow> Inl err | Inr us' \<Rightarrow> write_loop m us')"

definition BatchWrite :: "'b CCoinsViewCache \<Rightarrow> CCoinsMap \<Rightarrow> uint256 \<Rightarrow> coins_error + bool \<times> 'b CCoinsViewCache" where
  "BatchWrite c mapCoins hashBlockIn =
     (case write_loop mapCoins (cacheCoins c) of
        Inl err \<Rightarrow> Inl err
      | Inr us \<Rightarrow> Inr (True, c\<lparr>cacheCoins := us, cv_hashBlock := hashBlockIn\<rparr>))"

definition Flush :: "'b view_ops \<Rightarrow> 'b CCoinsViewCache \<Rightarrow> coins_error + bool \<times> 'b CCoinsViewCache" where
  "Flush ops c =
     (case view_BatchWrite ops (cv_base c) (cacheCoins c) (cv_hashBlock c) of
        Inl err \<Rightarrow> Inl err
      | Inr (fOk, b) \<Rightarrow> Inr (fOk, c\<lparr>cv_base := b, cacheCoins := []\<rparr>))"

definition Uncache :: "'b CCoinsViewCache \<Rightarrow> COutPoint \<Rightarrow> 'b CCoinsViewCache" where
  "Uncache c p =
     (case map_of (cacheCoins c) p of
        Some e \<Rightarrow> if entry_flags e = 0 then c\<lparr>cacheCoins := AList.delete p (cacheCoins c)\<rparr> else c
      | None \<Rightarrow> c)"

definition GetCacheSize :: "'b CCoinsViewCache \<Rightarrow> nat" where
  "GetCacheSize c = length (cacheCoins c)"

text \<open>A cache is a view.\<close>

definition cache_ops :: "'b view_ops \<Rightarrow> 'b CCoinsViewCache view_ops" where
  "cache_ops ops = \<lparr>view_GetCoin = GetCoin ops, view_GetBestBlock = GetBestBlock ops, view_BatchWrite = BatchWrite\<rparr>"

section \<open>Transactions on a cache\<close>

fun value_in_loop :: "'b view_ops \<Rightarrow> CTxIn list \<Rightarrow> 'b CCoinsViewCache \<Rightarrow> CAmount \<Rightarrow> CAmount \<times> 'b CCoinsViewCache" where
  "value_in_loop ops [] c nResult = (nResult, c)"
| "value_in_loop ops (txin # vin) c nResult =
     (case AccessCoin ops c (prevout txin) of
        (coin, c') \<Rightarrow> value_in_loop ops vin c' (nResult + nValue (coin_out coin)))"

definition GetValueIn :: "'b view_ops \<Rightarrow> 'b CCoinsViewCache \<Rightarrow> CTransaction \<Rightarrow> CAmount \<times> 'b CCoinsViewCache" where
  "GetValueIn ops c tx = (if IsCoinBase tx then (0, c) else value_in_loop ops (tx_vin tx) c 0)"

fun have_inputs_loop :: "'b view_ops \<Rightarrow> CTxIn list \<Rightarrow> 'b CCoinsViewCache \<Rightarrow> bool \<times> 'b CCoinsViewCache" where
  "have_inputs_loop ops [] c = (True, c)"
| "have_inputs_loop ops (txin # vin) c =
     (case HaveCoin ops c (prevout txin) of
        (b, c') \<Rightarrow> if \<not> b then (False, c') else have_inputs_loop ops vin c')"

definition HaveInputs :: "'b view_ops \<Rightarrow> 'b CCoinsViewCache \<Rightarrow> CTransaction \<Rightarrow> bool \<times> 'b CCoinsViewCache" where
  "HaveInputs ops c tx = (if \<not> IsCoinBase tx then have_inputs_loop ops (tx_vin tx) c else (True, c))"

section \<open>The database\<close>

text \<open>
  The coins database: the coins, the best block, and, while a transition is being written, the new and the old block.
  Writing is a sequence of batches; the store applies each of them as a whole.  When a batch is full is a
  parameter, the size estimate of the store.
\<close>

record CCoinsViewDB =
  db_coins :: "COutPoint \<Rightarrow> Coin option"
  db_best :: "uint256 option"
  db_heads :: "uint256 list option"

datatype db_op = Erase_best | Write_heads "uint256 list" | Erase_coin COutPoint | Write_coin COutPoint Coin
  | Erase_heads | Write_best uint256

fun apply_op :: "db_op \<Rightarrow> CCoinsViewDB \<Rightarrow> CCoinsViewDB" where
  "apply_op Erase_best d = d\<lparr>db_best := None\<rparr>"
| "apply_op (Write_heads hs) d = d\<lparr>db_heads := Some hs\<rparr>"
| "apply_op (Erase_coin p) d = d\<lparr>db_coins := (db_coins d)(p := None)\<rparr>"
| "apply_op (Write_coin p c) d = d\<lparr>db_coins := (db_coins d)(p := Some c)\<rparr>"
| "apply_op Erase_heads d = d\<lparr>db_heads := None\<rparr>"
| "apply_op (Write_best h) d = d\<lparr>db_best := Some h\<rparr>"

definition WriteBatch :: "db_op list \<Rightarrow> CCoinsViewDB \<Rightarrow> CCoinsViewDB" where
  "WriteBatch batch d = fold apply_op batch d"

definition DB_GetCoin :: "CCoinsViewDB \<Rightarrow> COutPoint \<Rightarrow> Coin option \<times> CCoinsViewDB" where
  "DB_GetCoin d outpoint = (db_coins d outpoint, d)"

definition DB_GetBestBlock :: "CCoinsViewDB \<Rightarrow> uint256 \<times> CCoinsViewDB" where
  "DB_GetBestBlock d = (case db_best d of None \<Rightarrow> null_hash | Some h \<Rightarrow> h, d)"

definition DB_GetHeadBlocks :: "CCoinsViewDB \<Rightarrow> uint256 list" where
  "DB_GetHeadBlocks d = (case db_heads d of None \<Rightarrow> [] | Some hs \<Rightarrow> hs)"

definition batch_entry :: "COutPoint \<Rightarrow> CCoinsCacheEntry \<Rightarrow> db_op list" where
  "batch_entry p e =
     (if is_dirty e then if IsSpent (entry_coin e) then [Erase_coin p] else [Write_coin p (entry_coin e)] else [])"

fun batches_loop :: "(db_op list \<Rightarrow> bool) \<Rightarrow> CCoinsMap \<Rightarrow> db_op list \<Rightarrow> db_op list list" where
  "batches_loop full [] batch = [batch]"
| "batches_loop full ((p, e) # m) batch =
     (let batch' = batch @ batch_entry p e
      in if full batch' then batch' # batches_loop full m [] else batches_loop full m batch')"

definition db_batches :: "(db_op list \<Rightarrow> bool) \<Rightarrow> CCoinsMap \<Rightarrow> uint256 \<Rightarrow> uint256 \<Rightarrow> db_op list list" where
  "db_batches full mapCoins hashBlock old_tip =
     (let bs = batches_loop full mapCoins [Erase_best, Write_heads [hashBlock, old_tip]]
      in butlast bs @ [last bs @ [Erase_heads, Write_best hashBlock]])"

text \<open>The block the transition starts from; \<open>None\<close> when the assertion on an interrupted transition fails.\<close>

definition old_tip :: "CCoinsViewDB \<Rightarrow> uint256 \<Rightarrow> uint256 option" where
  "old_tip d hashBlock =
     (let tip = fst (DB_GetBestBlock d); heads = DB_GetHeadBlocks d
      in if list_all (\<lambda>b. b = 0) tip \<and> length heads = 2
         then if heads ! 0 \<noteq> hashBlock then None else Some (heads ! 1)
         else Some tip)"

definition DB_BatchWrite :: "(db_op list \<Rightarrow> bool) \<Rightarrow> CCoinsViewDB \<Rightarrow> CCoinsMap \<Rightarrow> uint256 \<Rightarrow> coins_error + bool \<times> CCoinsViewDB" where
  "DB_BatchWrite full d mapCoins hashBlock =
     (if list_all (\<lambda>b. b = 0) hashBlock then Inl coin_assert
      else case old_tip d hashBlock of
             None \<Rightarrow> Inl coin_assert
           | Some tip \<Rightarrow> Inr (True, fold WriteBatch (db_batches full mapCoins hashBlock tip) d))"

definition db_ops :: "(db_op list \<Rightarrow> bool) \<Rightarrow> CCoinsViewDB view_ops" where
  "db_ops full = \<lparr>view_GetCoin = DB_GetCoin, view_GetBestBlock = DB_GetBestBlock, view_BatchWrite = DB_BatchWrite full\<rparr>"

section \<open>What a view promises\<close>

abbreviation null_block :: "uint256 \<Rightarrow> bool" where
  "null_block h \<equiv> list_all (\<lambda>b. b = 0) h"

definition unspent :: "Coin \<Rightarrow> Coin option" where
  "unspent c = (if IsSpent c then None else Some c)"

text \<open>The effect of a bulk modification on the set of unspent outputs, and when it may be asked for.\<close>

definition apply_batch :: "CCoinsMap \<Rightarrow> (COutPoint \<Rightarrow> Coin option) \<Rightarrow> COutPoint \<Rightarrow> Coin option" where
  "apply_batch m a p =
     (case map_of m p of
        Some e \<Rightarrow> if is_dirty e then unspent (entry_coin e) else a p
      | None \<Rightarrow> a p)"

definition batch_ok :: "CCoinsMap \<Rightarrow> (COutPoint \<Rightarrow> Coin option) \<Rightarrow> bool" where
  "batch_ok m a \<longleftrightarrow> distinct (map fst m) \<and> (\<forall>(p, e) \<in> set m. is_dirty e \<and> is_fresh e \<longrightarrow> a p = None)"

locale coins_view =
  fixes ops :: "'b view_ops" and A :: "'b \<Rightarrow> COutPoint \<Rightarrow> Coin option" and I :: "'b \<Rightarrow> bool"
  assumes abs_unspent: "I v \<Longrightarrow> A v p = Some c \<Longrightarrow> \<not> IsSpent c"
    and get: "I v \<Longrightarrow> \<exists>v'. view_GetCoin ops v p = (A v p, v') \<and> I v' \<and> A v' = A v"
    and best: "I v \<Longrightarrow> \<exists>h v'. view_GetBestBlock ops v = (h, v') \<and> I v' \<and> A v' = A v"
    and write_all: "I v \<Longrightarrow> batch_ok m (A v) \<Longrightarrow> \<not> null_block h \<Longrightarrow>
      \<exists>v'. view_BatchWrite ops v m h = Inr (True, v') \<and> I v' \<and> A v' = apply_batch m (A v)
        \<and> fst (view_GetBestBlock ops v') = h"

section \<open>The entries of a cache\<close>

lemma flag_bits [simp]:
  "(f OR DIRTY) AND DIRTY \<noteq> 0" "(f OR (DIRTY OR g)) AND DIRTY \<noteq> 0"
  "(f OR DIRTY) AND FRESH = f AND FRESH"
  "(f OR (DIRTY OR FRESH)) AND FRESH \<noteq> 0"
  "(f OR (DIRTY OR 0)) AND FRESH = f AND FRESH"
  "DIRTY AND DIRTY \<noteq> 0" "DIRTY AND FRESH = 0" "(DIRTY OR FRESH) AND DIRTY \<noteq> 0" "(DIRTY OR FRESH) AND FRESH \<noteq> 0"
  "FRESH AND FRESH \<noteq> 0" "FRESH AND DIRTY = 0"
  by (simp_all add: DIRTY_def FRESH_def bit.conj_disj_distrib2 or_eq_0_iff)

text \<open>The five states of an entry that the code allows.\<close>

definition valid_entry :: "CCoinsCacheEntry \<Rightarrow> bool" where
  "valid_entry e \<longleftrightarrow> (if IsSpent (entry_coin e) then is_fresh e \<noteq> is_dirty e else is_fresh e \<longrightarrow> is_dirty e)"

text \<open>An entry against the parent's coin: fresh only without one, and the same unless dirty.\<close>

definition entry_agrees :: "Coin option \<Rightarrow> CCoinsCacheEntry \<Rightarrow> bool" where
  "entry_agrees par e \<longleftrightarrow>
     valid_entry e \<and> (is_fresh e \<longrightarrow> par = None) \<and> (\<not> is_dirty e \<longrightarrow> par = unspent (entry_coin e))"

definition cache_abs :: "('b \<Rightarrow> COutPoint \<Rightarrow> Coin option) \<Rightarrow> 'b CCoinsViewCache \<Rightarrow> COutPoint \<Rightarrow> Coin option" where
  "cache_abs A c p =
     (case map_of (cacheCoins c) p of Some e \<Rightarrow> unspent (entry_coin e) | None \<Rightarrow> A (cv_base c) p)"

definition entries_ok :: "(COutPoint \<Rightarrow> Coin option) \<Rightarrow> CCoinsMap \<Rightarrow> bool" where
  "entries_ok a m \<longleftrightarrow> distinct (map fst m) \<and> (\<forall>p e. map_of m p = Some e \<longrightarrow> entry_agrees (a p) e)"

definition cache_inv :: "('b \<Rightarrow> COutPoint \<Rightarrow> Coin option) \<Rightarrow> ('b \<Rightarrow> bool) \<Rightarrow> 'b CCoinsViewCache \<Rightarrow> bool" where
  "cache_inv A I c \<longleftrightarrow> I (cv_base c) \<and> entries_ok (A (cv_base c)) (cacheCoins c)"

lemma IsSpent_coinEmpty [simp]: "IsSpent coinEmpty"
  by (simp add: IsSpent_def coinEmpty_def CTxOut_null_def CTxOut_IsNull_def)

lemma unspent_simps [simp]: "IsSpent c \<Longrightarrow> unspent c = None" "\<not> IsSpent c \<Longrightarrow> unspent c = Some c"
  by (simp_all add: unspent_def)

lemma unspent_Some: "unspent c = Some d \<longleftrightarrow> d = c \<and> \<not> IsSpent c"
  by (auto simp: unspent_def)

lemma unspent_None: "unspent c = None \<longleftrightarrow> IsSpent c"
  by (simp add: unspent_def)

lemma entries_ok_update:
  "entries_ok a m \<Longrightarrow> entry_agrees (a p) e \<Longrightarrow> entries_ok a (AList.update p e m)"
  by (auto simp: entries_ok_def AList.distinct_update AList.update_conv' split: if_splits)

lemma entries_ok_delete: "entries_ok a m \<Longrightarrow> entries_ok a (AList.delete p m)"
  by (auto simp: entries_ok_def AList.distinct_delete AList.delete_conv' split: if_splits)

lemma entries_okD: "entries_ok a m \<Longrightarrow> map_of m p = Some e \<Longrightarrow> entry_agrees (a p) e"
  by (simp add: entries_ok_def)

lemma entries_ok_Nil [simp]: "entries_ok a []"
  by (simp add: entries_ok_def)

text \<open>One entry of a child written into the map of its parent.\<close>

definition map_abs :: "(COutPoint \<Rightarrow> Coin option) \<Rightarrow> CCoinsMap \<Rightarrow> COutPoint \<Rightarrow> Coin option" where
  "map_abs a m p = (case map_of m p of Some e \<Rightarrow> unspent (entry_coin e) | None \<Rightarrow> a p)"

lemma cache_abs_map: "cache_abs A c = map_abs (A (cv_base c)) (cacheCoins c)"
  by (rule ext) (simp add: cache_abs_def map_abs_def)

lemma map_abs_update: "map_abs a (AList.update p e m) = (map_abs a m)(p := unspent (entry_coin e))"
  by (rule ext) (simp add: map_abs_def AList.update_conv')

lemma map_abs_delete: "map_abs a (AList.delete p m) = (map_abs a m)(p := a p)"
  by (rule ext) (simp add: map_abs_def AList.delete_conv')

lemma map_abs_at:
  "map_of m p = None \<Longrightarrow> map_abs a m p = a p"
  "map_of m p = Some e \<Longrightarrow> map_abs a m p = unspent (entry_coin e)"
  by (simp_all add: map_abs_def)

lemma write_entry_ok:
  assumes "entries_ok a us" "is_dirty e \<and> is_fresh e \<longrightarrow> map_abs a us p = None"
  shows "\<exists>us'. write_entry p e us = Inr us' \<and> entries_ok a us' \<and>
    map_abs a us' = (if is_dirty e then (map_abs a us)(p := unspent (entry_coin e)) else map_abs a us)"
proof (cases "is_dirty e")
  case True
  show ?thesis
  proof (cases "map_of us p")
    case None
    then show ?thesis using True assms
      by (auto simp: write_entry_def entry_agrees_def valid_entry_def map_abs_update map_abs_at unspent_None fun_upd_idem_iff
          intro!: entries_ok_update)
  next
    case (Some itUs)
    note ok = entries_okD [OF assms(1) Some]
    then show ?thesis using True assms Some
      by (auto simp: write_entry_def entry_agrees_def valid_entry_def map_abs_update map_abs_delete map_abs_at unspent_None
          intro!: entries_ok_update entries_ok_delete)
  qed
qed (use assms in \<open>simp add: write_entry_def\<close>)

lemma apply_batch_Cons:
  "p \<notin> fst ` set m \<Longrightarrow> apply_batch ((p, e) # m) a =
    apply_batch m (if is_dirty e then a(p := unspent (entry_coin e)) else a)"
  unfolding map_of_eq_None_iff [symmetric]
  by (rule ext) (simp add: apply_batch_def split: option.split)

lemma batch_ok_simps [simp]:
  "batch_ok [] a"
  "batch_ok ((p, e) # m) a \<longleftrightarrow> p \<notin> fst ` set m \<and> (is_dirty e \<and> is_fresh e \<longrightarrow> a p = None) \<and> batch_ok m a"
  by (simp_all add: batch_ok_def conj_ac)

lemma batch_ok_upd [simp]: "p \<notin> fst ` set m \<Longrightarrow> batch_ok m (a(p := x)) = batch_ok m a"
  by (induction m) auto

lemma write_loop_ok:
  "entries_ok a us \<Longrightarrow> batch_ok m (map_abs a us) \<Longrightarrow>
    \<exists>us'. write_loop m us = Inr us' \<and> entries_ok a us' \<and> map_abs a us' = apply_batch m (map_abs a us)"
proof (induction m us rule: write_loop.induct)
  case (1 us)
  then show ?case by (simp add: apply_batch_def fun_eq_iff)
next
  case (2 p e m us)
  note b = 2(3) [unfolded batch_ok_simps]
  obtain us' where us': "write_entry p e us = Inr us'" "entries_ok a us'"
    "map_abs a us' = (if is_dirty e then (map_abs a us)(p := unspent (entry_coin e)) else map_abs a us)"
    using write_entry_ok [OF 2(2), of e p] b by auto
  then have "batch_ok m (map_abs a us')" using b by simp
  from 2(1) [OF us'(1) us'(2) this] show ?case using us' b
    by (auto simp: apply_batch_Cons)
qed

section \<open>The database is a view\<close>

text \<open>Between two transitions no head blocks are recorded, and only unspent coins are stored.\<close>

definition db_inv :: "CCoinsViewDB \<Rightarrow> bool" where
  "db_inv d \<longleftrightarrow> db_heads d = None \<and> (\<forall>p c. db_coins d p = Some c \<longrightarrow> \<not> IsSpent c)"

lemma WriteBatch_append: "WriteBatch (a @ b) d = WriteBatch b (WriteBatch a d)"
  by (simp add: WriteBatch_def)

lemma WriteBatch_Cons: "WriteBatch (x # b) d = WriteBatch b (apply_op x d)" "WriteBatch [] d = d"
  by (simp_all add: WriteBatch_def)

text \<open>However the batches are cut, together they perform the operations in order.\<close>

lemma batches_loop_nonempty [simp]: "batches_loop full m batch \<noteq> []"
  by (induction full m batch rule: batches_loop.induct) (simp_all add: Let_def)

lemma concat_batches_loop: "concat (batches_loop full m batch) = batch @ concat (map (\<lambda>(p, e). batch_entry p e) m)"
  by (induction full m batch rule: batches_loop.induct) (simp_all add: Let_def)

lemma fold_WriteBatch: "fold WriteBatch bs d = WriteBatch (concat bs) d"
  by (induction bs arbitrary: d) (simp_all add: WriteBatch_append, simp add: WriteBatch_def)

lemma concat_db_batches:
  "concat (db_batches full m h tip) =
    [Erase_best, Write_heads [h, tip]] @ concat (map (\<lambda>(p, e). batch_entry p e) m) @ [Erase_heads, Write_best h]"
proof -
  let ?bs = "batches_loop full m [Erase_best, Write_heads [h, tip]]"
  have "concat (db_batches full m h tip) = concat (butlast ?bs @ [last ?bs]) @ [Erase_heads, Write_best h]"
    by (simp add: db_batches_def Let_def del: append_butlast_last_id)
  then show ?thesis by (simp add: concat_batches_loop)
qed

lemma WriteBatch_entries:
  "distinct (map fst m) \<Longrightarrow> WriteBatch (concat (map (\<lambda>(p, e). batch_entry p e) m)) d =
    d\<lparr>db_coins := apply_batch m (db_coins d)\<rparr>"
proof (induction m arbitrary: d)
  case Nil
  have "apply_batch [] (db_coins d) = db_coins d" by (simp add: apply_batch_def fun_eq_iff)
  then show ?case by (simp add: WriteBatch_def)
next
  case (Cons x m)
  obtain p e where x: "x = (p, e)" by (cases x)
  have "WriteBatch (batch_entry p e) d =
      d\<lparr>db_coins := if is_dirty e then (db_coins d)(p := unspent (entry_coin e)) else db_coins d\<rparr>"
    by (simp add: batch_entry_def WriteBatch_def)
  with Cons x show ?case by (simp add: WriteBatch_append apply_batch_Cons)
qed

lemma DB_BatchWrite_ok:
  assumes "db_inv d" "distinct (map fst m)" "\<not> null_block h"
  shows "DB_BatchWrite full d m h =
    Inr (True, \<lparr>db_coins = apply_batch m (db_coins d), db_best = Some h, db_heads = None\<rparr>)"
proof -
  have "old_tip d h = Some (fst (DB_GetBestBlock d))"
    using assms(1) by (simp add: old_tip_def Let_def DB_GetHeadBlocks_def db_inv_def)
  then show ?thesis using assms
    by (simp add: DB_BatchWrite_def fold_WriteBatch concat_db_batches WriteBatch_Cons WriteBatch_append WriteBatch_entries)
qed

lemma apply_batch_unspent: "apply_batch m a p = Some c \<Longrightarrow> \<forall>p c. a p = Some c \<longrightarrow> \<not> IsSpent c \<Longrightarrow> \<not> IsSpent c"
  by (auto simp: apply_batch_def unspent_Some split: option.splits if_splits)

interpretation db_view: coins_view "db_ops full" db_coins db_inv for full
proof unfold_locales
  fix v m h
  assume "db_inv v" "batch_ok m (db_coins v)" "\<not> null_block h"
  then show "\<exists>v'. view_BatchWrite (db_ops full) v m h = Inr (True, v') \<and> db_inv v' \<and>
      db_coins v' = apply_batch m (db_coins v) \<and> fst (view_GetBestBlock (db_ops full) v') = h"
    using apply_batch_unspent [of m "db_coins v"]
    by (auto simp: db_ops_def DB_BatchWrite_ok batch_ok_def db_inv_def DB_GetBestBlock_def)
qed (auto simp: db_inv_def db_ops_def DB_GetCoin_def DB_GetBestBlock_def)

section \<open>A cache over a view is a view\<close>

lemma flags_nonzero [simp]: "DIRTY \<noteq> 0" "FRESH \<noteq> 0"
  by (simp_all add: DIRTY_def FRESH_def)

lemma cache_entry_agrees: "cache_inv A I c \<Longrightarrow> map_of (cacheCoins c) p = Some e \<Longrightarrow> entry_agrees (A (cv_base c) p) e"
  unfolding cache_inv_def using entries_okD by blast

lemma entries_ok_batch: "entries_ok a m \<Longrightarrow> batch_ok m a"
  by (auto simp: entries_ok_def batch_ok_def entry_agrees_def)

lemma entries_ok_apply:
  assumes "entries_ok a m" shows "apply_batch m a = map_abs a m"
proof
  fix p show "apply_batch m a p = map_abs a m p"
    using assms by (cases "map_of m p") (auto simp: apply_batch_def map_abs_def entries_ok_def entry_agrees_def)
qed

lemmas cache_defs = cache_inv_def cache_abs_map

context coins_view
begin

lemma fetch:
  assumes "cache_inv A I c"
  shows "\<exists>c'. FetchCoin ops c p = (map_of (cacheCoins c') p, c') \<and> cache_inv A I c' \<and> cache_abs A c' = cache_abs A c
    \<and> cv_hashBlock c' = cv_hashBlock c \<and> (map_of (cacheCoins c') p = None \<longrightarrow> A (cv_base c') p = None)"
proof (cases "map_of (cacheCoins c) p")
  case None
  obtain v where v: "view_GetCoin ops (cv_base c) p = (A (cv_base c) p, v)" "I v" "A v = A (cv_base c)"
    using get assms by (metis cache_inv_def)
  show ?thesis
  proof (cases "A (cv_base c) p")
    case (Some tmp)
    then have "\<not> IsSpent tmp" using abs_unspent assms by (auto simp: cache_inv_def)
    moreover have "(map_abs (A v) (cacheCoins c))(p := Some tmp) = map_abs (A v) (cacheCoins c)"
      using Some None v by (simp add: fun_upd_idem_iff map_abs_at)
    ultimately show ?thesis using None Some v assms
      by (auto simp: FetchCoin_def cache_defs map_abs_update entry_agrees_def valid_entry_def Let_def AList.update_conv'
          intro!: entries_ok_update)
  qed (use None v assms in \<open>auto simp: FetchCoin_def cache_defs\<close>)
qed (use assms in \<open>simp add: FetchCoin_def\<close>)

lemma fetch_cases:
  assumes "cache_inv A I c"
  obtains (missing) c' where "FetchCoin ops c p = (None, c')" "cache_abs A c p = None"
      "cache_inv A I c'" "cache_abs A c' = cache_abs A c" "cv_hashBlock c' = cv_hashBlock c"
    | (found) e c' where "FetchCoin ops c p = (Some e, c')" "cache_abs A c p = unspent (entry_coin e)"
      "cache_inv A I c'" "cache_abs A c' = cache_abs A c" "cv_hashBlock c' = cv_hashBlock c"
      "map_of (cacheCoins c') p = Some e" "entry_agrees (A (cv_base c') p) e"
proof -
  obtain c' where c': "FetchCoin ops c p = (map_of (cacheCoins c') p, c')" "cache_inv A I c'" "cache_abs A c' = cache_abs A c"
    "cv_hashBlock c' = cv_hashBlock c" "map_of (cacheCoins c') p = None \<longrightarrow> A (cv_base c') p = None"
    using fetch [OF assms, of p] by (elim exE conjE)
  show thesis
  proof (cases "map_of (cacheCoins c') p")
    case None
    with c'(5) have "cache_abs A c' p = None" by (simp add: cache_abs_map map_abs_at)
    with missing [of c'] None c' show thesis by simp
  next
    case (Some e)
    have "entry_agrees (A (cv_base c') p) e" using cache_entry_agrees [OF c'(2) Some] .
    moreover have "cache_abs A c' p = unspent (entry_coin e)" using Some by (simp add: cache_abs_map map_abs_at)
    ultimately show thesis using found [of e c'] Some c' by simp
  qed
qed

lemma cache_get:
  assumes "cache_inv A I c"
  shows "\<exists>c'. GetCoin ops c p = (cache_abs A c p, c') \<and> cache_inv A I c' \<and> cache_abs A c' = cache_abs A c
    \<and> cv_hashBlock c' = cv_hashBlock c"
  by (rule fetch_cases [OF assms, of p]) (simp_all add: GetCoin_def)

lemma cache_have:
  assumes "cache_inv A I c"
  shows "\<exists>c'. HaveCoin ops c p = (cache_abs A c p \<noteq> None, c') \<and> cache_inv A I c' \<and> cache_abs A c' = cache_abs A c
    \<and> cv_hashBlock c' = cv_hashBlock c"
  by (rule fetch_cases [OF assms, of p]) (simp_all add: HaveCoin_def unspent_def)

lemma cache_access:
  assumes "cache_inv A I c"
  shows "\<exists>coin c'. AccessCoin ops c p = (coin, c') \<and> unspent coin = cache_abs A c p \<and> cache_inv A I c'
    \<and> cache_abs A c' = cache_abs A c \<and> cv_hashBlock c' = cv_hashBlock c"
  by (rule fetch_cases [OF assms, of p]) (simp_all add: AccessCoin_def)

lemma cache_spend:
  assumes "cache_inv A I c"
  shows "\<exists>r c'. SpendCoin ops c p = (r, c') \<and> Option.bind r unspent = cache_abs A c p \<and> cache_inv A I c'
    \<and> cache_abs A c' = (cache_abs A c)(p := None) \<and> cv_hashBlock c' = cv_hashBlock c"
proof (rule fetch_cases [OF assms, of p])
  fix e c' assume f: "FetchCoin ops c p = (Some e, c')" "cache_abs A c p = unspent (entry_coin e)"
    "cache_inv A I c'" "cache_abs A c' = cache_abs A c" "cv_hashBlock c' = cv_hashBlock c"
    "map_of (cacheCoins c') p = Some e" "entry_agrees (A (cv_base c') p) e"
  have "cache_inv A I (snd (SpendCoin ops c p)) \<and> cache_abs A (snd (SpendCoin ops c p)) = (cache_abs A c')(p := None)"
    using f(1,3,6,7)
    by (auto simp: SpendCoin_def cache_defs map_abs_update map_abs_delete entry_agrees_def valid_entry_def
        intro!: entries_ok_update entries_ok_delete)
  with f show ?thesis by (simp add: SpendCoin_def)
qed (simp add: SpendCoin_def fun_upd_idem)

end

text \<open>Adding, dropping and setting the best block do not reach the parent.\<close>

lemma AddCoin_ok:
  assumes "cache_inv A I c" "\<not> IsSpent coin" "\<not> IsUnspendable (scriptPubKey (coin_out coin))"
    and "possible_overwrite \<or> cache_abs A c p = None"
  shows "\<exists>c'. AddCoin c p coin possible_overwrite = Inr c' \<and> cache_inv A I c'
    \<and> cache_abs A c' = (cache_abs A c)(p \<mapsto> coin) \<and> cv_hashBlock c' = cv_hashBlock c"
proof (cases "map_of (cacheCoins c) p")
  case None
  with assms show ?thesis
    by (auto simp: AddCoin_def Let_def cache_defs map_abs_update map_abs_at empty_entry_def entry_agrees_def valid_entry_def
        intro!: entries_ok_update)
next
  case (Some e)
  then have "entry_agrees (A (cv_base c) p) e" using assms(1) cache_entry_agrees by blast
  with Some assms show ?thesis
    by (auto simp: AddCoin_def Let_def cache_defs map_abs_update map_abs_at unspent_None entry_agrees_def valid_entry_def
        intro!: entries_ok_update)
qed

lemma Uncache_ok:
  assumes "cache_inv A I c"
  shows "cache_inv A I (Uncache c p) \<and> cache_abs A (Uncache c p) = cache_abs A c \<and> cv_hashBlock (Uncache c p) = cv_hashBlock c"
proof (cases "map_of (cacheCoins c) p")
  case (Some e)
  then have "entry_agrees (A (cv_base c) p) e" using assms cache_entry_agrees by blast
  with Some assms show ?thesis
    by (auto simp: Uncache_def cache_defs map_abs_delete map_abs_at entry_agrees_def fun_upd_idem_iff intro!: entries_ok_delete)
qed (use assms in \<open>simp add: Uncache_def\<close>)

lemma SetBestBlock_ok:
  "cache_inv A I (SetBestBlock c h) = cache_inv A I c" "cache_abs A (SetBestBlock c h) = cache_abs A c"
  "cv_hashBlock (SetBestBlock c h) = h"
  by (simp_all add: SetBestBlock_def cache_defs)

lemma make_cache_ok:
  "cache_inv A I (make_cache v) = I v" "cache_abs A (make_cache v) = A v"
  by (simp_all add: make_cache_def cache_defs map_abs_def fun_eq_iff)

context coins_view
begin

lemma cache_best:
  assumes "cache_inv A I c"
  shows "\<exists>h c'. GetBestBlock ops c = (h, c') \<and> cache_inv A I c' \<and> cache_abs A c' = cache_abs A c"
proof (cases "null_block (cv_hashBlock c)")
  case True
  obtain h v where "view_GetBestBlock ops (cv_base c) = (h, v)" "I v" "A v = A (cv_base c)"
    using best assms by (metis cache_inv_def)
  with True assms show ?thesis by (auto simp: GetBestBlock_def cache_defs)
qed (use assms in \<open>simp add: GetBestBlock_def\<close>)

lemma cache_flush:
  assumes "cache_inv A I c" "\<not> null_block (cv_hashBlock c)"
  shows "\<exists>c'. Flush ops c = Inr (True, c') \<and> cache_inv A I c' \<and> cache_abs A c' = cache_abs A c
    \<and> cv_hashBlock c' = cv_hashBlock c \<and> A (cv_base c') = cache_abs A c \<and> cacheCoins c' = []
    \<and> fst (view_GetBestBlock ops (cv_base c')) = cv_hashBlock c"
proof -
  have e: "entries_ok (A (cv_base c)) (cacheCoins c)" and i: "I (cv_base c)" using assms by (simp_all add: cache_inv_def)
  obtain v where v: "view_BatchWrite ops (cv_base c) (cacheCoins c) (cv_hashBlock c) = Inr (True, v)" "I v"
    "A v = map_abs (A (cv_base c)) (cacheCoins c)" "fst (view_GetBestBlock ops v) = cv_hashBlock c"
    using write_all [OF i entries_ok_batch [OF e] assms(2)] entries_ok_apply [OF e] by auto
  have "map_abs (A v) [] = A v" by (simp add: map_abs_def fun_eq_iff)
  with v show ?thesis by (simp add: Flush_def cache_defs)
qed

theorem cache_view: "coins_view (cache_ops ops) (cache_abs A) (cache_inv A I)"
proof
  fix c p coin assume "cache_inv A I c" "cache_abs A c p = Some coin"
  then show "\<not> IsSpent coin"
    using abs_unspent by (auto simp: cache_defs map_abs_def unspent_Some split: option.splits)
next
  fix c p assume "cache_inv A I c"
  from cache_get [OF this, of p]
  show "\<exists>c'. view_GetCoin (cache_ops ops) c p = (cache_abs A c p, c') \<and> cache_inv A I c' \<and> cache_abs A c' = cache_abs A c"
    by (auto simp: cache_ops_def)
next
  fix c assume "cache_inv A I c"
  from cache_best [OF this]
  show "\<exists>h c'. view_GetBestBlock (cache_ops ops) c = (h, c') \<and> cache_inv A I c' \<and> cache_abs A c' = cache_abs A c"
    by (simp add: cache_ops_def)
next
  fix c m h assume c: "cache_inv A I c" "batch_ok m (cache_abs A c)" and h: "\<not> null_block h"
  then have "I (cv_base c)" "entries_ok (A (cv_base c)) (cacheCoins c)" "batch_ok m (map_abs (A (cv_base c)) (cacheCoins c))"
    by (simp_all add: cache_defs)
  with write_loop_ok [OF this(2,3)] h
  show "\<exists>c'. view_BatchWrite (cache_ops ops) c m h = Inr (True, c') \<and> cache_inv A I c'
      \<and> cache_abs A c' = apply_batch m (cache_abs A c) \<and> fst (view_GetBestBlock (cache_ops ops) c') = h"
    by (auto simp: cache_ops_def BatchWrite_def GetBestBlock_def cache_defs)
qed

end

text \<open>The stack of the node: the tip's cache over the database, and a cache of a block being connected over that.\<close>

interpretation tip_view: coins_view "cache_ops (db_ops full)" "cache_abs db_coins" "cache_inv db_coins db_inv" for full
  by (rule db_view.cache_view)

interpretation block_view: coins_view "cache_ops (cache_ops (db_ops full))" "cache_abs (cache_abs db_coins)"
  "cache_inv (cache_abs db_coins) (cache_inv db_coins db_inv)" for full
  by (rule tip_view.cache_view)

section \<open>Sequences of operations\<close>

text \<open>The operations a client performs on a cache, their answers, and the same operations on a plain map with a best block.\<close>

datatype coin_op = Op_Get COutPoint | Op_Have COutPoint | Op_Add COutPoint Coin bool | Op_Spend COutPoint
  | Op_Uncache COutPoint | Op_SetBest uint256 | Op_Flush

datatype answer = Ans_coin "Coin option" | Ans_bool bool | Ans_unit

fun cache_exec :: "'b view_ops \<Rightarrow> coin_op \<Rightarrow> 'b CCoinsViewCache \<Rightarrow> coins_error + answer \<times> 'b CCoinsViewCache" where
  "cache_exec ops (Op_Get p) c = (case GetCoin ops c p of (r, c') \<Rightarrow> Inr (Ans_coin r, c'))"
| "cache_exec ops (Op_Have p) c = (case HaveCoin ops c p of (r, c') \<Rightarrow> Inr (Ans_bool r, c'))"
| "cache_exec ops (Op_Add p coin ow) c =
     (case AddCoin c p coin ow of Inl e \<Rightarrow> Inl e | Inr c' \<Rightarrow> Inr (Ans_unit, c'))"
| "cache_exec ops (Op_Spend p) c = (case SpendCoin ops c p of (r, c') \<Rightarrow> Inr (Ans_coin (Option.bind r unspent), c'))"
| "cache_exec ops (Op_Uncache p) c = Inr (Ans_unit, Uncache c p)"
| "cache_exec ops (Op_SetBest h) c = Inr (Ans_unit, SetBestBlock c h)"
| "cache_exec ops Op_Flush c = (case Flush ops c of Inl e \<Rightarrow> Inl e | Inr (r, c') \<Rightarrow> Inr (Ans_bool r, c'))"

fun cache_run :: "'b view_ops \<Rightarrow> coin_op list \<Rightarrow> 'b CCoinsViewCache \<Rightarrow> coins_error + answer list \<times> 'b CCoinsViewCache" where
  "cache_run ops [] c = Inr ([], c)"
| "cache_run ops (x # xs) c =
     (case cache_exec ops x c of
        Inl e \<Rightarrow> Inl e
      | Inr (r, c') \<Rightarrow> (case cache_run ops xs c' of Inl e \<Rightarrow> Inl e | Inr (rs, c'') \<Rightarrow> Inr (r # rs, c'')))"

type_synonym utxo = "COutPoint \<Rightarrow> Coin option"

fun utxo_exec :: "coin_op \<Rightarrow> utxo \<times> uint256 \<Rightarrow> (answer \<times> utxo \<times> uint256) option" where
  "utxo_exec (Op_Get p) (u, h) = Some (Ans_coin (u p), u, h)"
| "utxo_exec (Op_Have p) (u, h) = Some (Ans_bool (u p \<noteq> None), u, h)"
| "utxo_exec (Op_Add p coin ow) (u, h) =
     (if IsSpent coin then None
      else if IsUnspendable (scriptPubKey (coin_out coin)) then Some (Ans_unit, u, h)
      else if ow \<or> u p = None then Some (Ans_unit, u(p \<mapsto> coin), h) else None)"
| "utxo_exec (Op_Spend p) (u, h) = Some (Ans_coin (u p), u(p := None), h)"
| "utxo_exec (Op_Uncache p) (u, h) = Some (Ans_unit, u, h)"
| "utxo_exec (Op_SetBest h') (u, h) = Some (Ans_unit, u, h')"
| "utxo_exec Op_Flush (u, h) = (if null_block h then None else Some (Ans_bool True, u, h))"

fun utxo_run :: "coin_op list \<Rightarrow> utxo \<times> uint256 \<Rightarrow> (answer list \<times> utxo \<times> uint256) option" where
  "utxo_run [] s = Some ([], s)"
| "utxo_run (x # xs) s =
     (case utxo_exec x s of
        None \<Rightarrow> None
      | Some (r, s') \<Rightarrow> map_option (\<lambda>(rs, s''). (r # rs, s'')) (utxo_run xs s'))"

context coins_view
begin

lemma exec_refines:
  assumes "cache_inv A I c" "utxo_exec x (cache_abs A c, cv_hashBlock c) = Some (r, s)"
  shows "\<exists>c'. cache_exec ops x c = Inr (r, c') \<and> cache_inv A I c' \<and> (cache_abs A c', cv_hashBlock c') = s"
proof (cases x)
  case (Op_Get p)
  with cache_get [OF assms(1), of p] assms(2) show ?thesis by auto
next
  case (Op_Have p)
  with cache_have [OF assms(1), of p] assms(2) show ?thesis by auto
next
  case (Op_Add p coin ow)
  with AddCoin_ok [OF assms(1), of coin ow p] assms show ?thesis
    by (auto simp: AddCoin_def split: if_splits)
next
  case (Op_Spend p)
  with cache_spend [OF assms(1), of p] assms(2) show ?thesis by auto
next
  case (Op_Uncache p)
  with Uncache_ok [OF assms(1), of p] assms(2) show ?thesis by auto
next
  case (Op_SetBest h)
  with assms show ?thesis by (auto simp: SetBestBlock_ok)
next
  case Op_Flush
  with cache_flush [OF assms(1)] assms(2) show ?thesis by (auto split: if_splits)
qed

lemma run_refines:
  "cache_inv A I c \<Longrightarrow> utxo_run xs (cache_abs A c, cv_hashBlock c) = Some (rs, s) \<Longrightarrow>
    \<exists>c'. cache_run ops xs c = Inr (rs, c') \<and> cache_inv A I c' \<and> (cache_abs A c', cv_hashBlock c') = s"
proof (induction xs arbitrary: c rs)
  case (Cons x xs)
  from Cons.prems(2) obtain r s1 rs' where u: "utxo_exec x (cache_abs A c, cv_hashBlock c) = Some (r, s1)"
    "utxo_run xs s1 = Some (rs', s)" "rs = r # rs'"
    by (auto split: option.splits)
  obtain c1 where "cache_exec ops x c = Inr (r, c1)" "cache_inv A I c1" "(cache_abs A c1, cv_hashBlock c1) = s1"
    using exec_refines [OF Cons.prems(1) u(1)] by blast
  with Cons.IH [of c1 rs'] u show ?case by auto
qed simp

end


definition empty_db :: CCoinsViewDB where
  "empty_db = \<lparr>db_coins = \<lambda>_. None, db_best = None, db_heads = None\<rparr>"

definition example_point :: COutPoint where
  "example_point = \<lparr>op_hash = 7 # replicate 31 0, op_n = 0\<rparr>"

definition example_coin :: Coin where
  "example_coin = make_Coin \<lparr>nValue = 5, scriptPubKey = [OP_1]\<rparr> 7 False"

definition example_ops :: "coin_op list" where
  "example_ops = [Op_SetBest (9 # replicate 31 0), Op_Add example_point example_coin False, Op_Get example_point, Op_Flush,
     Op_Spend example_point, Op_Have example_point, Op_Flush]"

lemma example_coin_ok: "\<not> IsSpent example_coin" "\<not> IsUnspendable (scriptPubKey (coin_out example_coin))"
  by (simp_all add: example_coin_def make_Coin_def IsSpent_def CTxOut_IsNull_def IsUnspendable_def MAX_SCRIPT_SIZE_def opcodes)

lemma empty_db_inv: "db_inv empty_db"
  by (simp add: db_inv_def empty_db_def)

lemma example_run:
  "\<exists>u h. utxo_run example_ops (db_coins empty_db, null_hash) = Some ([Ans_unit, Ans_unit, Ans_coin (Some example_coin), Ans_bool True,
     Ans_coin (Some example_coin), Ans_bool False, Ans_bool True], u, h)"
  using example_coin_ok by (simp add: example_ops_def empty_db_def)




section \<open>Interrupted writes\<close>

lemma batches_loop_take:
  "0 < n \<Longrightarrow> n < length (batches_loop full m batch) \<Longrightarrow>
    \<exists>k. concat (take n (batches_loop full m batch)) = batch @ concat (map (\<lambda>(p, e). batch_entry p e) (take k m))"
proof (induction full m batch arbitrary: n rule: batches_loop.induct)
  case (2 full p e m batch)
  let ?b = "batch @ batch_entry p e"
  show ?case
  proof (cases "full ?b")
    case True
    show ?thesis
    proof (cases "n = 1")
      case True
      with \<open>full ?b\<close> show ?thesis by (intro exI [of _ 1]) simp
    next
      case False
      with 2 True obtain k where "concat (take (n - 1) (batches_loop full m [])) = concat (map (\<lambda>(p, e). batch_entry p e) (take k m))"
        by (force simp: Let_def)
      with True False 2(3) show ?thesis by (intro exI [of _ "Suc k"]) (cases n, simp_all)
    qed
  next
    case False
    with 2 obtain k where "concat (take n (batches_loop full m ?b)) = ?b @ concat (map (\<lambda>(p, e). batch_entry p e) (take k m))"
      by force
    with False show ?thesis by (intro exI [of _ "Suc k"]) simp
  qed
qed simp

lemma map_of_take: "distinct (map fst m) \<Longrightarrow> map_of (take k m) p = Some e \<Longrightarrow> map_of m p = Some e"
  by (metis distinct_take in_set_takeD map_of_SomeD map_of_is_SomeI take_map)

lemma apply_batch_prefix:
  assumes "distinct (map fst m)"
  shows "apply_batch m (apply_batch (take k m) a) = apply_batch m a"
    and "apply_batch (take k m) a p \<in> {a p, apply_batch m a p}"
proof -
  show "apply_batch (take k m) a p \<in> {a p, apply_batch m a p}" for p
    using map_of_take [OF assms, of k p] by (auto simp: apply_batch_def split: option.splits)
  show "apply_batch m (apply_batch (take k m) a) = apply_batch m a"
  proof
    fix p show "apply_batch m (apply_batch (take k m) a) p = apply_batch m a p"
      using map_of_take [OF assms, of k p] by (auto simp: apply_batch_def split: option.splits)
  qed
qed

lemma interrupted_write:
  assumes "distinct (map fst m)" "0 < n" "n < length (db_batches full m h tip)"
  shows "\<exists>k. fold WriteBatch (take n (db_batches full m h tip)) d =
    \<lparr>db_coins = apply_batch (take k m) (db_coins d), db_best = None, db_heads = Some [h, tip]\<rparr>"
proof -
  let ?bs = "batches_loop full m [Erase_best, Write_heads [h, tip]]"
  have n: "n < length ?bs" using assms(3) by (simp add: db_batches_def Let_def)
  then have "take n (db_batches full m h tip) = take n ?bs"
    by (simp add: db_batches_def Let_def take_butlast)
  with batches_loop_take [OF assms(2) n] obtain k
    where k: "concat (take n (db_batches full m h tip)) =
      [Erase_best, Write_heads [h, tip]] @ concat (map (\<lambda>(p, e). batch_entry p e) (take k m))" by auto
  have "distinct (map fst (take k m))" using assms(1) by (metis distinct_take take_map)
  then show ?thesis
    by (intro exI [of _ k]) (simp add: fold_WriteBatch k WriteBatch_Cons WriteBatch_entries)
qed

text \<open>
  C7: A write of the coins database that is interrupted after any number of its batches, but before the last, leaves a
  database that has no best block and names the transition in its head blocks, in which every outpoint has its value
  from before or from after; and writing the same changes again, however they are cut into batches, succeeds and ends
  in the very database that the uninterrupted write gives.
\<close>

theorem DB_BatchWrite_crash:
  assumes "db_inv d" "distinct (map fst m)" "\<not> null_block h"
    and "tip = fst (DB_GetBestBlock d)" "0 < n" "n < length (db_batches full m h tip)"
    and "d' = fold WriteBatch (take n (db_batches full m h tip)) d"
  shows "null_block (fst (DB_GetBestBlock d')) \<and> DB_GetHeadBlocks d' = [h, tip]
    \<and> (\<forall>p. db_coins d' p = db_coins d p \<or> db_coins d' p = apply_batch m (db_coins d) p)
    \<and> DB_BatchWrite full' d' m h = DB_BatchWrite full d m h"
proof (intro conjI allI)
  obtain k where d': "d' = \<lparr>db_coins = apply_batch (take k m) (db_coins d), db_best = None, db_heads = Some [h, tip]\<rparr>"
    using interrupted_write [OF assms(2,5,6), of d] assms(7) by blast
  show "null_block (fst (DB_GetBestBlock d'))" "DB_GetHeadBlocks d' = [h, tip]"
    by (simp_all add: d' DB_GetBestBlock_def DB_GetHeadBlocks_def null_hash_def list_all_iff)
  show "db_coins d' p = db_coins d p \<or> db_coins d' p = apply_batch m (db_coins d) p" for p
    using apply_batch_prefix(2) [OF assms(2), of k "db_coins d" p] by (simp add: d')
  have "old_tip d' h = Some tip"
    by (simp add: old_tip_def d' DB_GetBestBlock_def DB_GetHeadBlocks_def null_hash_def Let_def list_all_iff)
  then show "DB_BatchWrite full' d' m h = DB_BatchWrite full d m h"
    unfolding DB_BatchWrite_ok [OF assms(1-3), of full] using assms(3)
    by (simp add: DB_BatchWrite_def fold_WriteBatch concat_db_batches WriteBatch_append WriteBatch_entries
        WriteBatch_Cons assms(2) apply_batch_prefix(1) d')
qed

theorem DB_BatchWrite_crash_witness:
  "DB_BatchWrite (\<lambda>_. False)
     (fold WriteBatch (take 1 (db_batches (\<lambda>_. True) [(example_point, \<lparr>entry_coin = example_coin, entry_flags = DIRTY\<rparr>)] (replicate 32 9)
       (fst (DB_GetBestBlock empty_db)))) empty_db) [(example_point, \<lparr>entry_coin = example_coin, entry_flags = DIRTY\<rparr>)] (replicate 32 9) =
   DB_BatchWrite (\<lambda>_. True) empty_db [(example_point, \<lparr>entry_coin = example_coin, entry_flags = DIRTY\<rparr>)] (replicate 32 9)"
  using DB_BatchWrite_crash [OF empty_db_inv _ _ refl _ _ refl, of "[(example_point, \<lparr>entry_coin = example_coin, entry_flags = DIRTY\<rparr>)]"
    "replicate 32 9" 1 "\<lambda>_. True" "\<lambda>_. False"]
  by (simp add: db_batches_def Let_def list_all_iff)

end
