(* ===== verification/TxVerify.thy ===== *)
theory TxVerify
  imports SigHash Coins BlockIndex
begin

text \<open>
  The checks of a transaction: \<^verbatim>\<open>consensus/tx_check.cpp\<close> without context, \<^verbatim>\<open>consensus/tx_verify.cpp\<close> against the coins
  and the block index, with the limits of \<^verbatim>\<open>consensus/consensus.h\<close>.  A rejection carries its reason and its text; a failing
  assertion, an exception and a null pointer are errors of their own.
\<close>

unbundle bit_operations_syntax

section \<open>Limits\<close>

definition MAX_LEGACY_BLOCK_SIZE :: nat where "MAX_LEGACY_BLOCK_SIZE = 1000000"
definition MAX_DIP0001_BLOCK_SIZE :: nat where "MAX_DIP0001_BLOCK_SIZE = 2000000"

definition MaxBlockSize :: "bool \<Rightarrow> nat" where
  "MaxBlockSize fDIP0001Active = (if fDIP0001Active then MAX_DIP0001_BLOCK_SIZE else MAX_LEGACY_BLOCK_SIZE)"

definition MaxBlockSigOps :: "bool \<Rightarrow> nat" where
  "MaxBlockSigOps fDIP0001Active = MaxBlockSize fDIP0001Active div 50"

definition MAX_TX_EXTRA_PAYLOAD :: nat where "MAX_TX_EXTRA_PAYLOAD = 10000"
definition COINBASE_MATURITY :: int where "COINBASE_MATURITY = 100"
definition LOCKTIME_VERIFY_SEQUENCE :: u32 where "LOCKTIME_VERIFY_SEQUENCE = push_bit 0 1"

section \<open>Outcomes\<close>

datatype ValidationInvalidReason = NONE | CONSENSUS | RECENT_CONSENSUS_CHANGE | CACHED_INVALID | BLOCK_INVALID_HEADER
  | BLOCK_MUTATED | BLOCK_MISSING_PREV | BLOCK_INVALID_PREV | BLOCK_TIME_FUTURE | BLOCK_CHECKPOINT | BLOCK_CHAINLOCK
  | TX_NOT_STANDARD | TX_MISSING_INPUTS | TX_PREMATURE_SPEND | TX_BAD_SPECIAL | TX_CONFLICT | TX_CONFLICT_LOCK
  | TX_MEMPOOL_POLICY

datatype tx_error = Invalid ValidationInvalidReason string | assertion_failed | value_out_of_range | null_pointer

definition IsBlockReason :: "ValidationInvalidReason \<Rightarrow> bool" where
  "IsBlockReason r \<longleftrightarrow> r = NONE \<or> r = CONSENSUS \<or> r = RECENT_CONSENSUS_CHANGE \<or> r = CACHED_INVALID
     \<or> r = BLOCK_INVALID_HEADER \<or> r = BLOCK_MUTATED \<or> r = BLOCK_MISSING_PREV \<or> r = BLOCK_INVALID_PREV
     \<or> r = BLOCK_TIME_FUTURE \<or> r = BLOCK_CHECKPOINT \<or> r = BLOCK_CHAINLOCK"

definition IsTransactionReason :: "ValidationInvalidReason \<Rightarrow> bool" where
  "IsTransactionReason r \<longleftrightarrow> r = NONE \<or> r = CONSENSUS \<or> r = RECENT_CONSENSUS_CHANGE \<or> r = TX_NOT_STANDARD
     \<or> r = TX_PREMATURE_SPEND \<or> r = TX_MISSING_INPUTS \<or> r = TX_BAD_SPECIAL \<or> r = TX_CONFLICT
     \<or> r = TX_CONFLICT_LOCK \<or> r = TX_MEMPOOL_POLICY"

section \<open>Checks without context\<close>

fun check_outputs :: "CTxOut list \<Rightarrow> CAmount \<Rightarrow> tx_error + unit" where
  "check_outputs [] nValueOut = Inr ()"
| "check_outputs (txout # vout) nValueOut =
     (if nValue txout < 0 then Inl (Invalid CONSENSUS ''bad-txns-vout-negative'')
      else if nValue txout > MAX_MONEY then Inl (Invalid CONSENSUS ''bad-txns-vout-toolarge'')
      else if \<not> MoneyRange (nValueOut + nValue txout) then Inl (Invalid CONSENSUS ''bad-txns-txouttotal-toolarge'')
      else check_outputs vout (nValueOut + nValue txout))"

fun check_duplicates :: "CTxIn list \<Rightarrow> COutPoint list \<Rightarrow> tx_error + unit" where
  "check_duplicates [] vInOutPoints = Inr ()"
| "check_duplicates (txin # vin) vInOutPoints =
     (if prevout txin \<in> set vInOutPoints then Inl (Invalid CONSENSUS ''bad-txns-inputs-duplicate'')
      else check_duplicates vin (prevout txin # vInOutPoints))"

definition check_coinbase :: "CTransaction \<Rightarrow> tx_error + unit" where
  "check_coinbase tx =
     (if IsCoinBase tx
      then let minCbSize = (if tx_nType tx = TRANSACTION_COINBASE then 1 else 2);
               n = length (scriptSig (tx_vin tx ! 0))
           in if n < minCbSize \<or> n > 100 then Inl (Invalid CONSENSUS ''bad-cb-length'') else Inr ()
      else if list_ex (\<lambda>txin. COutPoint_IsNull (prevout txin)) (tx_vin tx)
           then Inl (Invalid CONSENSUS ''bad-txns-prevout-null'') else Inr ())"

definition CheckTransaction :: "CTransaction \<Rightarrow> tx_error + unit" where
  "CheckTransaction tx =
     (let allowEmptyTxInOut = (tx_nType tx = TRANSACTION_QUORUM_COMMITMENT)
      in if \<not> allowEmptyTxInOut \<and> tx_vin tx = [] then Inl (Invalid CONSENSUS ''bad-txns-vin-empty'')
         else if \<not> allowEmptyTxInOut \<and> tx_vout tx = [] then Inl (Invalid CONSENSUS ''bad-txns-vout-empty'')
         else if GetTotalSize tx > MAX_LEGACY_BLOCK_SIZE then Inl (Invalid CONSENSUS ''bad-txns-oversize'')
         else if length (tx_vExtraPayload tx) > MAX_TX_EXTRA_PAYLOAD then Inl (Invalid CONSENSUS ''bad-txns-payload-oversize'')
         else case check_outputs (tx_vout tx) 0 of
                Inl e \<Rightarrow> Inl e
              | Inr _ \<Rightarrow>
                  (case check_duplicates (tx_vin tx) [] of
                     Inl e \<Rightarrow> Inl e
                   | Inr _ \<Rightarrow> check_coinbase tx))"

section \<open>Lock times\<close>

definition IsFinalTx :: "CTransaction \<Rightarrow> int \<Rightarrow> int \<Rightarrow> bool" where
  "IsFinalTx tx nBlockHeight nBlockTime =
     (if tx_nLockTime tx = 0 then True
      else if uint (tx_nLockTime tx) < (if uint (tx_nLockTime tx) < uint LOCKTIME_THRESHOLD then nBlockHeight else nBlockTime)
           then True
      else list_all (\<lambda>txin. in_nSequence txin = SEQUENCE_FINAL) (tx_vin tx))"

text \<open>The inputs one by one, with the heights of their coins; \<open>None\<close> is a null pointer.\<close>

fun sequence_locks_loop :: "index_store \<Rightarrow> ptr \<Rightarrow> CTxIn list \<Rightarrow> int list \<Rightarrow> int \<Rightarrow> int \<Rightarrow> ((int \<times> int) \<times> int list) option" where
  "sequence_locks_loop st block (txin # vin) (nCoinHeight # prevHeights) nMinHeight nMinTime =
     (if in_nSequence txin AND word_of_int SEQUENCE_LOCKTIME_DISABLE_FLAG \<noteq> 0
      then map_option (apsnd ((#) 0)) (sequence_locks_loop st block vin prevHeights nMinHeight nMinTime)
      else map_option (apsnd ((#) nCoinHeight))
        (if in_nSequence txin AND SEQUENCE_LOCKTIME_TYPE_FLAG \<noteq> 0
         then case GetAncestor st block (max (nCoinHeight - 1) 0) of
                Some (Some a) \<Rightarrow>
                  (case GetMedianTimePast st a of
                     None \<Rightarrow> None
                   | Some nCoinTime \<Rightarrow>
                       sequence_locks_loop st block vin prevHeights nMinHeight
                         (max nMinTime (nCoinTime + uint (push_bit SEQUENCE_LOCKTIME_GRANULARITY (in_nSequence txin AND SEQUENCE_LOCKTIME_MASK)) - 1)))
              | _ \<Rightarrow> None
         else sequence_locks_loop st block vin prevHeights
                (max nMinHeight (nCoinHeight + uint (in_nSequence txin AND SEQUENCE_LOCKTIME_MASK) - 1)) nMinTime))"
| "sequence_locks_loop st block vin prevHeights nMinHeight nMinTime = Some ((nMinHeight, nMinTime), prevHeights)"

definition CalculateSequenceLocks :: "index_store \<Rightarrow> CTransaction \<Rightarrow> u32 \<Rightarrow> int list \<Rightarrow> ptr \<Rightarrow> ((int \<times> int) \<times> int list) option" where
  "CalculateSequenceLocks st tx flags prevHeights block =
     (if length prevHeights \<noteq> length (tx_vin tx) then None
      else let fEnforceBIP68 = ((scast (tx_nVersion tx) :: u32) \<ge> 2 \<and> flags AND LOCKTIME_VERIFY_SEQUENCE \<noteq> 0)
           in if \<not> fEnforceBIP68 then Some ((- 1, - 1), prevHeights)
              else sequence_locks_loop st block (tx_vin tx) prevHeights (- 1) (- 1))"

definition EvaluateSequenceLocks :: "index_store \<Rightarrow> ptr \<Rightarrow> int \<times> int \<Rightarrow> bool option" where
  "EvaluateSequenceLocks st block lockPair =
     (case st block of
        None \<Rightarrow> None
      | Some b \<Rightarrow>
          (case pprev b of
             None \<Rightarrow> None
           | Some q \<Rightarrow>
               (case GetMedianTimePast st q of
                  None \<Rightarrow> None
                | Some nBlockTime \<Rightarrow> Some (\<not> (fst lockPair \<ge> nHeight b \<or> snd lockPair \<ge> nBlockTime)))))"

definition SequenceLocks :: "index_store \<Rightarrow> CTransaction \<Rightarrow> u32 \<Rightarrow> int list \<Rightarrow> ptr \<Rightarrow> bool option" where
  "SequenceLocks st tx flags prevHeights block =
     (case CalculateSequenceLocks st tx flags prevHeights block of
        None \<Rightarrow> None
      | Some (lockPair, _) \<Rightarrow> EvaluateSequenceLocks st block lockPair)"

section \<open>Signature operations\<close>

definition GetLegacySigOpCount :: "CTransaction \<Rightarrow> u32" where
  "GetLegacySigOpCount tx =
     fold (\<lambda>txout nSigOps. nSigOps + word_of_int (GetSigOpCount (scriptPubKey txout) False)) (tx_vout tx)
       (fold (\<lambda>txin nSigOps. nSigOps + word_of_int (GetSigOpCount (scriptSig txin) False)) (tx_vin tx) 0)"

fun p2sh_sigops_loop :: "'b view_ops \<Rightarrow> CTxIn list \<Rightarrow> 'b CCoinsViewCache \<Rightarrow> u32 \<Rightarrow> (tx_error + u32) \<times> 'b CCoinsViewCache" where
  "p2sh_sigops_loop ops [] inputs nSigOps = (Inr nSigOps, inputs)"
| "p2sh_sigops_loop ops (txin # vin) inputs nSigOps =
     (case AccessCoin ops inputs (prevout txin) of (coin, inputs') \<Rightarrow>
        if IsSpent coin then (Inl assertion_failed, inputs')
        else let spk = scriptPubKey (coin_out coin)
             in p2sh_sigops_loop ops vin inputs'
                  (if IsPayToScriptHash spk then nSigOps + word_of_int (GetSigOpCountP2SH spk (scriptSig txin)) else nSigOps))"

definition GetP2SHSigOpCount :: "'b view_ops \<Rightarrow> CTransaction \<Rightarrow> 'b CCoinsViewCache \<Rightarrow> (tx_error + u32) \<times> 'b CCoinsViewCache" where
  "GetP2SHSigOpCount ops tx inputs =
     (if IsCoinBase tx then (Inr 0, inputs) else p2sh_sigops_loop ops (tx_vin tx) inputs 0)"

definition GetTransactionSigOpCount :: "'b view_ops \<Rightarrow> CTransaction \<Rightarrow> 'b CCoinsViewCache \<Rightarrow> u32 \<Rightarrow> (tx_error + u32) \<times> 'b CCoinsViewCache" where
  "GetTransactionSigOpCount ops tx inputs flags =
     (let nSigOps = GetLegacySigOpCount tx
      in if IsCoinBase tx then (Inr nSigOps, inputs)
         else if flags AND SCRIPT_VERIFY_P2SH \<noteq> 0
              then case GetP2SHSigOpCount ops tx inputs of
                     (Inl e, inputs') \<Rightarrow> (Inl e, inputs')
                   | (Inr n, inputs') \<Rightarrow> (Inr (nSigOps + n), inputs')
              else (Inr nSigOps, inputs))"

section \<open>Inputs\<close>

fun tx_inputs_loop :: "'b view_ops \<Rightarrow> int \<Rightarrow> CTxIn list \<Rightarrow> 'b CCoinsViewCache \<Rightarrow> CAmount \<Rightarrow> (tx_error + CAmount) \<times> 'b CCoinsViewCache" where
  "tx_inputs_loop ops nSpendHeight [] inputs nValueIn = (Inr nValueIn, inputs)"
| "tx_inputs_loop ops nSpendHeight (txin # vin) inputs nValueIn =
     (case AccessCoin ops inputs (prevout txin) of (coin, inputs') \<Rightarrow>
        if IsSpent coin then (Inl assertion_failed, inputs')
        else if fCoinBase coin \<and> nSpendHeight - int (coin_nHeight coin) < COINBASE_MATURITY
             then (Inl (Invalid TX_PREMATURE_SPEND ''bad-txns-premature-spend-of-coinbase''), inputs')
        else let nValueIn' = nValueIn + nValue (coin_out coin)
             in if \<not> MoneyRange (nValue (coin_out coin)) \<or> \<not> MoneyRange nValueIn'
                then (Inl (Invalid CONSENSUS ''bad-txns-inputvalues-outofrange''), inputs')
                else tx_inputs_loop ops nSpendHeight vin inputs' nValueIn')"

text \<open>The fee of an accepted transaction.\<close>

definition CheckTxInputs :: "'b view_ops \<Rightarrow> CTransaction \<Rightarrow> 'b CCoinsViewCache \<Rightarrow> int \<Rightarrow> (tx_error + CAmount) \<times> 'b CCoinsViewCache" where
  "CheckTxInputs ops tx inputs nSpendHeight =
     (case HaveInputs ops inputs tx of (have, inputs1) \<Rightarrow>
        if \<not> have then (Inl (Invalid TX_MISSING_INPUTS ''bad-txns-inputs-missingorspent''), inputs1)
        else case tx_inputs_loop ops nSpendHeight (tx_vin tx) inputs1 0 of
               (Inl e, inputs2) \<Rightarrow> (Inl e, inputs2)
             | (Inr nValueIn, inputs2) \<Rightarrow>
                 (case GetValueOut tx of
                    None \<Rightarrow> (Inl value_out_of_range, inputs2)
                  | Some value_out \<Rightarrow>
                      if nValueIn < value_out then (Inl (Invalid CONSENSUS ''bad-txns-in-belowout''), inputs2)
                      else let txfee = nValueIn - value_out
                           in if \<not> MoneyRange txfee then (Inl (Invalid CONSENSUS ''bad-txns-fee-outofrange''), inputs2)
                              else (Inr txfee, inputs2)))"

section \<open>What the context-free check accepts\<close>

lemma check_outputs_iff:
  "MoneyRange v \<Longrightarrow> check_outputs vout v = Inr () \<longleftrightarrow>
    (\<forall>o1 \<in> set vout. MoneyRange (nValue o1)) \<and> MoneyRange (v + sum_list (map nValue vout))"
proof (induction vout arbitrary: v)
  case (Cons a vout)
  have s: "0 \<le> sum_list (map nValue vout)" if "\<forall>o1 \<in> set vout. MoneyRange (nValue o1)"
    using that by (intro sum_list_nonneg) (auto simp: MoneyRange_def)
  show ?case using Cons.IH [of "v + nValue a"] Cons.prems s
    by (auto simp: MoneyRange_def add.assoc)
qed simp

lemma check_duplicates_iff:
  "check_duplicates vin seen = Inr () \<longleftrightarrow> distinct (map prevout vin) \<and> set (map prevout vin) \<inter> set seen = {}"
  by (induction vin arbitrary: seen) auto

lemma MoneyRange_0 [simp]: "MoneyRange 0"
  by (simp add: MoneyRange_def MAX_MONEY_def COIN_def)

text \<open>
  C3: \<open>CheckTransaction\<close> accepts exactly the transactions that have inputs and outputs (unless they are quorum
  commitments), fit the size limits, have every output value and their total in the money range, spend no outpoint
  twice, and have either a coinbase script of the right length or no null input.
\<close>

theorem CheckTransaction_iff:
  "CheckTransaction tx = Inr () \<longleftrightarrow>
     (tx_nType tx = TRANSACTION_QUORUM_COMMITMENT \<or> tx_vin tx \<noteq> [] \<and> tx_vout tx \<noteq> [])
     \<and> length (Serialize_CTransaction tx) \<le> MAX_LEGACY_BLOCK_SIZE \<and> length (tx_vExtraPayload tx) \<le> MAX_TX_EXTRA_PAYLOAD
     \<and> (\<forall>o1 \<in> set (tx_vout tx). MoneyRange (nValue o1)) \<and> MoneyRange (sum_list (map nValue (tx_vout tx)))
     \<and> distinct (map prevout (tx_vin tx))
     \<and> (if IsCoinBase tx
         then length (scriptSig (hd (tx_vin tx))) \<in> {(if tx_nType tx = TRANSACTION_COINBASE then 1 else 2)..100}
         else \<forall>i \<in> set (tx_vin tx). \<not> COutPoint_IsNull (prevout i))"
proof -
  have h: "IsCoinBase tx \<Longrightarrow> hd (tx_vin tx) = tx_vin tx ! 0" by (cases "tx_vin tx") (auto simp: IsCoinBase_def)
  have c: "check_coinbase tx = Inr () \<longleftrightarrow> (if IsCoinBase tx
         then length (scriptSig (hd (tx_vin tx))) \<in> {(if tx_nType tx = TRANSACTION_COINBASE then 1 else 2)..100}
         else \<forall>i \<in> set (tx_vin tx). \<not> COutPoint_IsNull (prevout i))"
    by (auto simp: check_coinbase_def Let_def list_ex_iff h)
  show ?thesis
    unfolding c [symmetric]
    using check_outputs_iff [of 0 "tx_vout tx"] check_duplicates_iff [of "tx_vin tx" "[]"]
    by (auto simp: CheckTransaction_def GetTotalSize_def Let_def split: sum.splits)
qed

section \<open>Absolute lock times\<close>

text \<open>
  C33: An absolute lock time that a script demands is enforced: if \<open>OP_CHECKLOCKTIMEVERIFY\<close> accepts the number on some
  input of a transaction and the transaction is final for a block, then the block's height, or its time if the number
  is a time, is above the number.
\<close>

theorem CheckLockTime_enforced:
  assumes "i < length (tx_vin tx)" "checker_CheckLockTime tx i n" "IsFinalTx tx nBlockHeight nBlockTime" "0 < n"
  shows "n < (if n < uint LOCKTIME_THRESHOLD then nBlockHeight else nBlockTime)"
proof -
  from assms(2) have n: "n \<le> uint (tx_nLockTime tx)" "n < uint LOCKTIME_THRESHOLD \<longleftrightarrow> uint (tx_nLockTime tx) < uint LOCKTIME_THRESHOLD"
    and s: "in_nSequence (tx_vin tx ! i) \<noteq> SEQUENCE_FINAL"
    by (auto simp: checker_CheckLockTime_def word_less_def word_le_def split: if_splits)
  have "tx_nLockTime tx \<noteq> 0" using n(1) assms(4) by auto
  moreover have "\<not> list_all (\<lambda>txin. in_nSequence txin = SEQUENCE_FINAL) (tx_vin tx)"
    using s assms(1) by (auto simp: list_all_length)
  ultimately show ?thesis using assms(3) n by (auto simp: IsFinalTx_def split: if_splits)
qed

definition locked_tx :: CTransaction where
  "locked_tx = \<lparr>tx_vin = [\<lparr>prevout = example_point, scriptSig = [], in_nSequence = 5\<rparr>], tx_vout = [], tx_nVersion = 2,
     tx_nType = 0, tx_nLockTime = 7, tx_vExtraPayload = []\<rparr>"

theorem CheckLockTime_enforced_witness: "(6::int) < (if 6 < uint LOCKTIME_THRESHOLD then 8 else 0)"
  by (rule CheckLockTime_enforced [of 0 locked_tx])
     (simp_all add: locked_tx_def checker_CheckLockTime_def IsFinalTx_def SEQUENCE_FINAL_def LOCKTIME_THRESHOLD_def)

section \<open>Relative lock times\<close>

definition relative_lock :: "int \<Rightarrow> int" where
  "relative_lock s = s AND 0xffff"

lemma relative_lock_mod: "relative_lock s = s mod 2 ^ 16"
proof -
  have "(0xffff :: int) = mask 16" by (simp add: mask_eq_exp_minus_1)
  then have "relative_lock s = take_bit 16 s" by (simp only: relative_lock_def take_bit_eq_mask)
  then show ?thesis by (simp add: take_bit_eq_mod)
qed

lemma sequence_parts:
  fixes s :: int
  shows "s AND uint (SEQUENCE_LOCKTIME_TYPE_FLAG OR SEQUENCE_LOCKTIME_MASK) = (if bit s 22 then 2 ^ 22 else 0) + relative_lock s"
proof -
  have b: "s AND 2 ^ 22 = (if bit s 22 then 2 ^ 22 else 0)"
    by (rule bit_eqI) (auto simp only: bit_and_iff bit_exp_iff split: if_splits, simp_all)
  have "s AND (2 ^ 22 OR 0xffff) = (s AND 2 ^ 22) OR relative_lock s"
    by (simp only: bit.conj_disj_distrib relative_lock_def)
  moreover have "(s AND 2 ^ 22) AND relative_lock s = 0"
  proof -
    have "s AND 2 ^ 22 AND (s AND 0xffff) = s AND s AND (2 ^ 22 AND 0xffff)" by (simp only: and.assoc and.left_commute)
    then show ?thesis by (simp add: relative_lock_def and.assoc)
  qed
  ultimately have "s AND (2 ^ 22 OR 0xffff) = (s AND 2 ^ 22) + relative_lock s" by (simp add: disjunctive_add_eq_or)
  then show ?thesis using b
    by (simp add: SEQUENCE_LOCKTIME_TYPE_FLAG_def SEQUENCE_LOCKTIME_MASK_def uint_or push_bit_eq_mult)
qed

lemma uint_type_flag: "uint SEQUENCE_LOCKTIME_TYPE_FLAG = 2 ^ 22"
  by (simp add: SEQUENCE_LOCKTIME_TYPE_FLAG_def push_bit_eq_mult)

lemma relative_lock_bounds: "0 \<le> relative_lock s" "relative_lock s < 2 ^ 16"
  by (simp_all add: relative_lock_mod)

lemma word_sequence:
  fixes w :: u32
  shows "uint (w AND SEQUENCE_LOCKTIME_MASK) = relative_lock (uint w)"
    and "w AND SEQUENCE_LOCKTIME_TYPE_FLAG \<noteq> 0 \<longleftrightarrow> bit (uint w) 22"
    and "w AND word_of_int SEQUENCE_LOCKTIME_DISABLE_FLAG \<noteq> 0 \<longleftrightarrow> uint w AND SEQUENCE_LOCKTIME_DISABLE_FLAG \<noteq> 0"
    and "uint (push_bit SEQUENCE_LOCKTIME_GRANULARITY (w AND SEQUENCE_LOCKTIME_MASK)) = 512 * relative_lock (uint w)"
proof -
  show m: "uint (w AND SEQUENCE_LOCKTIME_MASK) = relative_lock (uint w)"
    by (simp add: relative_lock_def uint_and SEQUENCE_LOCKTIME_MASK_def)
  show "w AND SEQUENCE_LOCKTIME_TYPE_FLAG \<noteq> 0 \<longleftrightarrow> bit (uint w) 22"
    using and_exp_eq_0_iff_not_bit [of w 22]
    by (simp add: SEQUENCE_LOCKTIME_TYPE_FLAG_def push_bit_eq_mult bit_uint_iff)
  show "w AND word_of_int SEQUENCE_LOCKTIME_DISABLE_FLAG \<noteq> 0 \<longleftrightarrow> uint w AND SEQUENCE_LOCKTIME_DISABLE_FLAG \<noteq> 0"
    by (simp add: SEQUENCE_LOCKTIME_DISABLE_FLAG_def word_uint_eq_iff uint_and)
  show "uint (push_bit SEQUENCE_LOCKTIME_GRANULARITY (w AND SEQUENCE_LOCKTIME_MASK)) = 512 * relative_lock (uint w)"
    using relative_lock_bounds [of "uint w"]
    by (simp add: SEQUENCE_LOCKTIME_GRANULARITY_def push_bit_eq_mult uint_word_ariths(3) m)
qed

text \<open>What the pair of minimal height and time has to cover for one input.\<close>

definition lock_covered :: "index_store \<Rightarrow> ptr \<Rightarrow> int \<Rightarrow> int \<Rightarrow> CTxIn \<Rightarrow> int \<Rightarrow> bool" where
  "lock_covered st block mh mt txin h \<longleftrightarrow>
     (let s = uint (in_nSequence txin)
      in s AND SEQUENCE_LOCKTIME_DISABLE_FLAG \<noteq> 0
         \<or> (if bit s 22
             then \<exists>a t. GetAncestor st block (max (h - 1) 0) = Some (Some a) \<and> GetMedianTimePast st a = Some t
                    \<and> t + 512 * relative_lock s - 1 \<le> mt
             else h + relative_lock s - 1 \<le> mh))"

lemma sequence_locks_loop_covers:
  assumes "sequence_locks_loop st block vin hs mh mt = Some ((mh', mt'), hs')" "length vin = length hs"
  shows "mh \<le> mh' \<and> mt \<le> mt' \<and> list_all2 (lock_covered st block mh' mt') vin hs"
  using assms
proof (induction st block vin hs mh mt arbitrary: hs' rule: sequence_locks_loop.induct)
  case (1 st block txin vin h hs mh mt)
  note w = word_sequence [of "in_nSequence txin"]
  note d = 1(4) [unfolded sequence_locks_loop.simps w]
  let ?s = "uint (in_nSequence txin)"
  consider (disabled) "?s AND SEQUENCE_LOCKTIME_DISABLE_FLAG \<noteq> 0"
    | (time) "?s AND SEQUENCE_LOCKTIME_DISABLE_FLAG = 0" "bit ?s 22"
    | (height) "?s AND SEQUENCE_LOCKTIME_DISABLE_FLAG = 0" "\<not> bit ?s 22" by blast
  then show ?case
  proof cases
    case disabled
    then have "lock_covered st block mh' mt' txin h" by (simp add: lock_covered_def)
    with 1(1) d 1(5) w(3) disabled show ?thesis by auto
  next
    case time
    with d obtain a t hs1 where a: "GetAncestor st block (max (h - 1) 0) = Some (Some a)" "GetMedianTimePast st a = Some t"
      "sequence_locks_loop st block vin hs mh (max mt (t + 512 * relative_lock ?s - 1)) = Some ((mh', mt'), hs1)"
      by (auto split: option.splits)
    then have "mh \<le> mh' \<and> max mt (t + 512 * relative_lock ?s - 1) \<le> mt' \<and> list_all2 (lock_covered st block mh' mt') vin hs"
      using 1(2) [of "Some a" a t hs1] time w 1(5) by simp
    moreover from this a time have "lock_covered st block mh' mt' txin h" by (auto simp: lock_covered_def)
    ultimately show ?thesis by simp
  next
    case height
    with d obtain hs1 where "sequence_locks_loop st block vin hs (max mh (h + relative_lock ?s - 1)) mt = Some ((mh', mt'), hs1)"
      by auto
    then have "max mh (h + relative_lock ?s - 1) \<le> mh' \<and> mt \<le> mt' \<and> list_all2 (lock_covered st block mh' mt') vin hs"
      using 1(3) [of hs1] height w 1(5) by simp
    moreover from this height have "lock_covered st block mh' mt' txin h" by (simp add: lock_covered_def)
    ultimately show ?thesis by simp
  qed
qed auto

text \<open>
  C6: A relative lock time that a script demands is enforced: if \<open>OP_CHECKSEQUENCEVERIFY\<close> accepts the number on
  an input of a transaction whose sequence locks hold for a block, then the block is at least the demanded number of
  blocks above the block of the coin, or, for a lock in time, its median time past is at least the demanded multiple of
  512 seconds after that of the block before the coin's.
\<close>

theorem CheckSequence_enforced:
  assumes "i < length (tx_vin tx)" "checker_CheckSequence tx i n" "flags AND LOCKTIME_VERIFY_SEQUENCE \<noteq> 0"
    and "SequenceLocks st tx flags heights block = Some True" "st block = Some b" "pprev b = Some q"
  shows "if bit n 22
    then \<exists>a coin_time block_time. GetAncestor st block (max (heights ! i - 1) 0) = Some (Some a)
      \<and> GetMedianTimePast st a = Some coin_time \<and> GetMedianTimePast st q = Some block_time
      \<and> coin_time + 512 * relative_lock n \<le> block_time
    else heights ! i + relative_lock n \<le> nHeight b"
proof -
  let ?s = "uint (in_nSequence (tx_vin tx ! i))"
  from assms(2) have s: "?s AND SEQUENCE_LOCKTIME_DISABLE_FLAG = 0" "(scast (tx_nVersion tx) :: u32) \<ge> 2"
    "bit n 22 = bit ?s 22" "relative_lock n \<le> relative_lock ?s"
    using relative_lock_bounds [of n] relative_lock_bounds [of ?s]
    by (auto simp: checker_CheckSequence_def Let_def sequence_parts uint_type_flag split: if_splits)
  from assms(4) obtain mh mt hs' where l: "sequence_locks_loop st block (tx_vin tx) heights (- 1) (- 1) = Some ((mh, mt), hs')"
    "length (tx_vin tx) = length heights" "EvaluateSequenceLocks st block (mh, mt) = Some True"
    using s(2) assms(3) by (auto simp: SequenceLocks_def CalculateSequenceLocks_def Let_def split: option.splits if_splits)
  then have "lock_covered st block mh mt (tx_vin tx ! i) (heights ! i)"
    using sequence_locks_loop_covers [OF l(1,2)] assms(1) by (auto simp: list_all2_conv_all_nth)
  with s l(3) assms(5,6) show ?thesis
    by (auto simp: lock_covered_def EvaluateSequenceLocks_def split: option.splits)
qed

definition example_chain :: index_store where
  "example_chain p =
     (if p < 4 then Some ((new_CBlockIndex example_genesis)\<lparr>pprev := (if p = 0 then None else Some (p - 1)), nHeight := int p\<rparr>)
      else None)"

lemma example_chain_locks: "SequenceLocks example_chain (locked_tx\<lparr>tx_vin := [\<lparr>prevout = example_point, scriptSig = [], in_nSequence = 2\<rparr>]\<rparr>) 1 [1] 3 = Some True"
  by code_simp

theorem CheckSequence_enforced_witness:
  "\<exists>b. example_chain 3 = Some b \<and> 1 + relative_lock 2 \<le> nHeight b"
proof -
  let ?tx = "locked_tx\<lparr>tx_vin := [\<lparr>prevout = example_point, scriptSig = [], in_nSequence = 2\<rparr>]\<rparr>"
  have "checker_CheckSequence ?tx 0 2" by code_simp
  moreover obtain b where "example_chain 3 = Some b" "pprev b = Some 2" by (simp add: example_chain_def)
  ultimately show ?thesis
    using CheckSequence_enforced [OF _ _ _ example_chain_locks, of 0 2 b 2]
    by (simp add: LOCKTIME_VERIFY_SEQUENCE_def)
qed

text \<open>A transaction that passes the context-free check.\<close>

definition spending_tx :: CTransaction where
  "spending_tx = \<lparr>tx_vin = [\<lparr>prevout = example_point, scriptSig = [], in_nSequence = 5\<rparr>],
     tx_vout = [\<lparr>nValue = 3, scriptPubKey = [OP_1]\<rparr>], tx_nVersion = 2, tx_nType = 0, tx_nLockTime = 0, tx_vExtraPayload = []\<rparr>"

theorem CheckTransaction_iff_witness: "CheckTransaction spending_tx = Inr ()"
proof -
  have "length (Serialize_CTransaction spending_tx) = 61" by code_simp
  then have "length (Serialize_CTransaction spending_tx) \<le> MAX_LEGACY_BLOCK_SIZE" by (simp add: MAX_LEGACY_BLOCK_SIZE_def)
  then show ?thesis
    unfolding CheckTransaction_iff
    by (simp add: spending_tx_def IsCoinBase_def COutPoint_IsNull_def example_point_def MoneyRange_def MAX_MONEY_def COIN_def)
qed

section \<open>Inputs against the unspent outputs\<close>

text \<open>What the coins must be for an input, and the value of all of them.\<close>

definition spendable :: "utxo \<Rightarrow> int \<Rightarrow> CTxIn \<Rightarrow> bool" where
  "spendable u h i \<longleftrightarrow>
     (case u (prevout i) of
        None \<Rightarrow> False
      | Some coin \<Rightarrow> (fCoinBase coin \<longrightarrow> h - int (coin_nHeight coin) \<ge> COINBASE_MATURITY) \<and> MoneyRange (nValue (coin_out coin)))"

definition input_value :: "utxo \<Rightarrow> CTxIn \<Rightarrow> CAmount" where
  "input_value u i = (case u (prevout i) of None \<Rightarrow> 0 | Some coin \<Rightarrow> nValue (coin_out coin))"

definition inputs_value :: "utxo \<Rightarrow> CTransaction \<Rightarrow> CAmount" where
  "inputs_value u tx = sum_list (map (input_value u) (tx_vin tx))"

lemma spendable_value: "spendable u h i \<Longrightarrow> MoneyRange (input_value u i)"
  by (auto simp: spendable_def input_value_def split: option.splits)

lemma spendable_sum_nonneg: "\<forall>i \<in> set vin. spendable u h i \<Longrightarrow> 0 \<le> sum_list (map (input_value u) vin)"
  by (intro sum_list_nonneg) (auto dest!: spendable_value simp: MoneyRange_def)

context coins_view
begin

lemma have_inputs_loop:
  "cache_inv A I c \<Longrightarrow> \<exists>c'. have_inputs_loop ops vin c = (\<forall>i \<in> set vin. cache_abs A c (prevout i) \<noteq> None, c')
    \<and> cache_inv A I c' \<and> cache_abs A c' = cache_abs A c \<and> cv_hashBlock c' = cv_hashBlock c"
proof (induction vin arbitrary: c)
  case (Cons i vin)
  obtain c1 where c1: "HaveCoin ops c (prevout i) = (cache_abs A c (prevout i) \<noteq> None, c1)" "cache_inv A I c1"
    "cache_abs A c1 = cache_abs A c" "cv_hashBlock c1 = cv_hashBlock c"
    using cache_have [OF Cons.prems, of "prevout i"] by blast
  show ?case
  proof (cases "cache_abs A c (prevout i) = None")
    case False
    with Cons.IH [OF c1(2)] c1 show ?thesis by auto
  qed (use c1 in auto)
qed simp

lemma tx_inputs_loop:
  "cache_inv A I c \<Longrightarrow> MoneyRange v \<Longrightarrow> \<forall>i \<in> set vin. cache_abs A c (prevout i) \<noteq> None \<Longrightarrow>
    \<exists>r c'. tx_inputs_loop ops h vin c v = (r, c') \<and> cache_inv A I c' \<and> cache_abs A c' = cache_abs A c
      \<and> cv_hashBlock c' = cv_hashBlock c
      \<and> (\<forall>w. r = Inr w \<longleftrightarrow> (\<forall>i \<in> set vin. spendable (cache_abs A c) h i) \<and> MoneyRange w
           \<and> w = v + sum_list (map (input_value (cache_abs A c)) vin))"
proof (induction vin arbitrary: c v)
  case (Cons i vin)
  let ?u = "cache_abs A c"
  obtain coin c1 where c1: "AccessCoin ops c (prevout i) = (coin, c1)" "unspent coin = ?u (prevout i)" "cache_inv A I c1"
    "cache_abs A c1 = ?u" "cv_hashBlock c1 = cv_hashBlock c"
    using cache_access [OF Cons.prems(1), of "prevout i"] by blast
  with Cons.prems(3) have coin: "\<not> IsSpent coin" "?u (prevout i) = Some coin"
    by (auto simp: unspent_def split: if_splits)
  let ?v = "v + nValue (coin_out coin)"
  have iv: "input_value ?u i = nValue (coin_out coin)" by (simp add: input_value_def coin)
  show ?case
  proof (cases "spendable ?u h i \<and> MoneyRange ?v")
    case True
    then have "\<not> (fCoinBase coin \<and> h - int (coin_nHeight coin) < COINBASE_MATURITY)" "MoneyRange (nValue (coin_out coin))"
      by (auto simp: spendable_def coin)
    then have "tx_inputs_loop ops h (i # vin) c v = tx_inputs_loop ops h vin c1 ?v"
      using c1(1) coin(1) True by (auto simp: Let_def)
    with Cons.IH [OF c1(3), of ?v] c1 True Cons.prems(3) show ?thesis by (auto simp: iv add.assoc)
  next
    case False
    then have "\<exists>e. tx_inputs_loop ops h (i # vin) c v = (Inl e, c1)"
      using c1(1) coin by (auto simp: Let_def spendable_def)
    then obtain e where e: "tx_inputs_loop ops h (i # vin) c v = (Inl e, c1)" by blast
    have "\<not> (\<forall>j \<in> set (i # vin). spendable ?u h j) \<or> \<not> MoneyRange (v + sum_list (map (input_value ?u) (i # vin)))"
      using False spendable_sum_nonneg [of vin ?u h] spendable_value [of ?u h i] Cons.prems(2)
      by (auto simp: MoneyRange_def iv)
    with e c1 show ?thesis by auto
  qed
qed auto

theorem CheckTxInputs_view:
  assumes "cache_inv A I c" "\<not> IsCoinBase tx"
  shows "\<exists>r c'. CheckTxInputs ops tx c h = (r, c') \<and> cache_inv A I c' \<and> cache_abs A c' = cache_abs A c
    \<and> cv_hashBlock c' = cv_hashBlock c
    \<and> (\<forall>fee. r = Inr fee \<longleftrightarrow> (\<forall>i \<in> set (tx_vin tx). spendable (cache_abs A c) h i)
         \<and> MoneyRange (inputs_value (cache_abs A c) tx)
         \<and> (\<exists>out. GetValueOut tx = Some out \<and> out \<le> inputs_value (cache_abs A c) tx \<and> fee = inputs_value (cache_abs A c) tx - out))"
proof -
  let ?u = "cache_abs A c"
  obtain c1 where c1: "HaveInputs ops c tx = (\<forall>i \<in> set (tx_vin tx). ?u (prevout i) \<noteq> None, c1)" "cache_inv A I c1"
    "cache_abs A c1 = ?u" "cv_hashBlock c1 = cv_hashBlock c"
    using have_inputs_loop [OF assms(1), of "tx_vin tx"] assms(2) unfolding HaveInputs_def by (elim exE conjE) simp
  show ?thesis
  proof (cases "\<forall>i \<in> set (tx_vin tx). ?u (prevout i) \<noteq> None")
    case True
    obtain r c2 where c2: "tx_inputs_loop ops h (tx_vin tx) c1 0 = (r, c2)" "cache_inv A I c2" "cache_abs A c2 = ?u"
      "cv_hashBlock c2 = cv_hashBlock c"
      "\<And>w. r = Inr w \<longleftrightarrow> (\<forall>i \<in> set (tx_vin tx). spendable ?u h i) \<and> MoneyRange w \<and> w = inputs_value ?u tx"
      using tx_inputs_loop [OF c1(2) MoneyRange_0, of "tx_vin tx" h, unfolded c1(3,4) add_0, folded inputs_value_def, OF True]
      by (elim exE conjE) blast
    have fee: "MoneyRange (w - out)" if "GetValueOut tx = Some out" "MoneyRange w" "out \<le> w" for w out
      using that GetValueOut_Some [of tx out] by (auto simp: MoneyRange_def)
    show ?thesis
    proof (cases r)
      case (Inl e)
      then have "\<not> ((\<forall>i \<in> set (tx_vin tx). spendable ?u h i) \<and> MoneyRange (inputs_value ?u tx))"
        using c2(5) [of "inputs_value ?u tx"] by simp
      moreover have "CheckTxInputs ops tx c h = (Inl e, c2)" using c1(1) c2(1) True Inl by (simp add: CheckTxInputs_def)
      ultimately show ?thesis using c2(2-4) by (intro exI [of _ "Inl e"] exI [of _ c2] conjI allI) auto
    next
      case (Inr w)
      then have w: "\<forall>i \<in> set (tx_vin tx). spendable ?u h i" "MoneyRange (inputs_value ?u tx)" "w = inputs_value ?u tx"
        using c2(5) [of w] by auto
      let ?v = "inputs_value ?u tx"
      let ?r = "case GetValueOut tx of None \<Rightarrow> Inl value_out_of_range
          | Some out \<Rightarrow> if ?v < out then Inl (Invalid CONSENSUS ''bad-txns-in-belowout'') else Inr (?v - out)"
      have c: "CheckTxInputs ops tx c h = (?r, c2)"
      proof (cases "GetValueOut tx")
        case None
        with c1(1) c2(1) True Inr show ?thesis by (simp add: CheckTxInputs_def)
      next
        case (Some out)
        with c1(1) c2(1) True Inr fee [OF Some w(2)] w(3) show ?thesis by (simp add: CheckTxInputs_def Let_def)
      qed
      have r: "?r = Inr fee \<longleftrightarrow> (\<exists>out. GetValueOut tx = Some out \<and> out \<le> ?v \<and> fee = ?v - out)" for fee
        by (auto split: option.split)
      show ?thesis
        by (rule exI [of _ ?r], rule exI [of _ c2], intro conjI allI c c2(2-4)) (unfold r, use w(1,2) in blast)
    qed
  next
    case False
    then obtain i where i: "i \<in> set (tx_vin tx)" "?u (prevout i) = None" by blast
    then have "\<not> spendable ?u h i" by (simp add: spendable_def)
    with i(1) have n: "\<not> (\<forall>i \<in> set (tx_vin tx). spendable ?u h i)" by blast
    have c: "CheckTxInputs ops tx c h = (Inl (Invalid TX_MISSING_INPUTS ''bad-txns-inputs-missingorspent''), c1)"
      using c1(1) False by (simp only: CheckTxInputs_def prod.case) simp
    show ?thesis using n
      by (intro exI [of _ c1] exI [of _ "Inl (Invalid TX_MISSING_INPUTS ''bad-txns-inputs-missingorspent'')"] conjI allI c c1(2-4)) simp
  qed
qed

end

end
