(* ===== verification/AddressIndex.thy ===== *)
theory AddressIndex
  imports Coins SigHash
begin

text \<open>
  The address and spent indexes: the keys and values of \<^verbatim>\<open>spentindex.h\<close>, the records that \<open>ConnectBlock\<close> and \<open>DisconnectBlock\<close> of
  \<^verbatim>\<open>validation.cpp\<close> collect for the inputs and outputs of a transaction, and the writes of \<^verbatim>\<open>txdb.cpp\<close>.
\<close>

section \<open>Keys and values\<close>

record CAddressIndexKey =
  ai_type :: nat
  ai_hashBytes :: bytes
  ai_blockHeight :: int
  ai_txindex :: nat
  ai_txhash :: uint256
  ai_index :: nat
  ai_spending :: bool

record CAddressUnspentKey =
  au_type :: nat
  au_hashBytes :: bytes
  au_txhash :: uint256
  au_index :: nat

record CAddressUnspentValue =
  au_satoshis :: CAmount
  au_script :: CScript
  au_blockHeight :: int

definition CAddressUnspentValue_null :: CAddressUnspentValue where
  "CAddressUnspentValue_null = \<lparr>au_satoshis = - 1, au_script = [], au_blockHeight = 0\<rparr>"

definition CAddressUnspentValue_IsNull :: "CAddressUnspentValue \<Rightarrow> bool" where
  "CAddressUnspentValue_IsNull v \<longleftrightarrow> au_satoshis v = - 1"

record CSpentIndexKey =
  si_txid :: uint256
  si_outputIndex :: u32

record CSpentIndexValue =
  sv_txid :: uint256
  sv_inputIndex :: nat
  sv_blockHeight :: int
  sv_satoshis :: CAmount
  sv_addressType :: nat
  sv_addressHash :: bytes

definition CSpentIndexValue_null :: CSpentIndexValue where
  "CSpentIndexValue_null = \<lparr>sv_txid = null_hash, sv_inputIndex = 0, sv_blockHeight = 0, sv_satoshis = 0, sv_addressType = 0,
     sv_addressHash = replicate 20 0\<rparr>"

definition CSpentIndexValue_IsNull :: "CSpentIndexValue \<Rightarrow> bool" where
  "CSpentIndexValue_IsNull v \<longleftrightarrow> sv_txid v = null_hash"

section \<open>The database\<close>

record index_db =
  db_address :: "CAddressIndexKey \<rightharpoonup> CAmount"
  db_unspent :: "CAddressUnspentKey \<rightharpoonup> CAddressUnspentValue"
  db_spent :: "CSpentIndexKey \<rightharpoonup> CSpentIndexValue"

definition UpdateSpentIndex :: "(CSpentIndexKey \<times> CSpentIndexValue) list \<Rightarrow> index_db \<Rightarrow> index_db" where
  "UpdateSpentIndex vect db =
     db\<lparr>db_spent := fold (\<lambda>(k, v) m. if CSpentIndexValue_IsNull v then m(k := None) else m(k \<mapsto> v)) vect (db_spent db)\<rparr>"

definition UpdateAddressUnspentIndex :: "(CAddressUnspentKey \<times> CAddressUnspentValue) list \<Rightarrow> index_db \<Rightarrow> index_db" where
  "UpdateAddressUnspentIndex vect db =
     db\<lparr>db_unspent := fold (\<lambda>(k, v) m. if CAddressUnspentValue_IsNull v then m(k := None) else m(k \<mapsto> v)) vect (db_unspent db)\<rparr>"

definition WriteAddressIndex :: "(CAddressIndexKey \<times> CAmount) list \<Rightarrow> index_db \<Rightarrow> index_db" where
  "WriteAddressIndex vect db = db\<lparr>db_address := fold (\<lambda>(k, v) m. m(k \<mapsto> v)) vect (db_address db)\<rparr>"

definition EraseAddressIndex :: "(CAddressIndexKey \<times> CAmount) list \<Rightarrow> index_db \<Rightarrow> index_db" where
  "EraseAddressIndex vect db = db\<lparr>db_address := fold (\<lambda>(k, v) m. m(k := None)) vect (db_address db)\<rparr>"

section \<open>The records of a transaction\<close>

text \<open>The three vectors that are collected, and the two options.\<close>

record index_lists =
  addressIndex :: "(CAddressIndexKey \<times> CAmount) list"
  addressUnspentIndex :: "(CAddressUnspentKey \<times> CAddressUnspentValue) list"
  spentIndex :: "(CSpentIndexKey \<times> CSpentIndexValue) list"

definition no_index :: index_lists where
  "no_index = \<lparr>addressIndex = [], addressUnspentIndex = [], spentIndex = []\<rparr>"

record index_options =
  fAddressIndex :: bool
  fSpentIndex :: bool

definition push_address :: "CAddressIndexKey \<Rightarrow> CAmount \<Rightarrow> CAddressUnspentKey \<Rightarrow> CAddressUnspentValue \<Rightarrow> index_lists \<Rightarrow> index_lists" where
  "push_address key amount unspent_key unspent_value ix =
     ix\<lparr>addressIndex := addressIndex ix @ [(key, amount)], addressUnspentIndex := addressUnspentIndex ix @ [(unspent_key, unspent_value)]\<rparr>"

definition push_spent :: "CSpentIndexKey \<Rightarrow> CSpentIndexValue \<Rightarrow> index_lists \<Rightarrow> index_lists" where
  "push_spent key v ix = ix\<lparr>spentIndex := spentIndex ix @ [(key, v)]\<rparr>"

definition Hash160_of_key :: "crypto \<Rightarrow> CScript \<Rightarrow> bytes" where
  "Hash160_of_key cr script = Hash160 cr (butlast (tl script))"

text \<open>The type of a script (a script hash, a key hash or a key, or none) and the hash.\<close>

definition address_of :: "crypto \<Rightarrow> CScript \<Rightarrow> nat \<times> bytes" where
  "address_of cr script =
     (if IsPayToScriptHash script then (2, take 20 (drop 2 script))
      else if IsPayToPublicKeyHash script then (1, take 20 (drop 3 script))
      else if IsPayToPublicKey script then (1, Hash160_of_key cr script)
      else (0, replicate 20 0))"

text \<open>An input \<open>j\<close> that spends a coin, in transaction \<open>i\<close> of a block.\<close>

definition connect_input_index :: "crypto \<Rightarrow> index_options \<Rightarrow> int \<Rightarrow> nat \<Rightarrow> uint256 \<Rightarrow> nat \<Rightarrow> CTxIn \<Rightarrow> Coin \<Rightarrow> index_lists \<Rightarrow> index_lists" where
  "connect_input_index cr opts height i txhash j input coin ix =
     (let out = coin_out coin; (addressType, hashBytes) = address_of cr (scriptPubKey out);
          ix1 = (if fAddressIndex opts \<and> addressType > 0
                 then push_address
                        \<lparr>ai_type = addressType, ai_hashBytes = hashBytes, ai_blockHeight = height, ai_txindex = i, ai_txhash = txhash,
                         ai_index = j, ai_spending = True\<rparr> (nValue out * - 1)
                        \<lparr>au_type = addressType, au_hashBytes = hashBytes, au_txhash = op_hash (prevout input), au_index = unat (op_n (prevout input))\<rparr>
                        CAddressUnspentValue_null ix
                 else ix)
      in if fSpentIndex opts
         then push_spent \<lparr>si_txid = op_hash (prevout input), si_outputIndex = op_n (prevout input)\<rparr>
                \<lparr>sv_txid = txhash, sv_inputIndex = j, sv_blockHeight = height, sv_satoshis = nValue out, sv_addressType = addressType,
                 sv_addressHash = hashBytes\<rparr> ix1
         else ix1)"

definition output_key :: "nat \<Rightarrow> bytes \<Rightarrow> int \<Rightarrow> nat \<Rightarrow> uint256 \<Rightarrow> nat \<Rightarrow> CAddressIndexKey" where
  "output_key t h height i txhash k =
     \<lparr>ai_type = t, ai_hashBytes = h, ai_blockHeight = height, ai_txindex = i, ai_txhash = txhash, ai_index = k, ai_spending = False\<rparr>"

definition unspent_key :: "nat \<Rightarrow> bytes \<Rightarrow> uint256 \<Rightarrow> nat \<Rightarrow> CAddressUnspentKey" where
  "unspent_key t h txhash k = \<lparr>au_type = t, au_hashBytes = h, au_txhash = txhash, au_index = k\<rparr>"

text \<open>Output \<open>k\<close>; the three branches of the code differ only in the type and the hash.\<close>

definition connect_output_index :: "crypto \<Rightarrow> int \<Rightarrow> nat \<Rightarrow> uint256 \<Rightarrow> nat \<Rightarrow> CTxOut \<Rightarrow> index_lists \<Rightarrow> index_lists" where
  "connect_output_index cr height i txhash k out ix =
     (case address_of cr (scriptPubKey out) of (t, h) \<Rightarrow>
        if t = 0 then ix
        else push_address (output_key t h height i txhash k) (nValue out) (unspent_key t h txhash k)
               \<lparr>au_satoshis = nValue out, au_script = scriptPubKey out, au_blockHeight = height\<rparr> ix)"

definition disconnect_output_index :: "crypto \<Rightarrow> int \<Rightarrow> nat \<Rightarrow> uint256 \<Rightarrow> nat \<Rightarrow> CTxOut \<Rightarrow> index_lists \<Rightarrow> index_lists" where
  "disconnect_output_index cr height i txhash k out ix =
     (case address_of cr (scriptPubKey out) of (t, h) \<Rightarrow>
        if t = 0 then ix
        else push_address (output_key t h height i txhash k) (nValue out) (unspent_key t h txhash k) CAddressUnspentValue_null ix)"

text \<open>The branch for a key differs from the other two.\<close>

definition disconnect_input_index :: "crypto \<Rightarrow> int \<Rightarrow> nat \<Rightarrow> uint256 \<Rightarrow> nat \<Rightarrow> CTxIn \<Rightarrow> int \<Rightarrow> Coin \<Rightarrow> index_lists \<Rightarrow> index_lists" where
  "disconnect_input_index cr height i txhash j input undoHeight coin ix =
     (let out = coin_out coin; script = scriptPubKey out;
          restore = (\<lambda>t h. push_address
            \<lparr>ai_type = t, ai_hashBytes = h, ai_blockHeight = height, ai_txindex = i, ai_txhash = txhash, ai_index = j, ai_spending = True\<rparr>
            (nValue out * - 1) (unspent_key t h (op_hash (prevout input)) (unat (op_n (prevout input))))
            \<lparr>au_satoshis = nValue out, au_script = script, au_blockHeight = undoHeight\<rparr>)
      in if IsPayToScriptHash script then restore 2 (take 20 (drop 2 script)) ix
         else if IsPayToPublicKeyHash script then restore 1 (take 20 (drop 3 script)) ix
         else if IsPayToPublicKey script
              then push_address (output_key 1 (Hash160_of_key cr script) height i txhash j) (nValue out)
                     (unspent_key 1 (Hash160_of_key cr script) txhash j) CAddressUnspentValue_null ix
         else ix)"

definition erase_spent :: "CTxIn \<Rightarrow> index_lists \<Rightarrow> index_lists" where
  "erase_spent input = push_spent \<lparr>si_txid = op_hash (prevout input), si_outputIndex = op_n (prevout input)\<rparr> CSpentIndexValue_null"

end
