(* ===== verification/CoinsUpdate.thy ===== *)
theory CoinsUpdate
  imports TxVerify AddressIndex
begin

text \<open>
  Applying transactions to the coins and taking them back: \<open>AddCoins\<close> and \<open>AccessByTxid\<close> of \<^verbatim>\<open>coins.cpp\<close>, and \<open>UpdateCoins\<close>,
  \<open>ApplyTxInUndo\<close> and the loop of \<open>DisconnectBlock\<close> of \<^verbatim>\<open>validation.cpp\<close>.  The undo data of a transaction is the
  list of the coins it spent.  The lemmas relate the operations to the set of unspent outputs and show that
  disconnecting undoes connecting.
\<close>

unbundle bit_operations_syntax

section \<open>Connecting a transaction\<close>

fun add_coins_loop :: "'b view_ops \<Rightarrow> uint256 \<Rightarrow> int \<Rightarrow> bool \<Rightarrow> bool \<Rightarrow> CTxOut list \<Rightarrow> nat \<Rightarrow> 'b CCoinsViewCache \<Rightarrow> coins_error + 'b CCoinsViewCache" where
  "add_coins_loop ops txid height fCoinbase check [] i cache = Inr cache"
| "add_coins_loop ops txid height fCoinbase check (out # vout) i cache =
     (let p = \<lparr>op_hash = txid, op_n = word_of_nat i\<rparr>;
          (overwrite, cache1) = (if check then HaveCoin ops cache p else (fCoinbase, cache))
      in case AddCoin cache1 p (make_Coin out height fCoinbase) overwrite of
           Inl e \<Rightarrow> Inl e
         | Inr cache2 \<Rightarrow> add_coins_loop ops txid height fCoinbase check vout (Suc i) cache2)"

definition AddCoins :: "crypto \<Rightarrow> 'b view_ops \<Rightarrow> 'b CCoinsViewCache \<Rightarrow> CTransaction \<Rightarrow> int \<Rightarrow> bool \<Rightarrow> coins_error + 'b CCoinsViewCache" where
  "AddCoins cr ops cache tx height check =
     add_coins_loop ops (GetHash cr tx) height (IsCoinBase tx) check (tx_vout tx) 0 cache"

fun spend_inputs :: "'b view_ops \<Rightarrow> CTxIn list \<Rightarrow> 'b CCoinsViewCache \<Rightarrow> Coin list \<Rightarrow> coins_error + Coin list \<times> 'b CCoinsViewCache" where
  "spend_inputs ops [] inputs vprevout = Inr (vprevout, inputs)"
| "spend_inputs ops (txin # vin) inputs vprevout =
     (case SpendCoin ops inputs (prevout txin) of
        (None, inputs') \<Rightarrow> Inl coin_assert
      | (Some coin, inputs') \<Rightarrow> spend_inputs ops vin inputs' (vprevout @ [coin]))"

definition UpdateCoins :: "crypto \<Rightarrow> 'b view_ops \<Rightarrow> CTransaction \<Rightarrow> 'b CCoinsViewCache \<Rightarrow> int \<Rightarrow> coins_error + Coin list \<times> 'b CCoinsViewCache" where
  "UpdateCoins cr ops tx inputs height =
     (case (if IsCoinBase tx then Inr ([], inputs) else spend_inputs ops (tx_vin tx) inputs []) of
        Inl e \<Rightarrow> Inl e
      | Inr (vprevout, inputs1) \<Rightarrow>
          (case AddCoins cr ops inputs1 tx height False of
             Inl e \<Rightarrow> Inl e
           | Inr inputs2 \<Rightarrow> Inr (vprevout, inputs2)))"

section \<open>Taking it back\<close>

text \<open>\<open>GetSerializeSize(CTxOut())\<close> is nine: the amount and the length of an empty script.\<close>

definition MAX_OUTPUTS_PER_BLOCK :: nat where
  "MAX_OUTPUTS_PER_BLOCK = MaxBlockSize True div length (Serialize_CTxOut CTxOut_null)"

text \<open>The loop over the indices from \<open>MAX_OUTPUTS_PER_BLOCK - k\<close> on.\<close>

primrec access_by_txid_loop :: "'b view_ops \<Rightarrow> uint256 \<Rightarrow> nat \<Rightarrow> 'b CCoinsViewCache \<Rightarrow> Coin \<times> 'b CCoinsViewCache" where
  "access_by_txid_loop ops txid 0 view = (coinEmpty, view)"
| "access_by_txid_loop ops txid (Suc k) view =
     (case AccessCoin ops view \<lparr>op_hash = txid, op_n = word_of_nat (MAX_OUTPUTS_PER_BLOCK - Suc k)\<rparr> of
        (alternate, view') \<Rightarrow> if \<not> IsSpent alternate then (alternate, view') else access_by_txid_loop ops txid k view')"

definition AccessByTxid :: "'b view_ops \<Rightarrow> 'b CCoinsViewCache \<Rightarrow> uint256 \<Rightarrow> Coin \<times> 'b CCoinsViewCache" where
  "AccessByTxid ops view txid = access_by_txid_loop ops txid MAX_OUTPUTS_PER_BLOCK view"

datatype DisconnectResult = DISCONNECT_OK | DISCONNECT_UNCLEAN | DISCONNECT_FAILED

definition ApplyTxInUndo :: "'b view_ops \<Rightarrow> Coin \<Rightarrow> 'b CCoinsViewCache \<Rightarrow> COutPoint \<Rightarrow> coins_error + DisconnectResult \<times> 'b CCoinsViewCache" where
  "ApplyTxInUndo ops undo view out =
     (case HaveCoin ops view out of (have, view1) \<Rightarrow>
        let fClean = (\<not> have);
            (undo', view2) =
              (if coin_nHeight undo = 0
               then case AccessByTxid ops view1 (op_hash out) of (alternate, view2) \<Rightarrow>
                      (if \<not> IsSpent alternate
                       then Some (undo\<lparr>coin_nHeight := coin_nHeight alternate, fCoinBase := fCoinBase alternate\<rparr>)
                       else None, view2)
               else (Some undo, view1))
        in case undo' of
             None \<Rightarrow> Inr (DISCONNECT_FAILED, view2)
           | Some coin \<Rightarrow>
               (case AddCoin view2 out coin (\<not> fClean) of
                  Inl e \<Rightarrow> Inl e
                | Inr view3 \<Rightarrow> Inr (if fClean then DISCONNECT_OK else DISCONNECT_UNCLEAN, view3)))"

text \<open>The outputs of a transaction are spent and compared with those in the block.\<close>

fun disconnect_outputs :: "'b view_ops \<Rightarrow> uint256 \<Rightarrow> int \<Rightarrow> bool \<Rightarrow> CTxOut list \<Rightarrow> nat \<Rightarrow> bool \<times> 'b CCoinsViewCache \<Rightarrow> bool \<times> 'b CCoinsViewCache" where
  "disconnect_outputs ops hash height is_coinbase [] i s = s"
| "disconnect_outputs ops hash height is_coinbase (out # vout) i (fClean, view) =
     (if \<not> IsUnspendable (scriptPubKey out)
      then case SpendCoin ops view \<lparr>op_hash = hash, op_n = word_of_nat i\<rparr> of (moved, view') \<Rightarrow>
             let mismatch = (case moved of
                               None \<Rightarrow> True
                             | Some coin \<Rightarrow> out \<noteq> coin_out coin \<or> height \<noteq> int (coin_nHeight coin) \<or> is_coinbase \<noteq> fCoinBase coin)
             in disconnect_outputs ops hash height is_coinbase vout (Suc i) (fClean \<and> \<not> mismatch, view')
      else disconnect_outputs ops hash height is_coinbase vout (Suc i) (fClean, view))"

text \<open>
  The inputs are restored from the last to the first; the list holds their positions and is already reversed.  The index entry is
  made from the coin the view holds after the restoration.
\<close>

fun disconnect_inputs :: "crypto \<Rightarrow> 'b view_ops \<Rightarrow> index_options \<Rightarrow> int \<Rightarrow> nat \<Rightarrow> uint256 \<Rightarrow> (nat \<times> CTxIn \<times> Coin) list \<Rightarrow> index_lists
    \<Rightarrow> bool \<times> 'b CCoinsViewCache \<Rightarrow> coins_error + DisconnectResult \<times> index_lists \<times> 'b CCoinsViewCache" where
  "disconnect_inputs cr ops opts height i hash [] ix (fClean, view) =
     Inr (if fClean then DISCONNECT_OK else DISCONNECT_UNCLEAN, ix, view)"
| "disconnect_inputs cr ops opts height i hash ((j, txin, undo) # rest) ix (fClean, view) =
     (case ApplyTxInUndo ops undo view (prevout txin) of
        Inl e \<Rightarrow> Inl e
      | Inr (res, view1) \<Rightarrow>
          if res = DISCONNECT_FAILED then Inr (DISCONNECT_FAILED, ix, view1)
          else let ix1 = (if fSpentIndex opts then erase_spent txin ix else ix);
                   (ix2, view2) =
                     (if fAddressIndex opts
                      then case AccessCoin ops view1 (prevout txin) of (coin, view2) \<Rightarrow>
                             (disconnect_input_index cr height i hash j txin (int (coin_nHeight undo)) coin ix1, view2)
                      else (ix1, view1))
               in disconnect_inputs cr ops opts height i hash rest ix2 (fClean \<and> res \<noteq> DISCONNECT_UNCLEAN, view2))"

text \<open>One transaction; the first one of the block has no undo data.\<close>

definition disconnect_outputs_index :: "crypto \<Rightarrow> int \<Rightarrow> nat \<Rightarrow> uint256 \<Rightarrow> CTxOut list \<Rightarrow> index_lists \<Rightarrow> index_lists" where
  "disconnect_outputs_index cr height i hash vout ix =
     fold (\<lambda>(k, out). disconnect_output_index cr height i hash k out) (rev (zip [0..<length vout] vout)) ix"

definition disconnect_tx :: "crypto \<Rightarrow> 'b view_ops \<Rightarrow> index_options \<Rightarrow> int \<Rightarrow> nat \<Rightarrow> CTransaction \<Rightarrow> Coin list option \<Rightarrow> index_lists
    \<Rightarrow> bool \<times> 'b CCoinsViewCache \<Rightarrow> coins_error + DisconnectResult \<times> index_lists \<times> 'b CCoinsViewCache" where
  "disconnect_tx cr ops opts height i tx txundo ix s =
     (let hash = GetHash cr tx;
          ix1 = (if fAddressIndex opts then disconnect_outputs_index cr height i hash (tx_vout tx) ix else ix)
      in case disconnect_outputs ops hash height (IsCoinBase tx) (tx_vout tx) 0 s of (fClean, view) \<Rightarrow>
           (case txundo of
              None \<Rightarrow> Inr (if fClean then DISCONNECT_OK else DISCONNECT_UNCLEAN, ix1, view)
            | Some vprevout \<Rightarrow>
                if length vprevout \<noteq> length (tx_vin tx) then Inr (DISCONNECT_FAILED, ix1, view)
                else disconnect_inputs cr ops opts height i hash
                       (rev (zip [0..<length vprevout] (zip (tx_vin tx) vprevout))) ix1 (fClean, view)))"

text \<open>The transactions from the last to the first, with their positions.\<close>

fun disconnect_loop :: "crypto \<Rightarrow> 'b view_ops \<Rightarrow> index_options \<Rightarrow> int \<Rightarrow> (nat \<times> CTransaction \<times> Coin list option) list \<Rightarrow> index_lists
    \<Rightarrow> bool \<times> 'b CCoinsViewCache \<Rightarrow> coins_error + DisconnectResult \<times> index_lists \<times> 'b CCoinsViewCache" where
  "disconnect_loop cr ops opts height [] ix (fClean, view) =
     Inr (if fClean then DISCONNECT_OK else DISCONNECT_UNCLEAN, ix, view)"
| "disconnect_loop cr ops opts height ((i, tx, txundo) # rest) ix s =
     (case disconnect_tx cr ops opts height i tx txundo ix s of
        Inl e \<Rightarrow> Inl e
      | Inr (res, ix1, view) \<Rightarrow>
          if res = DISCONNECT_FAILED then Inr (DISCONNECT_FAILED, ix1, view)
          else disconnect_loop cr ops opts height rest ix1 (res = DISCONNECT_OK, view))"

text \<open>
  The whole of \<open>DisconnectBlock\<close>.  Two results of other parts of the node are parameters: whether the database of special
  transactions is at this block, and whether the special transactions could be undone.
\<close>

definition DisconnectBlock :: "crypto \<Rightarrow> 'b view_ops \<Rightarrow> index_options \<Rightarrow> bool \<Rightarrow> bool \<Rightarrow> CTransaction list \<Rightarrow> Coin list list option \<Rightarrow> int \<Rightarrow> uint256
    \<Rightarrow> 'b CCoinsViewCache \<times> index_db \<Rightarrow> coins_error + DisconnectResult \<times> 'b CCoinsViewCache \<times> index_db" where
  "DisconnectBlock cr ops opts evodb_ok undo_special vtx blockUndo height prev_hash s =
     (case s of (view, db) \<Rightarrow>
        if \<not> evodb_ok then Inr (DISCONNECT_FAILED, view, db)
        else case blockUndo of
               None \<Rightarrow> Inr (DISCONNECT_FAILED, view, db)
             | Some vtxundo \<Rightarrow>
                 if length vtxundo + 1 \<noteq> length vtx then Inr (DISCONNECT_FAILED, view, db)
                 else if \<not> undo_special then Inr (DISCONNECT_FAILED, view, db)
                 else case disconnect_loop cr ops opts height
                             (rev (zip [0..<length vtx] (zip vtx (None # map Some vtxundo)))) no_index (True, view) of
                        Inl e \<Rightarrow> Inl e
                      | Inr (res, ix, view') \<Rightarrow>
                          if res = DISCONNECT_FAILED then Inr (DISCONNECT_FAILED, view', db)
                          else let db1 = (if fSpentIndex opts then UpdateSpentIndex (spentIndex ix) db else db);
                                   db2 = (if fAddressIndex opts
                                          then UpdateAddressUnspentIndex (addressUnspentIndex ix) (EraseAddressIndex (addressIndex ix) db1)
                                          else db1)
                               in Inr (res, SetBestBlock view' prev_hash, db2))"

section \<open>The same on the set of unspent outputs\<close>

text \<open>The index records of a disconnected block, from the undo data alone.\<close>

definition undo_input_index :: "crypto \<Rightarrow> index_options \<Rightarrow> int \<Rightarrow> nat \<Rightarrow> uint256 \<Rightarrow> nat \<times> CTxIn \<times> Coin \<Rightarrow> index_lists \<Rightarrow> index_lists" where
  "undo_input_index cr opts height i hash x ix =
     (case x of (j, txin, undo) \<Rightarrow>
        let ix1 = (if fSpentIndex opts then erase_spent txin ix else ix)
        in if fAddressIndex opts then disconnect_input_index cr height i hash j txin (int (coin_nHeight undo)) undo ix1 else ix1)"

definition undo_tx_index :: "crypto \<Rightarrow> index_options \<Rightarrow> int \<Rightarrow> nat \<times> CTransaction \<times> Coin list option \<Rightarrow> index_lists \<Rightarrow> index_lists" where
  "undo_tx_index cr opts height x ix =
     (case x of (i, tx, txundo) \<Rightarrow>
        let hash = GetHash cr tx;
            ix1 = (if fAddressIndex opts then disconnect_outputs_index cr height i hash (tx_vout tx) ix else ix)
        in case txundo of
             None \<Rightarrow> ix1
           | Some vprevout \<Rightarrow> fold (undo_input_index cr opts height i hash) (rev (zip [0..<length vprevout] (zip (tx_vin tx) vprevout))) ix1)"

abbreviation numbered :: "'a list \<Rightarrow> (nat \<times> 'a) list" where
  "numbered xs \<equiv> zip [0..<length xs] xs"

abbreviation outpoint :: "uint256 \<Rightarrow> nat \<Rightarrow> COutPoint" where
  "outpoint txid i \<equiv> \<lparr>op_hash = txid, op_n = word_of_nat i\<rparr>"

abbreviation spendable_out :: "CTxOut \<Rightarrow> bool" where
  "spendable_out out \<equiv> \<not> IsUnspendable (scriptPubKey out)"

fun utxo_add :: "uint256 \<Rightarrow> int \<Rightarrow> bool \<Rightarrow> CTxOut list \<Rightarrow> nat \<Rightarrow> utxo \<Rightarrow> utxo" where
  "utxo_add txid h cb [] i u = u"
| "utxo_add txid h cb (out # vout) i u =
     utxo_add txid h cb vout (Suc i) (if spendable_out out then u(outpoint txid i \<mapsto> make_Coin out h cb) else u)"

definition utxo_spend :: "CTxIn list \<Rightarrow> utxo \<Rightarrow> utxo" where
  "utxo_spend vin u = (\<lambda>p. if p \<in> prevout ` set vin then None else u p)"

definition utxo_connect :: "crypto \<Rightarrow> int \<Rightarrow> CTransaction \<Rightarrow> utxo \<Rightarrow> utxo" where
  "utxo_connect cr h tx u =
     utxo_add (GetHash cr tx) h (IsCoinBase tx) (tx_vout tx) 0 (if IsCoinBase tx then u else utxo_spend (tx_vin tx) u)"

text \<open>The coins are spendable and have a height.\<close>

definition utxo_ok :: "utxo \<Rightarrow> bool" where
  "utxo_ok u \<longleftrightarrow> (\<forall>p c. u p = Some c \<longrightarrow> spendable_out (coin_out c) \<and> coin_nHeight c \<noteq> 0)"

text \<open>When a transaction can be connected: its inputs are there and differ, its outputs are not there yet.\<close>

definition tx_applies :: "crypto \<Rightarrow> utxo \<Rightarrow> CTransaction \<Rightarrow> bool" where
  "tx_applies cr u tx \<longleftrightarrow>
     (IsCoinBase tx \<or> distinct (map prevout (tx_vin tx)) \<and> (\<forall>i \<in> set (tx_vin tx). u (prevout i) \<noteq> None))
     \<and> (\<forall>j < length (tx_vout tx). u (outpoint (GetHash cr tx) j) = None)
     \<and> length (tx_vout tx) \<le> 2 ^ 32 \<and> (\<forall>out \<in> set (tx_vout tx). \<not> CTxOut_IsNull out)"

definition spent_coins :: "utxo \<Rightarrow> CTransaction \<Rightarrow> Coin list" where
  "spent_coins u tx = (if IsCoinBase tx then [] else map (\<lambda>i. the (u (prevout i))) (tx_vin tx))"

lemma outpoint_inj: "i < 2 ^ 32 \<Longrightarrow> j < 2 ^ 32 \<Longrightarrow> outpoint txid i = outpoint txid j \<longleftrightarrow> i = j"
  by (simp add: word_of_nat_eq_iff take_bit_nat_eq_self)

lemma utxo_add_other:
  "(\<forall>j < length vout. spendable_out (vout ! j) \<longrightarrow> p \<noteq> outpoint txid (i + j)) \<Longrightarrow> utxo_add txid h cb vout i u p = u p"
proof (induction vout arbitrary: i u)
  case (Cons out vout)
  have "spendable_out out \<Longrightarrow> p \<noteq> outpoint txid i" "\<forall>j < length vout. spendable_out (vout ! j) \<longrightarrow> p \<noteq> outpoint txid (Suc i + j)"
    using Cons.prems [rule_format, of 0] Cons.prems [rule_format, of "Suc j" for j] by simp_all
  with Cons.IH [of "Suc i"] show ?case by simp
qed simp

lemma utxo_add_at:
  "i + length vout \<le> 2 ^ 32 \<Longrightarrow> j < length vout \<Longrightarrow> spendable_out (vout ! j) \<Longrightarrow>
    utxo_add txid h cb vout i u (outpoint txid (i + j)) = Some (make_Coin (vout ! j) h cb)"
proof (induction vout arbitrary: i j u)
  case (Cons out vout)
  show ?case
  proof (cases j)
    case 0
    have "outpoint txid i \<noteq> outpoint txid (Suc i + k)" if "k < length vout" for k
      using outpoint_inj [of i "Suc i + k" txid] Cons.prems(1) that by simp
    then show ?thesis using 0 Cons.prems(3) utxo_add_other [of vout "outpoint txid i" txid "Suc i"] by simp
  next
    case (Suc k)
    with Cons.IH [of "Suc i" k] Cons.prems show ?thesis by simp
  qed
qed simp

text \<open>Removing the outputs again.\<close>

definition utxo_remove :: "uint256 \<Rightarrow> CTxOut list \<Rightarrow> nat \<Rightarrow> utxo \<Rightarrow> utxo" where
  "utxo_remove txid vout i u =
     (\<lambda>p. if \<exists>j < length vout. spendable_out (vout ! j) \<and> p = outpoint txid (i + j) then None else u p)"

lemma utxo_remove_simps:
  "utxo_remove txid [] i u = u"
  "utxo_remove txid (out # vout) i u = utxo_remove txid vout (Suc i) (if spendable_out out then u(outpoint txid i := None) else u)"
  by (simp_all add: utxo_remove_def fun_eq_iff Ex_less_Suc2 split: if_split) auto

lemma utxo_remove_add:
  assumes "\<forall>j < length vout. u (outpoint txid (i + j)) = None"
  shows "utxo_remove txid vout i (utxo_add txid h cb vout i u) = u"
proof
  fix p
  show "utxo_remove txid vout i (utxo_add txid h cb vout i u) p = u p"
    using assms utxo_add_other [of vout p txid i h cb u] by (auto simp: utxo_remove_def)
qed

lemma IsSpent_make_Coin [simp]: "IsSpent (make_Coin out h cb) = CTxOut_IsNull out"
  by (simp add: IsSpent_def make_Coin_def)

lemma make_Coin_simps [simp]:
  "coin_out (make_Coin out h cb) = out" "fCoinBase (make_Coin out h cb) = cb"
  "0 \<le> h \<Longrightarrow> h < 2 ^ 31 \<Longrightarrow> coin_nHeight (make_Coin out h cb) = nat h"
  by (simp_all add: make_Coin_def)

context coins_view
begin

lemma spend_inputs:
  "cache_inv A I c \<Longrightarrow> distinct (map prevout vin) \<Longrightarrow> \<forall>i \<in> set vin. cache_abs A c (prevout i) \<noteq> None \<Longrightarrow>
    \<exists>c'. spend_inputs ops vin c acc = Inr (acc @ map (\<lambda>i. the (cache_abs A c (prevout i))) vin, c')
      \<and> cache_inv A I c' \<and> cache_abs A c' = utxo_spend vin (cache_abs A c) \<and> cv_hashBlock c' = cv_hashBlock c"
proof (induction vin arbitrary: c acc)
  case Nil
  then show ?case by (simp add: utxo_spend_def)
next
  case (Cons i vin)
  obtain r c1 where c1: "SpendCoin ops c (prevout i) = (r, c1)" "Option.bind r unspent = cache_abs A c (prevout i)" "cache_inv A I c1"
    "cache_abs A c1 = (cache_abs A c)(prevout i := None)" "cv_hashBlock c1 = cv_hashBlock c"
    using cache_spend [OF Cons.prems(1), of "prevout i"] by blast
  have "cache_abs A c (prevout i) \<noteq> None" using Cons.prems(3) by simp
  with c1(2) have r: "r = cache_abs A c (prevout i)" "r \<noteq> None"
    by (auto simp: unspent_def split: Option.bind_splits if_splits)
  have p: "prevout i \<notin> prevout ` set vin" using Cons.prems(2) by simp
  then have same: "\<forall>j \<in> set vin. cache_abs A c1 (prevout j) = cache_abs A c (prevout j)" by (metis c1(4) fun_upd_other image_eqI)
  have "map (\<lambda>j. the (cache_abs A c1 (prevout j))) vin = map (\<lambda>j. the (cache_abs A c (prevout j))) vin"
    using same by simp
  moreover have "utxo_spend vin (cache_abs A c1) = utxo_spend (i # vin) (cache_abs A c)"
    by (auto simp: c1(4) utxo_spend_def fun_eq_iff)
  moreover obtain c' where "spend_inputs ops vin c1 (acc @ [the r]) = Inr ((acc @ [the r]) @ map (\<lambda>j. the (cache_abs A c1 (prevout j))) vin, c')"
    "cache_inv A I c'" "cache_abs A c' = utxo_spend vin (cache_abs A c1)" "cv_hashBlock c' = cv_hashBlock c1"
    using Cons.IH [OF c1(3), of "acc @ [the r]"] Cons.prems same by auto
  ultimately show ?case using c1(1,5) r by auto
qed

lemma add_coins_loop:
  "cache_inv A I c \<Longrightarrow> \<forall>out \<in> set vout. \<not> CTxOut_IsNull out \<Longrightarrow> i + length vout \<le> 2 ^ 32 \<Longrightarrow>
    \<forall>j < length vout. cache_abs A c (outpoint txid (i + j)) = None \<Longrightarrow>
    \<exists>c'. add_coins_loop ops txid h cb False vout i c = Inr c' \<and> cache_inv A I c'
      \<and> cache_abs A c' = utxo_add txid h cb vout i (cache_abs A c) \<and> cv_hashBlock c' = cv_hashBlock c"
proof (induction vout arbitrary: c i)
  case (Cons out vout)
  let ?p = "outpoint txid i" and ?coin = "make_Coin out h cb"
  have fresh: "cache_abs A c ?p = None" "\<forall>j < length vout. cache_abs A c (outpoint txid (Suc i + j)) = None"
    using Cons.prems(4) [rule_format, of 0] Cons.prems(4) [rule_format, of "Suc j" for j] by simp_all
  have "\<exists>c1. AddCoin c ?p ?coin cb = Inr c1 \<and> cache_inv A I c1 \<and> cv_hashBlock c1 = cv_hashBlock c
      \<and> cache_abs A c1 = (if spendable_out out then (cache_abs A c)(?p \<mapsto> ?coin) else cache_abs A c)"
  proof (cases "spendable_out out")
    case True
    with AddCoin_ok [OF Cons.prems(1), of ?coin cb ?p] fresh Cons.prems(2) show ?thesis by auto
  next
    case False
    with Cons.prems show ?thesis by (simp add: AddCoin_def)
  qed
  then obtain c1 where c1: "AddCoin c ?p ?coin cb = Inr c1" "cache_inv A I c1" "cv_hashBlock c1 = cv_hashBlock c"
    "cache_abs A c1 = (if spendable_out out then (cache_abs A c)(?p \<mapsto> ?coin) else cache_abs A c)" by blast
  have "outpoint txid (Suc i + j) \<noteq> ?p" if "j < length vout" for j
    using outpoint_inj [of "Suc i + j" i txid] Cons.prems(3) that by simp
  then have "\<forall>j < length vout. cache_abs A c1 (outpoint txid (Suc i + j)) = None" using fresh(2) by (simp add: c1(4))
  with Cons.IH [OF c1(2), of "Suc i"] Cons.prems c1 show ?case by simp
qed simp

theorem UpdateCoins_view:
  assumes "cache_inv A I c" "tx_applies cr (cache_abs A c) tx"
  shows "\<exists>c'. UpdateCoins cr ops tx c h = Inr (spent_coins (cache_abs A c) tx, c') \<and> cache_inv A I c'
    \<and> cache_abs A c' = utxo_connect cr h tx (cache_abs A c) \<and> cv_hashBlock c' = cv_hashBlock c"
proof -
  let ?u = "cache_abs A c" and ?txid = "GetHash cr tx"
  let ?v = "if IsCoinBase tx then ?u else utxo_spend (tx_vin tx) ?u"
  have "\<exists>c1. (if IsCoinBase tx then Inr ([], c) else spend_inputs ops (tx_vin tx) c []) = Inr (spent_coins ?u tx, c1)
      \<and> cache_inv A I c1 \<and> cache_abs A c1 = ?v \<and> cv_hashBlock c1 = cv_hashBlock c"
    using assms spend_inputs [OF assms(1), of "tx_vin tx" "[]"] by (auto simp: tx_applies_def spent_coins_def)
  then obtain c1 where c1: "(if IsCoinBase tx then Inr ([], c) else spend_inputs ops (tx_vin tx) c []) = Inr (spent_coins ?u tx, c1)"
    "cache_inv A I c1" "cache_abs A c1 = ?v" "cv_hashBlock c1 = cv_hashBlock c" by blast
  have "\<forall>j < length (tx_vout tx). cache_abs A c1 (outpoint ?txid (0 + j)) = None"
    using assms(2) by (simp add: c1(3) tx_applies_def utxo_spend_def)
  then obtain c2 where "AddCoins cr ops c1 tx h False = Inr c2" "cache_inv A I c2"
    "cache_abs A c2 = utxo_connect cr h tx ?u" "cv_hashBlock c2 = cv_hashBlock c"
    using add_coins_loop [OF c1(2), of "tx_vout tx" 0 ?txid h "IsCoinBase tx"] assms(2) c1
    by (auto simp: AddCoins_def utxo_connect_def tx_applies_def)
  with c1(1) show ?thesis by (simp add: UpdateCoins_def)
qed

end

context coins_view
begin

lemma disconnect_outputs:
  "cache_inv A I c \<Longrightarrow> i + length vout \<le> 2 ^ 32 \<Longrightarrow> 0 \<le> h \<Longrightarrow> h < 2 ^ 31 \<Longrightarrow>
    \<forall>j < length vout. spendable_out (vout ! j) \<longrightarrow> cache_abs A c (outpoint txid (i + j)) = Some (make_Coin (vout ! j) h cb) \<Longrightarrow>
    \<exists>c'. disconnect_outputs ops txid h cb vout i (fClean, c) = (fClean, c') \<and> cache_inv A I c'
      \<and> cache_abs A c' = utxo_remove txid vout i (cache_abs A c) \<and> cv_hashBlock c' = cv_hashBlock c"
proof (induction vout arbitrary: c i)
  case Nil
  then show ?case by (simp add: utxo_remove_simps)
next
  case (Cons out vout)
  let ?p = "outpoint txid i"
  have at: "spendable_out out \<Longrightarrow> cache_abs A c ?p = Some (make_Coin out h cb)"
    "\<forall>j < length vout. spendable_out (vout ! j) \<longrightarrow> cache_abs A c (outpoint txid (Suc i + j)) = Some (make_Coin (vout ! j) h cb)"
    using Cons.prems(5) [rule_format, of 0] Cons.prems(5) [rule_format, of "Suc j" for j] by simp_all
  show ?case
  proof (cases "spendable_out out")
    case True
    obtain r c1 where c1: "SpendCoin ops c ?p = (r, c1)" "Option.bind r unspent = cache_abs A c ?p" "cache_inv A I c1"
      "cache_abs A c1 = (cache_abs A c)(?p := None)" "cv_hashBlock c1 = cv_hashBlock c"
      using cache_spend [OF Cons.prems(1), of ?p] by blast
    from c1(2) at(1) [OF True] have r: "r = Some (make_Coin out h cb)"
      by (auto simp: unspent_def split: Option.bind_splits if_splits)
    have "outpoint txid (Suc i + j) \<noteq> ?p" if "j < length vout" for j
      using outpoint_inj [of "Suc i + j" i txid] Cons.prems(2) that by simp
    then have "\<forall>j < length vout. spendable_out (vout ! j) \<longrightarrow> cache_abs A c1 (outpoint txid (Suc i + j)) = Some (make_Coin (vout ! j) h cb)"
      using at(2) by (simp add: c1(4))
    moreover have "utxo_remove txid vout (Suc i) (cache_abs A c1) = utxo_remove txid (out # vout) i (cache_abs A c)"
      using True by (simp add: utxo_remove_simps c1(4))
    ultimately show ?thesis using Cons.IH [OF c1(3), of "Suc i"] Cons.prems(2-4) True c1(1,5) r by simp
  next
    case False
    with Cons.IH [OF Cons.prems(1), of "Suc i"] Cons.prems at(2) show ?thesis by (simp add: utxo_remove_simps)
  qed
qed

lemma ApplyTxInUndo_clean:
  assumes "cache_inv A I c" "cache_abs A c p = None" "\<not> IsSpent coin" "spendable_out (coin_out coin)" "coin_nHeight coin \<noteq> 0"
  shows "\<exists>c'. ApplyTxInUndo ops coin c p = Inr (DISCONNECT_OK, c') \<and> cache_inv A I c'
    \<and> cache_abs A c' = (cache_abs A c)(p \<mapsto> coin) \<and> cv_hashBlock c' = cv_hashBlock c"
proof -
  obtain c1 where c1: "HaveCoin ops c p = (False, c1)" "cache_inv A I c1" "cache_abs A c1 = cache_abs A c" "cv_hashBlock c1 = cv_hashBlock c"
    using cache_have [OF assms(1), of p] assms(2) by auto
  obtain c2 where "AddCoin c1 p coin False = Inr c2" "cache_inv A I c2" "cache_abs A c2 = (cache_abs A c1)(p \<mapsto> coin)"
    "cv_hashBlock c2 = cv_hashBlock c1"
    using AddCoin_ok [OF c1(2) assms(3,4), of False p] assms(2) c1(3) by auto
  with c1 assms(5) show ?thesis by (simp add: ApplyTxInUndo_def)
qed

lemma AccessCoin_some:
  assumes "cache_inv A I c" "cache_abs A c p = Some coin"
  shows "\<exists>c'. AccessCoin ops c p = (coin, c') \<and> cache_inv A I c' \<and> cache_abs A c' = cache_abs A c \<and> cv_hashBlock c' = cv_hashBlock c"
  using cache_access [OF assms(1), of p] assms(2) by (auto simp: unspent_def split: if_splits)

lemma disconnect_inputs:
  "cache_inv A I c \<Longrightarrow> distinct (map (prevout \<circ> fst \<circ> snd) xs) \<Longrightarrow>
    \<forall>(j, i, coin) \<in> set xs. cache_abs A c (prevout i) = None \<and> \<not> IsSpent coin \<and> spendable_out (coin_out coin) \<and> coin_nHeight coin \<noteq> 0 \<Longrightarrow>
    \<exists>c'. disconnect_inputs cr ops opts h k hash xs ix (fClean, c)
        = Inr (if fClean then DISCONNECT_OK else DISCONNECT_UNCLEAN, fold (undo_input_index cr opts h k hash) xs ix, c') \<and> cache_inv A I c'
      \<and> cache_abs A c' = cache_abs A c ++ map_of (map (map_prod prevout id \<circ> snd) xs) \<and> cv_hashBlock c' = cv_hashBlock c"
proof (induction xs arbitrary: c ix)
  case (Cons x xs)
  obtain j i coin where x: "x = (j, i, coin)" by (cases x)
  obtain c1 where c1: "ApplyTxInUndo ops coin c (prevout i) = Inr (DISCONNECT_OK, c1)" "cache_inv A I c1"
    "cache_abs A c1 = (cache_abs A c)(prevout i \<mapsto> coin)" "cv_hashBlock c1 = cv_hashBlock c"
    using ApplyTxInUndo_clean [OF Cons.prems(1), of "prevout i" coin] Cons.prems(3) x by auto
  obtain c2 where c2: "AccessCoin ops c1 (prevout i) = (coin, c2)" "cache_inv A I c2" "cache_abs A c2 = cache_abs A c1" "cv_hashBlock c2 = cv_hashBlock c1"
    using AccessCoin_some [OF c1(2), of "prevout i" coin] by (auto simp: c1(3))
  define c3 where "c3 = (if fAddressIndex opts then c2 else c1)"
  have c3: "cache_inv A I c3" "cache_abs A c3 = (cache_abs A c)(prevout i \<mapsto> coin)" "cv_hashBlock c3 = cv_hashBlock c"
    using c1 c2 by (simp_all add: c3_def)
  have n: "prevout i \<notin> (prevout \<circ> fst \<circ> snd) ` set xs" using Cons.prems(2) x by simp
  have "\<forall>(j, i, coin) \<in> set xs. cache_abs A c3 (prevout i) = None \<and> \<not> IsSpent coin \<and> spendable_out (coin_out coin) \<and> coin_nHeight coin \<noteq> 0"
    using Cons.prems(3) n by (force simp: c3(2))
  moreover have "distinct (map (prevout \<circ> fst \<circ> snd) xs)" using Cons.prems(2) by (simp add: comp_def)
  ultimately obtain c' where c': "disconnect_inputs cr ops opts h k hash xs (undo_input_index cr opts h k hash x ix) (fClean, c3)
      = Inr (if fClean then DISCONNECT_OK else DISCONNECT_UNCLEAN, fold (undo_input_index cr opts h k hash) xs (undo_input_index cr opts h k hash x ix), c')"
    "cache_inv A I c'" "cache_abs A c' = cache_abs A c3 ++ map_of (map (map_prod prevout id \<circ> snd) xs)" "cv_hashBlock c' = cv_hashBlock c3"
    using Cons.IH [OF c3(1)] by blast
  have "map_of (map (map_prod prevout id \<circ> snd) xs) (prevout i) = None"
    using n by (force simp: map_of_eq_None_iff image_iff)
  then have "cache_abs A c3 ++ map_of (map (map_prod prevout id \<circ> snd) xs) = cache_abs A c ++ map_of (map (map_prod prevout id \<circ> snd) (x # xs))"
    by (auto simp: x c3(2) map_add_def fun_eq_iff split: option.split)
  moreover have "disconnect_inputs cr ops opts h k hash (x # xs) ix (fClean, c) = disconnect_inputs cr ops opts h k hash xs (undo_input_index cr opts h k hash x ix) (fClean, c3)"
    using c1(1) c2(1) by (simp add: x undo_input_index_def c3_def Let_def)
  ultimately show ?case using c' c3(3) by (intro exI [of _ c']) (simp only: fold_simps simp_thms)
qed simp

end

lemma restore_spent:
  assumes "distinct (map prevout vin)" "\<forall>i \<in> set vin. u (prevout i) \<noteq> None"
  shows "utxo_spend vin u ++ map_of (map (map_prod prevout id) (rev (zip vin (map (\<lambda>i. the (u (prevout i))) vin)))) = u"
proof
  fix p
  let ?xs = "map (map_prod prevout id) (rev (zip vin (map (\<lambda>i. the (u (prevout i))) vin)))"
  have xs: "?xs = rev (map (\<lambda>i. (prevout i, the (u (prevout i)))) vin)"
    by (simp add: zip_map2 zip_same_conv_map rev_map comp_def)
  have "map fst ?xs = rev (map prevout vin)" by (simp add: xs rev_map comp_def)
  then have d: "distinct (map fst ?xs)" using assms(1) by simp
  show "(utxo_spend vin u ++ map_of ?xs) p = u p"
  proof (cases "p \<in> prevout ` set vin")
    case True
    then obtain i where i: "i \<in> set vin" "p = prevout i" by blast
    then have "(p, the (u p)) \<in> set ?xs" by (simp add: xs)
    then have "map_of ?xs p = Some (the (u p))" using d by simp
    moreover obtain y where "u p = Some y" using i assms(2) by auto
    ultimately show ?thesis by (simp add: map_add_def)
  next
    case False
    then have "map_of ?xs p = None" by (auto simp: xs map_of_eq_None_iff)
    with False show ?thesis by (simp add: map_add_def utxo_spend_def)
  qed
qed

context coins_view
begin

theorem disconnect_tx_view:
  assumes "cache_inv A I c" "tx_applies cr u tx" "utxo_ok u" "\<forall>p coin. u p = Some coin \<longrightarrow> \<not> IsSpent coin"
    and "0 \<le> h" "h < 2 ^ 31" "cache_abs A c = utxo_connect cr h tx u"
  shows "\<exists>c'. disconnect_tx cr ops opts h k tx (if IsCoinBase tx then None else Some (spent_coins u tx)) ix (fClean, c)
      = Inr (if fClean then DISCONNECT_OK else DISCONNECT_UNCLEAN,
             undo_tx_index cr opts h (k, tx, if IsCoinBase tx then None else Some (spent_coins u tx)) ix, c')
    \<and> cache_inv A I c' \<and> cache_abs A c' = u \<and> cv_hashBlock c' = cv_hashBlock c"
proof -
  let ?txid = "GetHash cr tx" and ?cb = "IsCoinBase tx"
  let ?v = "if ?cb then u else utxo_spend (tx_vin tx) u"
  have len: "0 + length (tx_vout tx) \<le> 2 ^ 32" using assms(2) by (simp add: tx_applies_def)
  have fresh: "\<forall>j < length (tx_vout tx). ?v (outpoint ?txid (0 + j)) = None"
    using assms(2) by (simp add: tx_applies_def utxo_spend_def)
  have "\<forall>j < length (tx_vout tx). spendable_out (tx_vout tx ! j) \<longrightarrow>
      cache_abs A c (outpoint ?txid (0 + j)) = Some (make_Coin (tx_vout tx ! j) h ?cb)"
    using utxo_add_at [OF len] by (simp add: assms(7) utxo_connect_def)
  from disconnect_outputs [OF assms(1) len assms(5,6) this, of fClean]
  obtain c1 where c1: "disconnect_outputs ops ?txid h ?cb (tx_vout tx) 0 (fClean, c) = (fClean, c1)" "cache_inv A I c1"
    "cache_abs A c1 = ?v" "cv_hashBlock c1 = cv_hashBlock c"
    unfolding assms(7) utxo_connect_def utxo_remove_add [OF fresh, of h ?cb] by blast
  show ?thesis
  proof (cases ?cb)
    case True
    with c1 show ?thesis by (simp add: disconnect_tx_def undo_tx_index_def)
  next
    case False
    let ?coins = "map (\<lambda>i. the (u (prevout i))) (tx_vin tx)"
    let ?ix = "if fAddressIndex opts then disconnect_outputs_index cr h k ?txid (tx_vout tx) ix else ix"
    define xs where "xs = rev (zip [0..<length ?coins] (zip (tx_vin tx) ?coins))"
    from False assms(2) have vin: "distinct (map prevout (tx_vin tx))" "\<forall>i \<in> set (tx_vin tx). u (prevout i) \<noteq> None"
      by (simp_all add: tx_applies_def)
    have "map snd (zip [0..<length ?coins] (zip (tx_vin tx) ?coins)) = zip (tx_vin tx) ?coins" by (rule map_snd_zip) simp
    then have z: "map snd xs = rev (zip (tx_vin tx) ?coins)" by (simp only: xs_def rev_map [symmetric])
    have z2: "map snd xs = rev (map (\<lambda>i. (i, the (u (prevout i)))) (tx_vin tx))" by (simp add: z zip_map2 zip_same_conv_map)
    have m: "map (f \<circ> snd) xs = map f (map snd xs)" for f :: "CTxIn \<times> Coin \<Rightarrow> 'c" by simp
    have "map (prevout \<circ> fst \<circ> snd) xs = rev (map prevout (tx_vin tx))" by (simp only: m [of "prevout \<circ> fst"] z2) (simp add: rev_map comp_def)
    then have d: "distinct (map (prevout \<circ> fst \<circ> snd) xs)" using vin(1) by simp
    have "\<forall>(i, coin) \<in> set (map snd xs). cache_abs A c1 (prevout i) = None \<and> \<not> IsSpent coin \<and> spendable_out (coin_out coin) \<and> coin_nHeight coin \<noteq> 0"
      unfolding z2 using vin(2) assms(3,4) False by (auto simp: c1(3) utxo_spend_def utxo_ok_def)
    then have all: "\<forall>(j, i, coin) \<in> set xs. cache_abs A c1 (prevout i) = None \<and> \<not> IsSpent coin \<and> spendable_out (coin_out coin) \<and> coin_nHeight coin \<noteq> 0"
      by (force simp: image_iff)
    from disconnect_inputs [OF c1(2) d all, of cr opts h k ?txid ?ix fClean]
    obtain c2 where c2: "disconnect_inputs cr ops opts h k ?txid xs ?ix (fClean, c1)
        = Inr (if fClean then DISCONNECT_OK else DISCONNECT_UNCLEAN, fold (undo_input_index cr opts h k ?txid) xs ?ix, c2)"
      "cache_inv A I c2" "cache_abs A c2 = cache_abs A c1 ++ map_of (map (map_prod prevout id \<circ> snd) xs)" "cv_hashBlock c2 = cv_hashBlock c1"
      by blast
    have "cache_abs A c2 = u" using restore_spent [OF vin] by (simp only: c2(3) c1(3) m [of "map_prod prevout id"] z if_not_P [OF False])
    moreover have "rev (zip [0..<length (tx_vin tx)] (zip (tx_vin tx) ?coins)) = xs" by (simp add: xs_def)
    then have "disconnect_tx cr ops opts h k tx (Some ?coins) ix (fClean, c) = disconnect_inputs cr ops opts h k ?txid xs ?ix (fClean, c1)"
      "undo_tx_index cr opts h (k, tx, Some ?coins) ix = fold (undo_input_index cr opts h k ?txid) xs ?ix"
      using c1(1) by (simp_all add: disconnect_tx_def undo_tx_index_def Let_def)
    ultimately show ?thesis using False c1(4) c2(1,2,4) by (simp add: spent_coins_def)
  qed
qed

end

section \<open>Money\<close>

definition coin_value :: "Coin option \<Rightarrow> CAmount" where
  "coin_value c = (case c of None \<Rightarrow> 0 | Some c \<Rightarrow> nValue (coin_out c))"

definition utxo_total :: "utxo \<Rightarrow> CAmount" where
  "utxo_total u = (\<Sum>p \<in> dom u. coin_value (u p))"

lemma utxo_total_upd:
  assumes "finite (dom u)"
  shows "utxo_total (u(p := x)) = utxo_total u - coin_value (u p) + coin_value x"
proof -
  have rest: "(\<Sum>q \<in> dom u - {p}. coin_value ((u(p := x)) q)) = (\<Sum>q \<in> dom u - {p}. coin_value (u q))"
    by (rule sum.cong) auto
  have u: "utxo_total u = coin_value (u p) + (\<Sum>q \<in> dom u - {p}. coin_value (u q))"
  proof (cases "p \<in> dom u")
    case True
    then show ?thesis using assms by (simp add: utxo_total_def sum.remove)
  next
    case False
    then have "u p = None" by blast
    with False show ?thesis by (simp add: utxo_total_def coin_value_def)
  qed
  have "utxo_total (u(p := x)) = coin_value x + (\<Sum>q \<in> dom u - {p}. coin_value ((u(p := x)) q))"
  proof (cases x)
    case (Some c)
    then have "dom (u(p := x)) = insert p (dom u - {p})" by auto
    then have "utxo_total (u(p := x)) = (\<Sum>q \<in> insert p (dom u - {p}). coin_value ((u(p := x)) q))"
      by (simp only: utxo_total_def)
    also have "\<dots> = coin_value ((u(p := x)) p) + (\<Sum>q \<in> dom u - {p}. coin_value ((u(p := x)) q))"
      by (rule sum.insert) (use assms in auto)
    finally show ?thesis by simp
  qed (auto simp: utxo_total_def coin_value_def)
  with rest u show ?thesis by simp
qed

lemma finite_utxo_spend: "finite (dom u) \<Longrightarrow> finite (dom (utxo_spend vin u))"
  by (erule rev_finite_subset) (auto simp: utxo_spend_def split: if_splits)

lemma utxo_spend_Cons: "utxo_spend (i # vin) u = (utxo_spend vin u)(prevout i := None)"
  by (auto simp: utxo_spend_def)

lemma utxo_total_spend:
  "finite (dom u) \<Longrightarrow> distinct (map prevout vin) \<Longrightarrow>
    utxo_total (utxo_spend vin u) = utxo_total u - sum_list (map (input_value u) vin)"
proof (induction vin)
  case Nil
  then show ?case by (simp add: utxo_spend_def)
next
  case (Cons i vin)
  then have "utxo_spend vin u (prevout i) = u (prevout i)" by (simp add: utxo_spend_def)
  moreover have "coin_value (u (prevout i)) = input_value u i" by (simp add: coin_value_def input_value_def)
  moreover have "utxo_total (utxo_spend (i # vin) u) = utxo_total (utxo_spend vin u) - coin_value (utxo_spend vin u (prevout i))"
    unfolding utxo_spend_Cons utxo_total_upd [OF finite_utxo_spend [OF Cons.prems(1)]] by (simp add: coin_value_def)
  ultimately show ?case using Cons by simp
qed

lemma utxo_add_total:
  "finite (dom u) \<Longrightarrow> i + length vout \<le> 2 ^ 32 \<Longrightarrow> \<forall>j < length vout. u (outpoint txid (i + j)) = None \<Longrightarrow>
    \<forall>out \<in> set vout. 0 \<le> nValue out \<Longrightarrow>
    finite (dom (utxo_add txid h cb vout i u)) \<and>
    utxo_total (utxo_add txid h cb vout i u) \<le> utxo_total u + sum_list (map nValue vout)"
proof (induction vout arbitrary: i u)
  case (Cons out vout)
  let ?u = "if spendable_out out then u(outpoint txid i \<mapsto> make_Coin out h cb) else u"
  have fresh: "u (outpoint txid i) = None" "\<forall>j < length vout. u (outpoint txid (Suc i + j)) = None"
    using Cons.prems(3) [rule_format, of 0] Cons.prems(3) [rule_format, of "Suc j" for j] by simp_all
  have "outpoint txid (Suc i + j) \<noteq> outpoint txid i" if "j < length vout" for j
    using outpoint_inj [of "Suc i + j" i txid] Cons.prems(2) that by simp
  then have "\<forall>j < length vout. ?u (outpoint txid (Suc i + j)) = None" using fresh(2) by simp
  then have ih: "finite (dom (utxo_add txid h cb vout (Suc i) ?u)) \<and>
      utxo_total (utxo_add txid h cb vout (Suc i) ?u) \<le> utxo_total ?u + sum_list (map nValue vout)"
    using Cons.prems by (intro Cons.IH) auto
  have "utxo_total ?u \<le> utxo_total u + nValue out"
    using utxo_total_upd [OF Cons.prems(1), of "outpoint txid i" "Some (make_Coin out h cb)"] fresh(1) Cons.prems(4)
    by (simp add: coin_value_def)
  with ih show ?case by simp
qed simp

text \<open>Connecting keeps the set finite and creates no more than the outputs are worth.\<close>

lemma utxo_connect_total:
  assumes "finite (dom u)" "tx_applies cr u tx" "\<forall>out \<in> set (tx_vout tx). 0 \<le> nValue out"
  shows "finite (dom (utxo_connect cr h tx u))"
    and "utxo_total (utxo_connect cr h tx u) \<le>
      utxo_total u - (if IsCoinBase tx then 0 else inputs_value u tx) + sum_list (map nValue (tx_vout tx))"
proof -
  let ?v = "if IsCoinBase tx then u else utxo_spend (tx_vin tx) u"
  have v: "finite (dom ?v)" "utxo_total ?v = utxo_total u - (if IsCoinBase tx then 0 else inputs_value u tx)"
    using assms(1,2) utxo_total_spend [of u "tx_vin tx"] finite_utxo_spend [of u "tx_vin tx"]
    by (auto simp: tx_applies_def inputs_value_def)
  have "\<forall>j < length (tx_vout tx). ?v (outpoint (GetHash cr tx) (0 + j)) = None" "0 + length (tx_vout tx) \<le> 2 ^ 32"
    using assms(2) by (simp_all add: tx_applies_def utxo_spend_def)
  from utxo_add_total [OF v(1) this(2,1) assms(3), of h "IsCoinBase tx"] v(2)
  show "finite (dom (utxo_connect cr h tx u))" "utxo_total (utxo_connect cr h tx u) \<le>
      utxo_total u - (if IsCoinBase tx then 0 else inputs_value u tx) + sum_list (map nValue (tx_vout tx))"
    by (simp_all add: utxo_connect_def)
qed

text \<open>The coins stay well-formed.\<close>

lemma utxo_ok_upd:
  "utxo_ok u \<Longrightarrow> spendable_out (coin_out c) \<Longrightarrow> coin_nHeight c \<noteq> 0 \<Longrightarrow> utxo_ok (u(p \<mapsto> c))"
  unfolding utxo_ok_def by (metis fun_upd_apply option.inject)

lemma utxo_add_ok: "0 < h \<Longrightarrow> h < 2 ^ 31 \<Longrightarrow> utxo_ok u \<Longrightarrow> utxo_ok (utxo_add txid h cb vout i u)"
  by (induction vout arbitrary: i u) (simp_all add: utxo_ok_upd)

lemma utxo_spend_ok: "utxo_ok u \<Longrightarrow> utxo_ok (utxo_spend vin u)"
  by (auto simp: utxo_ok_def utxo_spend_def split: if_splits)

lemma utxo_connect_ok: "0 < h \<Longrightarrow> h < 2 ^ 31 \<Longrightarrow> utxo_ok u \<Longrightarrow> utxo_ok (utxo_connect cr h tx u)"
  by (simp add: utxo_connect_def utxo_add_ok utxo_spend_ok)

section \<open>Blocks\<close>

text \<open>A list of transactions with their undo data that leads from one set of unspent outputs to another.\<close>

inductive connected :: "crypto \<Rightarrow> int \<Rightarrow> utxo \<Rightarrow> (CTransaction \<times> Coin list option) list \<Rightarrow> utxo \<Rightarrow> bool" for cr h u where
  connected_Nil: "connected cr h u [] u"
| connected_snoc: "connected cr h u xs v \<Longrightarrow> tx_applies cr v tx \<Longrightarrow>
    connected cr h u (xs @ [(tx, if IsCoinBase tx then None else Some (spent_coins v tx))]) (utxo_connect cr h tx v)"

lemma connected_ok: "connected cr h u xs v \<Longrightarrow> 0 < h \<Longrightarrow> h < 2 ^ 31 \<Longrightarrow> utxo_ok u \<Longrightarrow> utxo_ok v"
  by (induction rule: connected.induct) (simp_all add: utxo_connect_ok)

lemma utxo_add_unspent:
  "\<forall>p c. u p = Some c \<longrightarrow> \<not> IsSpent c \<Longrightarrow> \<forall>out \<in> set vout. \<not> CTxOut_IsNull out \<Longrightarrow>
    utxo_add txid h cb vout i u p = Some c \<Longrightarrow> \<not> IsSpent c"
proof (induction vout arbitrary: i u)
  case (Cons out vout)
  have "\<forall>p c. (if spendable_out out then u(outpoint txid i \<mapsto> make_Coin out h cb) else u) p = Some c \<longrightarrow> \<not> IsSpent c"
    using Cons.prems(1,2) by auto
  from Cons.IH [OF this, of "Suc i"] Cons.prems(2,3) show ?case by simp
qed auto

lemma connected_unspent:
  "connected cr h u xs v \<Longrightarrow> \<forall>p c. u p = Some c \<longrightarrow> \<not> IsSpent c \<Longrightarrow> \<forall>p c. v p = Some c \<longrightarrow> \<not> IsSpent c"
proof (induction rule: connected.induct)
  case (connected_snoc xs v tx)
  then have v: "\<forall>p c. (if IsCoinBase tx then v else utxo_spend (tx_vin tx) v) p = Some c \<longrightarrow> \<not> IsSpent c"
    by (auto simp: utxo_spend_def split: if_splits)
  show ?case using utxo_add_unspent [OF v] connected_snoc(2) by (auto simp: utxo_connect_def tx_applies_def)
qed simp

context coins_view
begin

lemma disconnect_loop:
  assumes "connected cr h u xs v" "utxo_ok u" "\<forall>p coin. u p = Some coin \<longrightarrow> \<not> IsSpent coin" "0 < h" "h < 2 ^ 31"
  shows "cache_inv A I c \<Longrightarrow> cache_abs A c = v \<Longrightarrow>
    \<exists>c'. disconnect_loop cr ops opts h (rev (numbered xs)) ix (fClean, c)
        = Inr (if fClean then DISCONNECT_OK else DISCONNECT_UNCLEAN, fold (undo_tx_index cr opts h) (rev (numbered xs)) ix, c')
      \<and> cache_inv A I c' \<and> cache_abs A c' = u \<and> cv_hashBlock c' = cv_hashBlock c"
  using assms(1)
proof (induction arbitrary: c ix rule: connected.induct)
  case (connected_snoc xs v tx)
  let ?x = "(tx, if IsCoinBase tx then None else Some (spent_coins v tx))"
  note v = connected_ok [OF connected_snoc(1) assms(4,5,2)] connected_unspent [OF connected_snoc(1) assms(3)]
  obtain c1 where c1: "disconnect_tx cr ops opts h (length xs) tx (snd ?x) ix (fClean, c)
      = Inr (if fClean then DISCONNECT_OK else DISCONNECT_UNCLEAN, undo_tx_index cr opts h (length xs, ?x) ix, c1)"
    "cache_inv A I c1" "cache_abs A c1 = v" "cv_hashBlock c1 = cv_hashBlock c"
    using disconnect_tx_view [OF connected_snoc(4,2) v _ assms(5) connected_snoc(5), of opts "length xs" ix fClean] assms(4) by auto
  have n: "rev (numbered (xs @ [?x])) = (length xs, ?x) # rev (numbered xs)" by simp
  have "disconnect_loop cr ops opts h (rev (numbered (xs @ [?x]))) ix (fClean, c)
      = disconnect_loop cr ops opts h (rev (numbered xs)) (undo_tx_index cr opts h (length xs, ?x) ix) (fClean, c1)"
    unfolding n using c1(1) by simp
  with connected_snoc(3) [OF c1(2,3), of "undo_tx_index cr opts h (length xs, ?x) ix"] c1(4) show ?case
    unfolding n by simp
qed simp

end

end
