(* ===== verification/Merkle.thy ===== *)
theory Merkle
  imports SigHash
begin

text \<open>
  Merkle trees: \<open>ComputeMerkleRoot\<close> of \<^verbatim>\<open>consensus/merkle.cpp\<close> and the partial trees of \<^verbatim>\<open>merkleblock.{h,cpp}\<close> that prove
  to a light client which transactions a block holds.  The lemmas show that an unmutated root determines the hashes
  as long as the hash function has no collision among the strings that are hashed, that a partial tree gives back
  what was put into it, and that a partial tree with the right root cannot prove a transaction that is not there.
\<close>

unbundle bit_operations_syntax

section \<open>The root\<close>

text \<open>\<open>SHA256D64\<close> hashes each block of 64 bytes, here a pair of hashes, twice.\<close>

fun merkle_pairs :: "crypto \<Rightarrow> uint256 list \<Rightarrow> uint256 list" where
  "merkle_pairs cr (a # b # hashes) = Hash256 cr (a @ b) # merkle_pairs cr hashes"
| "merkle_pairs cr hashes = []"

fun equal_pair :: "uint256 list \<Rightarrow> bool" where
  "equal_pair (a # b # hashes) \<longleftrightarrow> a = b \<or> equal_pair hashes"
| "equal_pair hashes \<longleftrightarrow> False"

definition pad_even :: "uint256 list \<Rightarrow> uint256 list" where
  "pad_even hashes = (if odd (length hashes) then hashes @ [last hashes] else hashes)"

lemma length_merkle_pairs: "length (merkle_pairs cr hashes) = length hashes div 2"
  by (induction cr hashes rule: merkle_pairs.induct) simp_all

function merkle_loop :: "crypto \<Rightarrow> uint256 list \<Rightarrow> bool \<Rightarrow> uint256 \<times> bool" where
  "merkle_loop cr hashes mutation =
     (if length hashes > 1
      then merkle_loop cr (merkle_pairs cr (pad_even hashes)) (mutation \<or> equal_pair hashes)
      else (if hashes = [] then null_hash else hashes ! 0, mutation))"
  by pat_completeness auto

termination
proof (relation "measure (\<lambda>(cr, hashes, _). length hashes)")
  fix cr :: crypto and hashes :: "uint256 list" and mutation :: bool
  assume "1 < length hashes"
  then have "length (pad_even hashes) div 2 < length hashes" by (simp add: pad_even_def) presburger
  then show "((cr, merkle_pairs cr (pad_even hashes), mutation \<or> equal_pair hashes), cr, hashes, mutation)
      \<in> measure (\<lambda>(cr, hashes, _). length hashes)"
    by (simp add: length_merkle_pairs)
qed simp

declare merkle_loop.simps [simp del]

text \<open>The root and the flag.\<close>

definition ComputeMerkleRoot :: "crypto \<Rightarrow> uint256 list \<Rightarrow> uint256 \<times> bool" where
  "ComputeMerkleRoot cr hashes = merkle_loop cr hashes False"

definition BlockMerkleRoot :: "crypto \<Rightarrow> CTransaction list \<Rightarrow> uint256 \<times> bool" where
  "BlockMerkleRoot cr vtx = ComputeMerkleRoot cr (map (GetHash cr) vtx)"

section \<open>Partial trees\<close>

definition BitsToBytes :: "bool list \<Rightarrow> bytes" where
  "BitsToBytes bits =
     fold (\<lambda>p ret. ret[p div 8 := ret ! (p div 8) OR push_bit (p mod 8) (if bits ! p then 1 else 0)])
       [0..<length bits] (replicate ((length bits + 7) div 8) 0)"

definition BytesToBits :: "bytes \<Rightarrow> bool list" where
  "BytesToBits bs = map (\<lambda>p. bs ! (p div 8) AND push_bit (p mod 8) 1 \<noteq> 0) [0..<length bs * 8]"

record CPartialMerkleTree =
  nTransactions :: nat
  vBits :: "bool list"
  vHash :: "uint256 list"
  fBad :: bool

definition CalcTreeWidth :: "nat \<Rightarrow> nat \<Rightarrow> nat" where
  "CalcTreeWidth n height = (n + 2 ^ height - 1) div 2 ^ height"

text \<open>\<open>None\<close>: a failing assertion, or an index outside the vector.\<close>

primrec CalcHash :: "crypto \<Rightarrow> nat \<Rightarrow> uint256 list \<Rightarrow> nat \<Rightarrow> nat \<Rightarrow> uint256 option" where
  "CalcHash cr n vTxid 0 pos = (if pos < length vTxid then Some (vTxid ! pos) else None)"
| "CalcHash cr n vTxid (Suc height) pos =
     (case CalcHash cr n vTxid height (pos * 2) of
        None \<Rightarrow> None
      | Some left \<Rightarrow>
          (case (if pos * 2 + 1 < CalcTreeWidth n height then CalcHash cr n vTxid height (pos * 2 + 1) else Some left) of
             None \<Rightarrow> None
           | Some right \<Rightarrow> Some (Hash256 cr (left @ right))))"

text \<open>The bits and hashes a subtree adds; \<open>None\<close> as before.\<close>

definition parent_of_match :: "nat \<Rightarrow> bool list \<Rightarrow> nat \<Rightarrow> nat \<Rightarrow> bool" where
  "parent_of_match n vMatch height pos = list_ex (\<lambda>p. vMatch ! p) [pos * 2 ^ height..<min ((pos + 1) * 2 ^ height) n]"

primrec TraverseAndBuild :: "crypto \<Rightarrow> nat \<Rightarrow> uint256 list \<Rightarrow> bool list \<Rightarrow> nat \<Rightarrow> nat \<Rightarrow> (bool list \<times> uint256 list) option" where
  "TraverseAndBuild cr n vTxid vMatch 0 pos =
     map_option (\<lambda>h. ([parent_of_match n vMatch 0 pos], [h])) (CalcHash cr n vTxid 0 pos)"
| "TraverseAndBuild cr n vTxid vMatch (Suc height) pos =
     (if \<not> parent_of_match n vMatch (Suc height) pos
      then map_option (\<lambda>h. ([False], [h])) (CalcHash cr n vTxid (Suc height) pos)
      else case TraverseAndBuild cr n vTxid vMatch height (pos * 2) of
             None \<Rightarrow> None
           | Some (bl, hl) \<Rightarrow>
               (case (if pos * 2 + 1 < CalcTreeWidth n height
                      then TraverseAndBuild cr n vTxid vMatch height (pos * 2 + 1) else Some ([], [])) of
                  None \<Rightarrow> None
                | Some (br, hr) \<Rightarrow> Some (True # bl @ br, hl @ hr)))"

text \<open>The state of the extraction: bits and hashes used, the matches with their positions, and the failure flag.\<close>

record extract_state =
  nBitsUsed :: nat
  nHashUsed :: nat
  ex_vMatch :: "uint256 list"
  ex_vnIndex :: "nat list"
  ex_fBad :: bool

definition take_hash :: "CPartialMerkleTree \<Rightarrow> bool \<Rightarrow> nat \<Rightarrow> extract_state \<Rightarrow> uint256 \<times> extract_state" where
  "take_hash t matched pos s =
     (if nHashUsed s \<ge> length (vHash t) then (null_hash, s\<lparr>ex_fBad := True\<rparr>)
      else let hash = vHash t ! nHashUsed s; s1 = s\<lparr>nHashUsed := nHashUsed s + 1\<rparr>
           in (hash, if matched then s1\<lparr>ex_vMatch := ex_vMatch s1 @ [hash], ex_vnIndex := ex_vnIndex s1 @ [pos]\<rparr> else s1))"

primrec TraverseAndExtract :: "crypto \<Rightarrow> CPartialMerkleTree \<Rightarrow> nat \<Rightarrow> nat \<Rightarrow> extract_state \<Rightarrow> uint256 \<times> extract_state" where
  "TraverseAndExtract cr t 0 pos s =
     (if nBitsUsed s \<ge> length (vBits t) then (null_hash, s\<lparr>ex_fBad := True\<rparr>)
      else take_hash t (vBits t ! nBitsUsed s) pos (s\<lparr>nBitsUsed := nBitsUsed s + 1\<rparr>))"
| "TraverseAndExtract cr t (Suc height) pos s =
     (if nBitsUsed s \<ge> length (vBits t) then (null_hash, s\<lparr>ex_fBad := True\<rparr>)
      else let fParentOfMatch = vBits t ! nBitsUsed s; s0 = s\<lparr>nBitsUsed := nBitsUsed s + 1\<rparr>
           in if \<not> fParentOfMatch then take_hash t False pos s0
              else case TraverseAndExtract cr t height (pos * 2) s0 of (left, s1) \<Rightarrow>
                     (case (if pos * 2 + 1 < CalcTreeWidth (nTransactions t) height
                            then case TraverseAndExtract cr t height (pos * 2 + 1) s1 of (right, s2) \<Rightarrow>
                                   (right, if right = left then s2\<lparr>ex_fBad := True\<rparr> else s2)
                            else (left, s1)) of
                        (right, s2) \<Rightarrow> (Hash256 cr (left @ right), s2)))"

text \<open>The height of the tree: the loop from \<open>height\<close> on.\<close>

function tree_height :: "nat \<Rightarrow> nat \<Rightarrow> nat" where
  "tree_height n height = (if CalcTreeWidth n height > 1 then tree_height n (Suc height) else height)"
  by pat_completeness auto

termination
proof (relation "measure (\<lambda>(n, height). n - 2 ^ height)")
  fix n height :: nat
  assume "1 < CalcTreeWidth n height"
  then have "2 * 2 ^ height \<le> n + 2 ^ height - 1"
    by (simp add: CalcTreeWidth_def less_eq_div_iff_mult_less_eq Suc_le_eq [symmetric])
  moreover have "(0::nat) < 2 ^ height" by simp
  ultimately have "2 ^ height < n" by linarith
  then show "((n, Suc height), n, height) \<in> measure (\<lambda>(n, height). n - 2 ^ height)"
    by (simp add: diff_less_mono2)
qed simp

declare tree_height.simps [simp del]

definition make_CPartialMerkleTree :: "crypto \<Rightarrow> uint256 list \<Rightarrow> bool list \<Rightarrow> CPartialMerkleTree option" where
  "make_CPartialMerkleTree cr vTxid vMatch =
     (let n = length vTxid
      in map_option (\<lambda>(bits, hashes). \<lparr>nTransactions = n, vBits = bits, vHash = hashes, fBad = False\<rparr>)
           (TraverseAndBuild cr n vTxid vMatch (tree_height n 0) 0))"

text \<open>The limit is \<open>MaxBlockSize() / 60\<close>.\<close>

definition MAX_MERKLE_TXS :: nat where
  "MAX_MERKLE_TXS = 2000000 div 60"

definition ExtractMatches :: "crypto \<Rightarrow> CPartialMerkleTree \<Rightarrow> uint256 \<times> uint256 list \<times> nat list" where
  "ExtractMatches cr t =
     (if nTransactions t = 0 then (null_hash, [], [])
      else if nTransactions t > MAX_MERKLE_TXS then (null_hash, [], [])
      else if length (vHash t) > nTransactions t then (null_hash, [], [])
      else if length (vBits t) < length (vHash t) then (null_hash, [], [])
      else case TraverseAndExtract cr t (tree_height (nTransactions t) 0) 0
                  \<lparr>nBitsUsed = 0, nHashUsed = 0, ex_vMatch = [], ex_vnIndex = [], ex_fBad = fBad t\<rparr> of (root, s) \<Rightarrow>
             (if ex_fBad s \<or> (nBitsUsed s + 7) div 8 \<noteq> (length (vBits t) + 7) div 8 \<or> nHashUsed s \<noteq> length (vHash t)
              then null_hash else root, ex_vMatch s, ex_vnIndex s))"

text \<open>The encoding of a partial tree.\<close>

definition Serialize_CPartialMerkleTree :: "CPartialMerkleTree \<Rightarrow> bytes" where
  "Serialize_CPartialMerkleTree t =
     ser_writedata32 (word_of_nat (nTransactions t)) @ Vector_Ser Serialize_uint256 (vHash t) @ Serialize_bytes (BitsToBytes (vBits t))"

definition Unserialize_CPartialMerkleTree :: "CPartialMerkleTree reader" where
  "Unserialize_CPartialMerkleTree =
     rbind ser_readdata32 (\<lambda>n. rbind (Vector_Unser Unserialize_uint256) (\<lambda>hashes. rbind Unserialize_bytes (\<lambda>bs.
       rreturn \<lparr>nTransactions = unat n, vBits = BytesToBits bs, vHash = hashes, fBad = False\<rparr>)))"

section \<open>The root determines the hashes\<close>

definition level :: "crypto \<Rightarrow> uint256 list \<Rightarrow> uint256 list" where
  "level cr hs = merkle_pairs cr (pad_even hs)"

fun pair_inputs :: "uint256 list \<Rightarrow> bytes list" where
  "pair_inputs (a # b # hs) = (a @ b) # pair_inputs hs"
| "pair_inputs hs = []"

lemma length_pad_even: "length (pad_even hs) = 2 * ((length hs + 1) div 2)"
  by (simp add: pad_even_def)

lemma length_level: "length (level cr hs) = (length hs + 1) div 2"
  by (simp add: level_def length_merkle_pairs length_pad_even)

text \<open>The strings that are hashed in the computation of a root.\<close>

function merkle_inputs :: "crypto \<Rightarrow> uint256 list \<Rightarrow> bytes list" where
  "merkle_inputs cr hs =
     (if length hs > 1 then pair_inputs (pad_even hs) @ merkle_inputs cr (level cr hs) else [])"
  by pat_completeness auto

termination
  by (relation "measure (\<lambda>(cr, hs). length hs)") (simp_all add: length_level)

declare merkle_inputs.simps [simp del]

lemma merkle_pairs_inputs: "merkle_pairs cr hs = map (Hash256 cr) (pair_inputs hs)"
  by (induction cr hs rule: merkle_pairs.induct) simp_all

lemma level_inputs: "level cr hs = map (Hash256 cr) (pair_inputs (pad_even hs))"
  by (simp add: level_def merkle_pairs_inputs)

text \<open>An unmutated tree of a given depth over the hashes.\<close>

fun tree_of :: "crypto \<Rightarrow> nat \<Rightarrow> uint256 list \<Rightarrow> uint256 \<Rightarrow> bool" where
  "tree_of cr 0 hs r \<longleftrightarrow> hs = [r]"
| "tree_of cr (Suc d) hs r \<longleftrightarrow> length hs > 1 \<and> \<not> equal_pair hs \<and> tree_of cr d (level cr hs) r"

lemma merkle_loop_True: "m \<Longrightarrow> snd (merkle_loop cr hs m)"
proof (induction cr hs m rule: merkle_loop.induct)
  case (1 cr hs m)
  then show ?case by (subst merkle_loop.simps) simp
qed

lemma merkle_loop_tree:
  "merkle_loop cr hs m = (r, False) \<Longrightarrow> hs \<noteq> [] \<Longrightarrow> \<exists>d. tree_of cr d hs r"
proof (induction cr hs m rule: merkle_loop.induct)
  case (1 cr hs m)
  show ?case
  proof (cases "length hs > 1")
    case True
    with 1(2) have l: "merkle_loop cr (level cr hs) (m \<or> equal_pair hs) = (r, False)"
      by (simp add: merkle_loop.simps [of cr hs] level_def)
    have "level cr hs \<noteq> []" using True length_level [of cr hs] by (cases "level cr hs") auto
    with 1(1) [OF True] l obtain d where d: "tree_of cr d (level cr hs) r" by (auto simp: level_def)
    have "\<not> equal_pair hs" using merkle_loop_True [of True cr "level cr hs"] l by (cases "equal_pair hs") auto
    with d True show ?thesis by (intro exI [of _ "Suc d"]) simp
  next
    case False
    with 1(2,3) have "tree_of cr 0 hs r" by (cases hs) (auto simp: merkle_loop.simps [of cr "[a]" for a])
    then show ?thesis by blast
  qed
qed

lemma pair_inputs_inject:
  "pair_inputs xs = pair_inputs ys \<Longrightarrow> even (length xs) \<Longrightarrow> even (length ys) \<Longrightarrow>
    \<forall>h \<in> set xs \<union> set ys. length h = n \<Longrightarrow> xs = ys"
proof (induction xs arbitrary: ys rule: pair_inputs.induct)
  case (1 a b hs)
  then obtain c d ks where ys: "ys = c # d # ks" by (cases ys rule: pair_inputs.cases) auto
  with 1 show ?case by auto
next
  case "2_1"
  then show ?case by (cases ys rule: pair_inputs.cases) auto
qed simp

lemma equal_pair_append: "even (length xs) \<Longrightarrow> equal_pair (xs @ [a, a])"
  by (induction xs rule: equal_pair.induct) auto

lemma pad_even_inject:
  assumes "pad_even xs = pad_even ys" "\<not> equal_pair xs" "\<not> equal_pair ys" "xs \<noteq> []" "ys \<noteq> []"
  shows "xs = ys"
proof -
  have dup: "equal_pair (zs @ [last zs])" if o: "odd (length zs)" for zs :: "uint256 list"
  proof -
    obtain ws w where "zs = ws @ [w]" by (cases zs rule: rev_cases) (use o in auto)
    with o equal_pair_append [of ws w] show ?thesis by simp
  qed
  show ?thesis using assms dup [of xs] dup [of ys] by (auto simp: pad_even_def split: if_splits)
qed

lemma even_pad_even [simp]: "even (length (pad_even hs))"
  by (simp add: length_pad_even)

lemma set_pad_even: "hs \<noteq> [] \<Longrightarrow> set (pad_even hs) = set hs"
  by (auto simp: pad_even_def)

lemma tree_of_nonempty: "tree_of cr d hs r \<Longrightarrow> hs \<noteq> []"
  by (cases d) auto

lemma tree_of_inject:
  assumes sha: "\<And>x. length (SHA256 cr x) = 32"
  shows "tree_of cr d hs r \<Longrightarrow> tree_of cr d ks r \<Longrightarrow> inj_on (Hash256 cr) (set (merkle_inputs cr hs) \<union> set (merkle_inputs cr ks)) \<Longrightarrow>
    \<forall>h \<in> set hs \<union> set ks. length h = 32 \<Longrightarrow> hs = ks"
proof (induction d arbitrary: hs ks)
  case (Suc d)
  have l: "length hs > 1" "length ks > 1" "\<not> equal_pair hs" "\<not> equal_pair ks" "hs \<noteq> []" "ks \<noteq> []" using Suc.prems by auto
  then have sub: "merkle_inputs cr hs = pair_inputs (pad_even hs) @ merkle_inputs cr (level cr hs)"
    "merkle_inputs cr ks = pair_inputs (pad_even ks) @ merkle_inputs cr (level cr ks)"
    by (simp_all add: merkle_inputs.simps [of cr hs] merkle_inputs.simps [of cr ks])
  have "level cr hs = level cr ks"
  proof (rule Suc.IH)
    show "inj_on (Hash256 cr) (set (merkle_inputs cr (level cr hs)) \<union> set (merkle_inputs cr (level cr ks)))"
      by (rule inj_on_subset [OF Suc.prems(3)]) (auto simp: sub)
  qed (use Suc.prems sha in \<open>auto simp: level_inputs Hash256_def\<close>)
  then have "pair_inputs (pad_even hs) = pair_inputs (pad_even ks)"
    unfolding level_inputs by (rule map_inj_on) (rule inj_on_subset [OF Suc.prems(3)], auto simp: sub)
  then have "pad_even hs = pad_even ks"
    by (rule pair_inputs_inject [OF _ even_pad_even even_pad_even, where n = 32])
       (unfold set_pad_even [OF l(5)] set_pad_even [OF l(6)], rule Suc.prems(4))
  with pad_even_inject l show ?case by blast
qed simp

lemma tree_of_lower:
  "tree_of cr (k + d) hs r \<Longrightarrow> tree_of cr d ((level cr ^^ k) hs) r \<and> set (merkle_inputs cr ((level cr ^^ k) hs)) \<subseteq> set (merkle_inputs cr hs)
    \<and> (k > 0 \<longrightarrow> set ((level cr ^^ k) hs) \<subseteq> Hash256 cr ` set (merkle_inputs cr hs))"
proof (induction k arbitrary: hs)
  case (Suc k)
  then have l: "length hs > 1" "tree_of cr (k + d) (level cr hs) r" by simp_all
  then have sub: "merkle_inputs cr hs = pair_inputs (pad_even hs) @ merkle_inputs cr (level cr hs)"
    by (simp add: merkle_inputs.simps [of cr hs])
  have one: "set (level cr hs) \<subseteq> Hash256 cr ` set (merkle_inputs cr hs)" by (auto simp: level_inputs sub)
  from Suc.IH [OF l(2)] show ?case
    by (cases "k = 0") (use one in \<open>auto simp: sub funpow_Suc_right simp del: funpow.simps\<close>)
qed simp

lemma deeper_tree:
  assumes "\<And>x. length (SHA256 cr x) = 32" "tree_of cr d hs r" "tree_of cr (Suc k + d) ks r"
    and "inj_on (Hash256 cr) (set (merkle_inputs cr hs) \<union> set (merkle_inputs cr ks))" "\<forall>h \<in> set hs. length h = 32"
  shows "set hs \<inter> Hash256 cr ` set (merkle_inputs cr ks) \<noteq> {}"
proof -
  let ?ks = "(level cr ^^ Suc k) ks"
  have ks: "tree_of cr d ?ks r" "set (merkle_inputs cr ?ks) \<subseteq> set (merkle_inputs cr ks)"
    "set ?ks \<subseteq> Hash256 cr ` set (merkle_inputs cr ks)"
    using tree_of_lower [OF assms(3)] by simp_all
  have "inj_on (Hash256 cr) (set (merkle_inputs cr hs) \<union> set (merkle_inputs cr ?ks))"
    by (rule inj_on_subset [OF assms(4)]) (use ks(2) in blast)
  moreover have "\<forall>h \<in> set hs \<union> set ?ks. length h = 32"
    using assms(1,5) ks(3) by (auto simp: Hash256_def)
  ultimately have "hs = ?ks" using tree_of_inject [OF assms(1,2) ks(1)] by blast
  with ks(3) tree_of_nonempty [OF assms(2)] show ?thesis by (metis Int_absorb2 set_empty)
qed

text \<open>
  The Merkle root of a block commits to its transactions: if two lists of hashes have the same root and neither
  is flagged as mutated, then they are equal, provided that double SHA-256 does not collide on the pairs
  that are hashed for the two roots and that no transaction hash is at the same time the hash of such a pair.
\<close>

theorem merkle_root_binding:
  assumes "\<forall>x. length (SHA256 cr x) = 32" "hs \<noteq> []" "ks \<noteq> []" "\<forall>h \<in> set hs \<union> set ks. length h = 32"
    and "ComputeMerkleRoot cr hs = (root, False)" "ComputeMerkleRoot cr ks = (root, False)"
    and inj: "inj_on (Hash256 cr) (set (merkle_inputs cr hs) \<union> set (merkle_inputs cr ks))"
    and "set hs \<inter> Hash256 cr ` set (merkle_inputs cr ks) = {}" "set ks \<inter> Hash256 cr ` set (merkle_inputs cr hs) = {}"
  shows "hs = ks"
proof -
  obtain d e where t: "tree_of cr d hs root" "tree_of cr e ks root"
    using merkle_loop_tree [of cr hs False root] merkle_loop_tree [of cr ks False root] assms(2,3,5,6)
    by (auto simp: ComputeMerkleRoot_def)
  have s: "\<And>x. length (SHA256 cr x) = 32" using assms(1) by simp
  show ?thesis
  proof (cases d e rule: linorder_cases)
    case equal
    with tree_of_inject [OF s t(1) _ inj assms(4)] t(2) show ?thesis by blast
  next
    case less
    then obtain k where "e = Suc k + d" by (auto dest: less_imp_Suc_add)
    with deeper_tree [OF s t(1) _ inj] t(2) assms(4,8) show ?thesis by blast
  next
    case greater
    then obtain k where "d = Suc k + e" by (auto dest: less_imp_Suc_add)
    moreover from inj have "inj_on (Hash256 cr) (set (merkle_inputs cr ks) \<union> set (merkle_inputs cr hs))"
      by (simp only: Un_commute)
    ultimately show ?thesis using deeper_tree [OF s t(2)] t(1) assms(4,9) by blast
  qed
qed

text \<open>A stand-in for the hash functions, for examples only.\<close>

definition sum_hash :: "nat \<Rightarrow> bytes \<Rightarrow> bytes" where
  "sum_hash n x = map (\<lambda>i. word_of_nat i + (if i < length x then x ! i else 0) + 3 * (if i + n < length x then x ! (i + n) else 0)) [0..<n]"

definition sum_crypto :: crypto where
  "sum_crypto = \<lparr>RIPEMD160 = sum_hash 20, SHA1 = sum_hash 20, SHA256 = sum_hash 32,
     PubKey_Verify = (\<lambda>_ _ _. True), PubKey_VerifySchnorr = (\<lambda>_ _ _. True), PubKey_CheckLowS = (\<lambda>_. True)\<rparr>"

lemma merkle_inputs_pair: "merkle_inputs cr [a, b] = [a @ b]"
  by (simp add: merkle_inputs.simps [of cr "[a, b]"] pad_even_def level_def merkle_inputs.simps [of cr "[x]" for x])

lemma ComputeMerkleRoot_pair: "ComputeMerkleRoot cr [a, b] = (Hash256 cr (a @ b), a = b)"
  by (simp add: ComputeMerkleRoot_def merkle_loop.simps [of cr "[a, b]"] pad_even_def merkle_loop.simps [of cr "[x]" for x])

theorem merkle_root_binding_witness:
  "fst (ComputeMerkleRoot sum_crypto [replicate 32 1, replicate 32 2]) \<noteq> fst (ComputeMerkleRoot sum_crypto [replicate 32 1, replicate 32 3])"
proof
  let ?a = "replicate 32 (1 :: byte)" and ?b = "replicate 32 (2 :: byte)" and ?c = "replicate 32 (3 :: byte)"
  assume "fst (ComputeMerkleRoot sum_crypto [?a, ?b]) = fst (ComputeMerkleRoot sum_crypto [?a, ?c])"
  moreover have "Hash256 sum_crypto (?a @ ?b) \<noteq> Hash256 sum_crypto (?a @ ?c)" by code_simp
  moreover have "?a \<notin> {Hash256 sum_crypto (?a @ ?b), Hash256 sum_crypto (?a @ ?c)}" by code_simp
  moreover have "?b \<notin> {Hash256 sum_crypto (?a @ ?b), Hash256 sum_crypto (?a @ ?c)}" by code_simp
  moreover have "?c \<notin> {Hash256 sum_crypto (?a @ ?b), Hash256 sum_crypto (?a @ ?c)}" by code_simp
  moreover have "?a \<noteq> ?b" "?a \<noteq> ?c" "?b \<noteq> ?c" by simp_all
  moreover have "\<forall>x. length (SHA256 sum_crypto x) = 32" by (simp add: sum_crypto_def sum_hash_def)
  ultimately have "[?a, ?b] = [?a, ?c]"
    by (intro merkle_root_binding [of sum_crypto _ _ "Hash256 sum_crypto (?a @ ?b)"])
       (simp_all add: merkle_inputs_pair ComputeMerkleRoot_pair)
  then show False by simp
qed

section \<open>The levels of the tree\<close>

lemma CalcTreeWidth_0 [simp]: "CalcTreeWidth n 0 = n"
  by (simp add: CalcTreeWidth_def)

lemma CalcTreeWidth_Suc: "CalcTreeWidth n (Suc h) = (CalcTreeWidth n h + 1) div 2"
proof -
  have "n + 2 ^ Suc h - 1 = (n + 2 ^ h - 1) + 2 ^ h" by simp
  then have "CalcTreeWidth n (Suc h) = ((n + 2 ^ h - 1) + 2 ^ h) div (2 ^ h * 2)"
    by (simp only: CalcTreeWidth_def power_Suc mult.commute)
  also have "\<dots> = ((n + 2 ^ h - 1) + 2 ^ h) div 2 ^ h div 2" by (rule div_mult2_eq)
  also have "((n + 2 ^ h - 1) + 2 ^ h) div 2 ^ h = (n + 2 ^ h - 1) div 2 ^ h + 1" by (rule div_add_self2) simp
  finally show ?thesis by (simp only: CalcTreeWidth_def)
qed

lemma length_levels: "length ((level cr ^^ h) hs) = CalcTreeWidth (length hs) h"
  by (induction h) (simp_all add: length_level CalcTreeWidth_Suc)

lemma nth_merkle_pairs:
  "i < length hs div 2 \<Longrightarrow> merkle_pairs cr hs ! i = Hash256 cr (hs ! (i * 2) @ hs ! (i * 2 + 1))"
proof (induction cr hs arbitrary: i rule: merkle_pairs.induct)
  case (1 cr a b hs)
  then show ?case by (cases i) simp_all
qed simp_all

lemma nth_pad_even:
  assumes "i < (length hs + 1) div 2"
  shows "pad_even hs ! (i * 2) = hs ! (i * 2)"
    and "pad_even hs ! (i * 2 + 1) = hs ! (if i * 2 + 1 < length hs then i * 2 + 1 else i * 2)"
proof -
  have "i * 2 < length hs" using assms by presburger
  then show "pad_even hs ! (i * 2) = hs ! (i * 2)" by (simp add: pad_even_def nth_append)
  show "pad_even hs ! (i * 2 + 1) = hs ! (if i * 2 + 1 < length hs then i * 2 + 1 else i * 2)"
  proof (cases "i * 2 + 1 < length hs")
    case True
    then show ?thesis by (simp add: pad_even_def nth_append)
  next
    case False
    with assms have l: "length hs = i * 2 + 1" by presburger
    then have "hs \<noteq> []" by auto
    with l show ?thesis by (simp add: pad_even_def nth_append last_conv_nth)
  qed
qed

lemma nth_level:
  assumes "i < (length hs + 1) div 2"
  shows "level cr hs ! i = Hash256 cr (hs ! (i * 2) @ hs ! (if i * 2 + 1 < length hs then i * 2 + 1 else i * 2))"
  using assms nth_merkle_pairs [of i "pad_even hs" cr]
  by (simp only: level_def length_pad_even nth_pad_even [OF assms])

lemma nth_levels:
  assumes "pos < CalcTreeWidth (length hs) (Suc h)"
  shows "(level cr ^^ Suc h) hs ! pos =
    Hash256 cr ((level cr ^^ h) hs ! (pos * 2) @
      (level cr ^^ h) hs ! (if pos * 2 + 1 < CalcTreeWidth (length hs) h then pos * 2 + 1 else pos * 2))"
  using assms nth_level [of pos "(level cr ^^ h) hs" cr] by (simp add: length_levels CalcTreeWidth_Suc)

lemma left_child: "pos < CalcTreeWidth n (Suc h) \<Longrightarrow> pos * 2 < CalcTreeWidth n h"
  by (simp add: CalcTreeWidth_Suc)

text \<open>\<open>CalcHash\<close> computes the nodes of the tree whose root \<open>ComputeMerkleRoot\<close> returns.\<close>

lemma CalcHash_level:
  "pos < CalcTreeWidth (length hs) h \<Longrightarrow> CalcHash cr (length hs) hs h pos = Some ((level cr ^^ h) hs ! pos)"
proof (induction h arbitrary: pos)
  case (Suc h)
  note l = Suc.IH [OF left_child [OF Suc.prems]]
  show ?case
  proof (cases "pos * 2 + 1 < CalcTreeWidth (length hs) h")
    case True
    with l Suc.IH [OF True] nth_levels [OF Suc.prems, of cr] show ?thesis by simp
  next
    case False
    with l nth_levels [OF Suc.prems, of cr] show ?thesis by simp
  qed
qed simp

lemma equal_pair_nth: "\<not> equal_pair hs \<Longrightarrow> i * 2 + 1 < length hs \<Longrightarrow> hs ! (i * 2) \<noteq> hs ! (i * 2 + 1)"
proof (induction hs arbitrary: i rule: equal_pair.induct)
  case (1 a b hs)
  then show ?case by (cases i) auto
qed simp_all

text \<open>An unmutated tree: its height is the one the partial tree uses, and no two siblings are equal.\<close>

lemma tree_of_levels:
  "tree_of cr d ((level cr ^^ h) hs) r \<Longrightarrow>
    tree_height (length hs) h = h + d \<and> (level cr ^^ (h + d)) hs = [r] \<and>
    (\<forall>k. h \<le> k \<and> k < h + d \<longrightarrow> \<not> equal_pair ((level cr ^^ k) hs))"
proof (induction d arbitrary: h)
  case 0
  then have "CalcTreeWidth (length hs) h = 1" by (metis One_nat_def length_Cons length_levels list.size(3) tree_of.simps(1))
  with 0 show ?case by (auto simp: tree_height.simps [of _ h])
next
  case (Suc d)
  then have w: "CalcTreeWidth (length hs) h > 1" and n: "\<not> equal_pair ((level cr ^^ h) hs)"
    by (simp_all add: length_levels)
  from Suc.prems have "tree_of cr d ((level cr ^^ Suc h) hs) r" by simp
  from Suc.IH [OF this] w n show ?case
    by (auto simp: tree_height.simps [of _ h] simp del: funpow.simps) (metis Suc_leI le_neq_implies_less)
qed

section \<open>The leaves below a node\<close>

definition leaves :: "nat \<Rightarrow> nat \<Rightarrow> nat \<Rightarrow> nat list" where
  "leaves n h pos = [pos * 2 ^ h..<min ((pos + 1) * 2 ^ h) n]"

lemma CalcTreeWidth_less: "pos < CalcTreeWidth n h \<longleftrightarrow> pos * 2 ^ h < n"
proof -
  have "pos < CalcTreeWidth n h \<longleftrightarrow> Suc pos * 2 ^ h \<le> n + 2 ^ h - 1"
    by (simp add: Suc_le_eq [symmetric] CalcTreeWidth_def less_eq_div_iff_mult_less_eq)
  also have "\<dots> \<longleftrightarrow> pos * 2 ^ h < n" using zero_less_power [of "2 :: nat" h] by (simp, linarith)
  finally show ?thesis .
qed

lemma leaves_0: "pos < n \<Longrightarrow> leaves n 0 pos = [pos]"
  by (simp add: leaves_def min_def)

lemma upt_append_between: "i \<le> j \<Longrightarrow> j \<le> k \<Longrightarrow> [i..<k] = [i..<j] @ [j..<k]"
  using upt_add_eq_append [of i j "k - j"] by simp

lemma leaves_Suc:
  "pos < CalcTreeWidth n (Suc h) \<Longrightarrow>
    leaves n (Suc h) pos = leaves n h (pos * 2) @ (if pos * 2 + 1 < CalcTreeWidth n h then leaves n h (pos * 2 + 1) else [])"
proof -
  assume p: "pos < CalcTreeWidth n (Suc h)"
  define m :: nat where "m = 2 ^ h"
  have l: "pos * 2 * m < n" using left_child [OF p] by (simp add: CalcTreeWidth_less m_def)
  show ?thesis
  proof (cases "pos * 2 + 1 < CalcTreeWidth n h")
    case True
    then have r: "(pos * 2 + 1) * m < n" by (simp only: CalcTreeWidth_less m_def)
    have "[pos * 2 * m..<min ((pos * 2 + 2) * m) n] =
      [pos * 2 * m..<(pos * 2 + 1) * m] @ [(pos * 2 + 1) * m..<min ((pos * 2 + 2) * m) n]"
      using r by (intro upt_append_between) (auto simp: algebra_simps)
    with True r show ?thesis by (simp add: leaves_def m_def [symmetric] min_def algebra_simps)
  next
    case False
    then have "n \<le> (pos * 2 + 1) * m" by (simp only: CalcTreeWidth_less m_def not_less)
    with False show ?thesis by (simp add: leaves_def m_def [symmetric] min_def algebra_simps)
  qed
qed

lemma parent_of_match_leaves: "parent_of_match n vMatch h pos \<longleftrightarrow> (\<exists>p \<in> set (leaves n h pos). vMatch ! p)"
  by (simp add: parent_of_match_def leaves_def list_ex_iff)


lemma leaves_nonempty: "pos < CalcTreeWidth n h \<Longrightarrow> leaves n h pos \<noteq> []"
  using zero_less_power [of "2 :: nat" h] by (simp add: leaves_def CalcTreeWidth_less min_def)

section \<open>Partial trees give back what was put into them\<close>

lemma TraverseAndBuild_total:
  "pos < CalcTreeWidth (length hs) h \<Longrightarrow>
    \<exists>bs ks. TraverseAndBuild cr (length hs) hs vMatch h pos = Some (bs, ks) \<and>
      length ks \<le> length (leaves (length hs) h pos) \<and> length ks \<le> length bs"
proof (induction h arbitrary: pos)
  case 0
  then show ?case by (simp add: leaves_0)
next
  case (Suc h)
  let ?n = "length hs"
  note c = CalcHash_level [OF Suc.prems, of cr] and l = leaves_Suc [OF Suc.prems]
  have ne: "length (leaves ?n (Suc h) pos) \<ge> 1" using leaves_nonempty [OF Suc.prems] by (simp add: Suc_le_eq)
  from Suc.IH [OF left_child [OF Suc.prems]] obtain bl kl where
    L: "TraverseAndBuild cr ?n hs vMatch h (pos * 2) = Some (bl, kl)"
      "length kl \<le> length (leaves ?n h (pos * 2))" "length kl \<le> length bl" by blast
  have "\<exists>br kr. (if pos * 2 + 1 < CalcTreeWidth ?n h then TraverseAndBuild cr ?n hs vMatch h (pos * 2 + 1) else Some ([], [])) = Some (br, kr) \<and>
      length kr \<le> length (if pos * 2 + 1 < CalcTreeWidth ?n h then leaves ?n h (pos * 2 + 1) else []) \<and> length kr \<le> length br"
    using Suc.IH [of "pos * 2 + 1"] by auto
  then obtain br kr where
    R: "(if pos * 2 + 1 < CalcTreeWidth ?n h then TraverseAndBuild cr ?n hs vMatch h (pos * 2 + 1) else Some ([], [])) = Some (br, kr)"
      "length kr \<le> length (if pos * 2 + 1 < CalcTreeWidth ?n h then leaves ?n h (pos * 2 + 1) else [])" "length kr \<le> length br" by blast
  show ?case
  proof (cases "parent_of_match ?n vMatch (Suc h) pos")
    case True
    moreover have "length (kl @ kr) \<le> length (leaves ?n (Suc h) pos)" using L(2) R(2) unfolding l by simp
    ultimately show ?thesis using L R by (simp del: CalcHash.simps if_split)
  next
    case False
    with c ne show ?thesis by (simp del: CalcHash.simps)
  qed
qed

definition matches :: "bool list \<Rightarrow> nat \<Rightarrow> nat \<Rightarrow> nat \<Rightarrow> nat list" where
  "matches vMatch n h pos = filter (\<lambda>p. vMatch ! p) (leaves n h pos)"

definition found :: "uint256 list \<Rightarrow> nat list \<Rightarrow> nat \<Rightarrow> nat \<Rightarrow> extract_state \<Rightarrow> extract_state" where
  "found hs ps b k s = s\<lparr>nBitsUsed := nBitsUsed s + b, nHashUsed := nHashUsed s + k,
     ex_vMatch := ex_vMatch s @ map (\<lambda>p. hs ! p) ps, ex_vnIndex := ex_vnIndex s @ ps\<rparr>"

lemma found_found: "found hs qs c l (found hs ps b k s) = found hs (ps @ qs) (b + c) (k + l) s"
  by (simp add: found_def)

lemma drop_ConsD: "drop n xs = y # ys \<Longrightarrow> n < length xs \<and> xs ! n = y \<and> drop (Suc n) xs = ys"
  by (metis Cons_nth_drop_Suc drop_all linorder_not_less list.distinct(1) list.inject)

lemma drop_appendD: "drop n xs = ys @ zs \<Longrightarrow> drop (n + length ys) xs = zs"
  by (metis add.commute append_eq_conv_conj drop_drop)

lemma matches_Suc:
  "pos < CalcTreeWidth n (Suc h) \<Longrightarrow> matches vMatch n (Suc h) pos =
    matches vMatch n h (pos * 2) @ (if pos * 2 + 1 < CalcTreeWidth n h then matches vMatch n h (pos * 2 + 1) else [])"
  by (simp add: matches_def leaves_Suc)

lemma no_matches: "\<not> parent_of_match n vMatch h pos \<Longrightarrow> matches vMatch n h pos = []"
  by (simp add: matches_def parent_of_match_leaves)

lemma TraverseAndBuild_parent:
  assumes "TraverseAndBuild cr n hs vMatch (Suc h) pos = Some (bs, ks)" "parent_of_match n vMatch (Suc h) pos"
  obtains bl kl br kr where "TraverseAndBuild cr n hs vMatch h (pos * 2) = Some (bl, kl)"
    "(if pos * 2 + 1 < CalcTreeWidth n h then TraverseAndBuild cr n hs vMatch h (pos * 2 + 1) else Some ([], [])) = Some (br, kr)"
    "bs = True # bl @ br" "ks = kl @ kr"
  using assms by (simp split: option.splits prod.splits del: if_split)

lemma TraverseAndExtract_build:
  assumes "nTransactions t = length hs"
  shows "pos < CalcTreeWidth (length hs) h \<Longrightarrow> \<forall>k<h. \<not> equal_pair ((level cr ^^ k) hs) \<Longrightarrow>
    TraverseAndBuild cr (length hs) hs vMatch h pos = Some (bs, ks) \<Longrightarrow>
    drop (nBitsUsed s) (vBits t) = bs @ B \<Longrightarrow> drop (nHashUsed s) (vHash t) = ks @ K \<Longrightarrow>
    TraverseAndExtract cr t h pos s =
      ((level cr ^^ h) hs ! pos, found hs (matches vMatch (length hs) h pos) (length bs) (length ks) s)"
proof (induction h arbitrary: pos bs ks B K s)
  case 0
  from 0(1,3) have "bs = [parent_of_match (length hs) vMatch 0 pos]" "ks = [hs ! pos]" by auto
  with 0 drop_ConsD [of "nBitsUsed s" "vBits t"] drop_ConsD [of "nHashUsed s" "vHash t"] show ?case
    by (simp add: take_hash_def found_def matches_def leaves_0 parent_of_match_leaves Let_def)
next
  case (Suc h)
  let ?n = "length hs" and ?s = "s\<lparr>nBitsUsed := nBitsUsed s + 1\<rparr>"
  show ?case
  proof (cases "parent_of_match ?n vMatch (Suc h) pos")
    case False
    with Suc.prems(3) CalcHash_level [OF Suc.prems(1), of cr] have "bs = [False]" "ks = [(level cr ^^ Suc h) hs ! pos]"
      by (auto simp del: CalcHash.simps)
    with Suc.prems(4,5) drop_ConsD [of "nBitsUsed s" "vBits t" False] drop_ConsD [of "nHashUsed s" "vHash t"] show ?thesis
      by (simp add: take_hash_def found_def no_matches [OF False] Let_def)
  next
    case True
    obtain bl kl br kr where
      L: "TraverseAndBuild cr ?n hs vMatch h (pos * 2) = Some (bl, kl)" and
      R: "(if pos * 2 + 1 < CalcTreeWidth ?n h then TraverseAndBuild cr ?n hs vMatch h (pos * 2 + 1) else Some ([], [])) = Some (br, kr)" and
      b: "bs = True # bl @ br" "ks = kl @ kr"
      by (rule TraverseAndBuild_parent [OF Suc.prems(3) True])
    have d: "nBitsUsed s < length (vBits t)" "vBits t ! nBitsUsed s" "drop (nBitsUsed ?s) (vBits t) = bl @ br @ B"
      "drop (nHashUsed ?s) (vHash t) = kl @ kr @ K"
      using drop_ConsD [of "nBitsUsed s" "vBits t" True "bl @ br @ B"] Suc.prems(4,5) b by simp_all
    have ne: "\<forall>k<h. \<not> equal_pair ((level cr ^^ k) hs)" using Suc.prems(2) by simp
    note E = Suc.IH [OF left_child [OF Suc.prems(1)] ne L d(3,4)]
    let ?s1 = "found hs (matches vMatch ?n h (pos * 2)) (length bl) (length kl) ?s"
    have d1: "drop (nBitsUsed ?s1) (vBits t) = br @ B" "drop (nHashUsed ?s1) (vHash t) = kr @ K"
      using drop_appendD [OF d(3)] drop_appendD [OF d(4)] by (simp_all add: found_def)
    show ?thesis
    proof (cases "pos * 2 + 1 < CalcTreeWidth ?n h")
      case r: True
      have q: "(level cr ^^ h) hs ! (pos * 2) \<noteq> (level cr ^^ h) hs ! (pos * 2 + 1)"
        using equal_pair_nth [of "(level cr ^^ h) hs" pos] Suc.prems(2) r by (simp add: length_levels)
      from R r have R': "TraverseAndBuild cr ?n hs vMatch h (pos * 2 + 1) = Some (br, kr)" by simp
      from Suc.IH [OF r ne R' d1] d(1,2) E r q show ?thesis
        using nth_levels [OF Suc.prems(1), of cr]
        by (simp add: assms found_found matches_Suc [OF Suc.prems(1)] b del: funpow.simps) (simp add: found_def)
    next
      case r: False
      with R have "br = []" "kr = []" by simp_all
      with d(1,2) E r show ?thesis using nth_levels [OF Suc.prems(1), of cr]
        by (simp add: assms matches_Suc [OF Suc.prems(1)] b del: funpow.simps) (simp add: found_def)
    qed
  qed
qed

lemma levels_length:
  assumes "\<And>x. length (SHA256 cr x) = 32" "\<forall>h \<in> set hs. length h = 32"
  shows "\<forall>i < length ((level cr ^^ k) hs). length ((level cr ^^ k) hs ! i) = 32"
  using assms by (cases k) (simp_all add: level_inputs Hash256_def)

lemma BytesToBits_written:
  "BytesToBits (BitsToBytes bits) = bits @ replicate (8 * ((length bits + 7) div 8) - length bits) False"
proof (rule nth_equalityI)
  let ?k = "(length bits + 7) div 8"
  have B: "BitsToBytes bits = fold (put_bit bits) [0..<length bits] (replicate ?k 0)"
    by (simp add: BitsToBytes_def put_bit_def [abs_def])
  then have l: "length (BitsToBytes bits) = ?k" by (simp add: length_put_bits)
  have k: "length bits \<le> 8 * ?k" by auto
  then show "length (BytesToBits (BitsToBytes bits)) = length (bits @ replicate (8 * ?k - length bits) False)"
    by (simp add: BytesToBits_def l)
  fix p assume "p < length (BytesToBits (BitsToBytes bits))"
  then have p: "p < ?k * 8" by (simp add: BytesToBits_def l)
  then have "BytesToBits (BitsToBytes bits) ! p \<longleftrightarrow> bit (BitsToBytes bits ! (p div 8)) (p mod 8)"
    unfolding bit_iff_and_push_bit_not_eq_0 BytesToBits_def l by simp
  also have "\<dots> \<longleftrightarrow> p < length bits \<and> bits ! p"
    using bit_put_bits [OF k, of "p div 8" "p mod 8" bits] p by (simp add: B less_mult_imp_div_less)
  finally show "BytesToBits (BitsToBytes bits) ! p = (bits @ replicate (8 * ?k - length bits) False) ! p"
    using p by (simp add: nth_append) 
qed

lemma TraverseAndBuild_bits:
  "TraverseAndBuild cr n hs vMatch h pos = Some (bs, ks) \<Longrightarrow> length bs < 2 ^ Suc h"
proof (induction h arbitrary: pos bs ks)
  case (Suc h)
  have t: "(2 :: nat) ^ Suc (Suc h) = 2 ^ Suc h + 2 ^ Suc h" by simp
  have o: "(1 :: nat) < 2 ^ Suc (Suc h)" "(0 :: nat) < 2 ^ Suc h" by (rule one_less_power) simp_all
  show ?case
  proof (cases "parent_of_match n vMatch (Suc h) pos")
    case False
    with Suc.prems o show ?thesis by (auto simp del: CalcHash.simps)
  next
    case True
    obtain bl kl br kr where b: "TraverseAndBuild cr n hs vMatch h (pos * 2) = Some (bl, kl)"
      "(if pos * 2 + 1 < CalcTreeWidth n h then TraverseAndBuild cr n hs vMatch h (pos * 2 + 1) else Some ([], [])) = Some (br, kr)"
      "bs = True # bl @ br" by (rule TraverseAndBuild_parent [OF Suc.prems True])
    from Suc.IH [OF b(1)] Suc.IH [of "pos * 2 + 1" br kr] b(2,3) o(2) show ?thesis
      unfolding t by (auto split: if_splits)
  qed
qed auto

lemma tree_height_bound: "2 ^ tree_height n h \<le> max (2 ^ h) (2 * n)"
proof (induction n h rule: tree_height.induct)
  case (1 n h)
  show ?case
  proof (cases "CalcTreeWidth n h > 1")
    case True
    then have "2 ^ h < n" by (simp add: CalcTreeWidth_less)
    with 1 [OF True] True show ?thesis by (simp add: tree_height.simps [of n h] max_def split: if_splits)
  qed (simp add: tree_height.simps [of n h])
qed

lemma TraverseAndBuild_hash_length:
  assumes "\<And>x. length (SHA256 cr x) = 32" "\<forall>h \<in> set hs. length h = 32"
  shows "pos < CalcTreeWidth (length hs) h \<Longrightarrow> TraverseAndBuild cr (length hs) hs vMatch h pos = Some (bs, ks) \<Longrightarrow>
    k \<in> set ks \<Longrightarrow> length k = 32"
proof (induction h arbitrary: pos bs ks)
  case 0
  then show ?case using assms by auto
next
  case (Suc h)
  show ?case
  proof (cases "parent_of_match (length hs) vMatch (Suc h) pos")
    case False
    with Suc.prems CalcHash_level [OF Suc.prems(1), of cr] have "k = (level cr ^^ Suc h) hs ! pos"
      by (auto simp del: CalcHash.simps funpow.simps)
    with levels_length [OF assms, of "Suc h"] Suc.prems(1) show ?thesis by (simp only: length_levels)
  next
    case True
    obtain bl kl br kr where b: "TraverseAndBuild cr (length hs) hs vMatch h (pos * 2) = Some (bl, kl)"
      "(if pos * 2 + 1 < CalcTreeWidth (length hs) h then TraverseAndBuild cr (length hs) hs vMatch h (pos * 2 + 1) else Some ([], [])) = Some (br, kr)"
      "ks = kl @ kr" by (rule TraverseAndBuild_parent [OF Suc.prems(2) True])
    from Suc.prems(3) b(3) consider "k \<in> set kl" | "k \<in> set kr" by auto
    then show ?thesis
    proof cases
      case 1
      from Suc.IH [OF left_child [OF Suc.prems(1)] b(1) 1] show ?thesis .
    next
      case 2
      with Suc.IH [of "pos * 2 + 1" br kr] b(2) show ?thesis by (auto split: if_splits)
    qed
  qed
qed

lemma Unserialize_CPartialMerkleTree_written:
  assumes "nTransactions t < 2 ^ 32" "length (vHash t) \<le> MAX_SIZE" "\<forall>h \<in> set (vHash t). length h = 32" "length (vBits t) \<le> MAX_SIZE" "\<not> fBad t"
  shows "Unserialize_CPartialMerkleTree (Serialize_CPartialMerkleTree t @ r) =
    Inr (t\<lparr>vBits := vBits t @ replicate (8 * ((length (vBits t) + 7) div 8) - length (vBits t)) False\<rparr>, r)"
proof -
  have "length (BitsToBytes (vBits t)) = (length (vBits t) + 7) div 8"
    using length_put_bits [of "vBits t" "[0..<length (vBits t)]"] by (simp add: BitsToBytes_def put_bit_def [abs_def])
  then have b: "length (BitsToBytes (vBits t)) \<le> MAX_SIZE" using assms(4) by (simp add: MAX_SIZE_def)
  have h: "rbind (Vector_Unser Unserialize_uint256) f (Vector_Ser Serialize_uint256 (vHash t) @ s) = f (vHash t) s" for f s
    by (rule rbind_Inr) (rule uint256.vector_read_back [OF assms(2,3)])
  have n: "unat (word_of_nat (nTransactions t) :: u32) = nTransactions t"
    using assms(1) by (simp add: unat_of_nat take_bit_nat_eq_self)
  show ?thesis using assms(5)
    by (simp add: Unserialize_CPartialMerkleTree_def Serialize_CPartialMerkleTree_def int32.bind_back h
        byte_vector.bind_back [OF b] BytesToBits_written n reader_simps)
qed

lemma ExtractMatches_build:
  assumes "ComputeMerkleRoot cr vTxid = (root, False)" "vTxid \<noteq> []" "length vTxid \<le> MAX_MERKLE_TXS"
    "\<And>x. length (SHA256 cr x) = 32" "\<forall>h \<in> set vTxid. length h = 32"
  obtains bs ks where
    "make_CPartialMerkleTree cr vTxid vMatch = Some \<lparr>nTransactions = length vTxid, vBits = bs, vHash = ks, fBad = False\<rparr>"
    "length bs < 4 * length vTxid" "length ks \<le> length vTxid" "\<forall>k \<in> set ks. length k = 32"
    "\<And>B. (length bs + 7) div 8 = (length (bs @ B) + 7) div 8 \<Longrightarrow>
      ExtractMatches cr \<lparr>nTransactions = length vTxid, vBits = bs @ B, vHash = ks, fBad = False\<rparr> =
      (root, map (\<lambda>p. vTxid ! p) (filter (\<lambda>p. vMatch ! p) [0..<length vTxid]), filter (\<lambda>p. vMatch ! p) [0..<length vTxid])"
proof -
  let ?n = "length vTxid" and ?h = "tree_height (length vTxid) 0"
  obtain d where "tree_of cr d vTxid root"
    using merkle_loop_tree [of cr vTxid False root] assms(1,2) by (auto simp: ComputeMerkleRoot_def)
  then have h: "(level cr ^^ ?h) vTxid = [root]" "\<forall>k<?h. \<not> equal_pair ((level cr ^^ k) vTxid)"
    using tree_of_levels [where cr = cr and h = 0 and hs = vTxid and r = root and d = d] by auto
  have w: "CalcTreeWidth ?n ?h = 1" using length_levels [where cr = cr and h = ?h and hs = vTxid] h(1) by simp
  then have l: "leaves ?n ?h 0 = [0..<?n]"
    using CalcTreeWidth_less [of 1 ?n ?h] by (simp add: leaves_def min_def)
  have z: "0 < CalcTreeWidth ?n ?h" using w by simp
  from TraverseAndBuild_total [OF z, where cr = cr and vMatch = vMatch] l obtain bs ks where
    b: "TraverseAndBuild cr ?n vTxid vMatch ?h 0 = Some (bs, ks)" "length ks \<le> ?n" "length ks \<le> length bs" by auto
  let ?t = "\<lambda>B. \<lparr>nTransactions = ?n, vBits = bs @ B, vHash = ks, fBad = False\<rparr>"
  show ?thesis
  proof (rule that [of bs ks])
    have "length bs < 2 * 2 ^ ?h" using TraverseAndBuild_bits [OF b(1)] by simp
    also have "\<dots> \<le> 2 * max 1 (2 * ?n)" using tree_height_bound [of ?n 0] by simp
    also have "\<dots> = 4 * ?n" using assms(2) by (cases vTxid) auto
    finally show "length bs < 4 * ?n" .
    show "\<forall>k \<in> set ks. length k = 32" using TraverseAndBuild_hash_length [OF assms(4,5) z b(1)] by blast
  next
    fix B assume B: "(length bs + 7) div 8 = (length (bs @ B) + 7) div 8"
    let ?s = "\<lparr>nBitsUsed = 0, nHashUsed = 0, ex_vMatch = [], ex_vnIndex = [], ex_fBad = fBad (?t B)\<rparr>"
    have "TraverseAndExtract cr (?t B) ?h 0 ?s =
      ((level cr ^^ ?h) vTxid ! 0, found vTxid (matches vMatch ?n ?h 0) (length bs) (length ks) ?s)"
      by (rule TraverseAndExtract_build [OF _ z h(2) b(1), where B = B and K = "[]"]) simp_all
    then show "ExtractMatches cr (?t B) =
      (root, map (\<lambda>p. vTxid ! p) (filter (\<lambda>p. vMatch ! p) [0..<?n]), filter (\<lambda>p. vMatch ! p) [0..<?n])"
      using assms(2,3) b(2,3) h(1) B by (simp add: ExtractMatches_def found_def matches_def l)
  qed (simp_all add: make_CPartialMerkleTree_def b)
qed

text \<open>
  C34: A light client gets what was put into a partial tree: for a block whose root is unmutated and whose
  transactions fit, building the tree never fails, the encoding is read back, and extracting from
  what was read (whose bits are padded to whole bytes) returns the root of the block, the matched transaction
  ids in the order of the block, and their positions.
\<close>

theorem ExtractMatches_transmitted:
  assumes "ComputeMerkleRoot cr vTxid = (root, False)" "vTxid \<noteq> []" "length vTxid \<le> MAX_MERKLE_TXS"
    and "\<forall>x. length (SHA256 cr x) = 32" "\<forall>h \<in> set vTxid. length h = 32"
  shows "\<exists>t t'. make_CPartialMerkleTree cr vTxid vMatch = Some t \<and>
    Unserialize_CPartialMerkleTree (Serialize_CPartialMerkleTree t @ rest) = Inr (t', rest) \<and>
    ExtractMatches cr t' =
      (root, map (\<lambda>p. vTxid ! p) (filter (\<lambda>p. vMatch ! p) [0..<length vTxid]), filter (\<lambda>p. vMatch ! p) [0..<length vTxid])"
proof -
  have "\<And>x. length (SHA256 cr x) = 32" using assms(4) by simp
  from ExtractMatches_build [OF assms(1-3) this assms(5), of vMatch] obtain bs ks where
    b: "make_CPartialMerkleTree cr vTxid vMatch = Some \<lparr>nTransactions = length vTxid, vBits = bs, vHash = ks, fBad = False\<rparr>"
      "length bs < 4 * length vTxid" "length ks \<le> length vTxid" "\<forall>k \<in> set ks. length k = 32"
    and e: "\<And>B. (length bs + 7) div 8 = (length (bs @ B) + 7) div 8 \<Longrightarrow>
      ExtractMatches cr \<lparr>nTransactions = length vTxid, vBits = bs @ B, vHash = ks, fBad = False\<rparr> =
      (root, map (\<lambda>p. vTxid ! p) (filter (\<lambda>p. vMatch ! p) [0..<length vTxid]), filter (\<lambda>p. vMatch ! p) [0..<length vTxid])"
    by metis
  let ?t = "\<lparr>nTransactions = length vTxid, vBits = bs, vHash = ks, fBad = False\<rparr>"
    and ?B = "replicate (8 * ((length bs + 7) div 8) - length bs) False"
  have "Unserialize_CPartialMerkleTree (Serialize_CPartialMerkleTree ?t @ rest) =
      Inr (\<lparr>nTransactions = length vTxid, vBits = bs @ ?B, vHash = ks, fBad = False\<rparr>, rest)"
    using Unserialize_CPartialMerkleTree_written [of ?t rest] b(2-4) assms(3) by (simp add: MAX_MERKLE_TXS_def MAX_SIZE_def)
  moreover have "(length bs + 7) div 8 = (length (bs @ ?B) + 7) div 8" by simp
  ultimately show ?thesis using b(1) e by blast
qed

theorem ExtractMatches_transmitted_witness:
  "\<exists>t t'. make_CPartialMerkleTree sum_crypto [replicate 32 1, replicate 32 2] [False, True] = Some t \<and>
    Unserialize_CPartialMerkleTree (Serialize_CPartialMerkleTree t @ [7]) = Inr (t', [7]) \<and>
    ExtractMatches sum_crypto t' = (Hash256 sum_crypto (replicate 32 1 @ replicate 32 2), [replicate 32 2], [1])"
proof -
  let ?v = "[replicate 32 1, replicate 32 2] :: uint256 list"
  have "replicate 32 (1 :: byte) \<noteq> replicate 32 2" by simp
  then have r: "ComputeMerkleRoot sum_crypto ?v = (Hash256 sum_crypto (replicate 32 1 @ replicate 32 2), False)"
    by (simp only: ComputeMerkleRoot_pair)
  have "\<forall>x. length (SHA256 sum_crypto x) = 32" by (simp add: sum_crypto_def sum_hash_def)
  from ExtractMatches_transmitted [OF r _ _ this, of "[False, True]" "[7]"] show ?thesis
    by (simp add: MAX_MERKLE_TXS_def upt_rec)
qed

section \<open>A partial tree with the right root proves only transactions of the block\<close>

text \<open>The strings that are hashed while a partial tree is read.\<close>

primrec extract_inputs :: "crypto \<Rightarrow> CPartialMerkleTree \<Rightarrow> nat \<Rightarrow> nat \<Rightarrow> extract_state \<Rightarrow> bytes set" where
  "extract_inputs cr t 0 pos s = {}"
| "extract_inputs cr t (Suc height) pos s =
     (if nBitsUsed s \<ge> length (vBits t) \<or> \<not> vBits t ! nBitsUsed s then {}
      else let s0 = s\<lparr>nBitsUsed := nBitsUsed s + 1\<rparr>;
               (left, s1) = TraverseAndExtract cr t height (pos * 2) s0
           in extract_inputs cr t height (pos * 2) s0 \<union>
              (if pos * 2 + 1 < CalcTreeWidth (nTransactions t) height
               then insert (left @ fst (TraverseAndExtract cr t height (pos * 2 + 1) s1)) (extract_inputs cr t height (pos * 2 + 1) s1)
               else {left @ left}))"

definition proves :: "extract_state \<Rightarrow> (nat \<times> uint256) set" where
  "proves s = set (zip (ex_vnIndex s) (ex_vMatch s))"

lemma length_null_hash: "length null_hash = 32"
  by (simp add: null_hash_def)

lemma TraverseAndExtract_length:
  assumes "\<And>x. length (SHA256 cr x) = 32" "\<forall>h \<in> set (vHash t). length h = 32"
  shows "length (fst (TraverseAndExtract cr t h pos s)) = 32"
  using assms by (cases h) (auto simp: take_hash_def Let_def Hash256_def length_null_hash split: prod.splits)

lemma nth_pair_inputs: "i < length hs div 2 \<Longrightarrow> hs ! (i * 2) @ hs ! (i * 2 + 1) \<in> set (pair_inputs hs)"
proof (induction hs arbitrary: i rule: pair_inputs.induct)
  case (1 a b hs)
  then show ?case by (cases i) auto
qed simp_all

lemma level_input:
  assumes "i < (length hs + 1) div 2" "length hs > 1"
  shows "hs ! (i * 2) @ hs ! (if i * 2 + 1 < length hs then i * 2 + 1 else i * 2) \<in> set (merkle_inputs cr hs)"
  using assms(2) nth_pair_inputs [of i "pad_even hs"] assms(1)
  by (simp only: merkle_inputs.simps [of cr hs] length_pad_even nth_pad_even [OF assms(1)]) simp

lemma tree_input:
  assumes "tree_of cr d hs r" "k < d" "pos < CalcTreeWidth (length hs) (Suc k)"
  shows "(level cr ^^ k) hs ! (pos * 2) @
      (level cr ^^ k) hs ! (if pos * 2 + 1 < CalcTreeWidth (length hs) k then pos * 2 + 1 else pos * 2) \<in> set (merkle_inputs cr hs)"
proof -
  from assms(1,2) have t: "tree_of cr (k + Suc (d - Suc k)) hs r" by simp
  from tree_of_lower [OF t] have l: "length ((level cr ^^ k) hs) > 1"
    "set (merkle_inputs cr ((level cr ^^ k) hs)) \<subseteq> set (merkle_inputs cr hs)" by simp_all
  have "pos < (length ((level cr ^^ k) hs) + 1) div 2" using assms(3) by (simp only: length_levels CalcTreeWidth_Suc)
  from level_input [OF this l(1), of cr] l(2) show ?thesis by (auto simp only: length_levels subset_iff)
qed

lemma take_hash_proves:
  assumes "length (ex_vMatch s) = length (ex_vnIndex s)" "take_hash t m pos s = (r, s')"
  shows "length (ex_vMatch s') = length (ex_vnIndex s') \<and> proves s' \<subseteq> proves s \<union> (if m then {(pos, r)} else {})"
  using assms by (auto simp: take_hash_def Let_def proves_def split: if_splits)

lemma TraverseAndExtract_sound:
  assumes t: "tree_of cr d hs root" and n: "nTransactions t = length hs" and s32: "\<And>x. length (SHA256 cr x) = 32"
    and v32: "\<forall>h \<in> set (vHash t). length h = 32" and h32: "\<forall>h \<in> set hs. length h = 32"
  shows "h \<le> d \<Longrightarrow> pos < CalcTreeWidth (length hs) h \<Longrightarrow>
    inj_on (Hash256 cr) (set (merkle_inputs cr hs) \<union> extract_inputs cr t h pos s) \<Longrightarrow>
    length (ex_vMatch s) = length (ex_vnIndex s) \<Longrightarrow>
    TraverseAndExtract cr t h pos s = ((level cr ^^ h) hs ! pos, s') \<Longrightarrow>
    length (ex_vMatch s') = length (ex_vnIndex s') \<and> proves s' \<subseteq> proves s \<union> {(p, hs ! p) |p. p < length hs}"
proof (induction h arbitrary: pos s s')
  case 0
  then show ?case using take_hash_proves [of "s\<lparr>nBitsUsed := nBitsUsed s + 1\<rparr>" t "vBits t ! nBitsUsed s" pos]
    by (auto simp: proves_def split: if_splits)
next
  case (Suc h)
  let ?s0 = "s\<lparr>nBitsUsed := nBitsUsed s + 1\<rparr>" and ?w = "CalcTreeWidth (length hs) h" and ?L = "(level cr ^^ h) hs"
  consider "nBitsUsed s \<ge> length (vBits t)" | "nBitsUsed s < length (vBits t)" "\<not> vBits t ! nBitsUsed s"
    | "nBitsUsed s < length (vBits t)" "vBits t ! nBitsUsed s" by linarith
  then show ?case
  proof cases
    case 1
    with Suc.prems(4,5) show ?thesis by (auto simp: proves_def)
  next
    case 2
    with Suc.prems(4,5) take_hash_proves [of ?s0 t False pos] show ?thesis by (auto simp: proves_def Let_def)
  next
    case 3
    obtain l s1 where l: "TraverseAndExtract cr t h (pos * 2) ?s0 = (l, s1)" by fastforce
    obtain r s2 where r: "(if pos * 2 + 1 < ?w then TraverseAndExtract cr t h (pos * 2 + 1) s1 else (l, s1)) = (r, s2)" by fastforce
    have root: "Hash256 cr (l @ r) = (level cr ^^ Suc h) hs ! pos" "ex_vMatch s' = ex_vMatch s2" "ex_vnIndex s' = ex_vnIndex s2"
      using Suc.prems(5) 3 l r by (auto simp: n Let_def split: if_splits prod.splits)
    have ins: "l @ r \<in> extract_inputs cr t (Suc h) pos s" "extract_inputs cr t h (pos * 2) ?s0 \<subseteq> extract_inputs cr t (Suc h) pos s"
      "pos * 2 + 1 < ?w \<Longrightarrow> extract_inputs cr t h (pos * 2 + 1) s1 \<subseteq> extract_inputs cr t (Suc h) pos s"
      using 3 l r by (auto simp: n Let_def split: if_splits)
    let ?r = "?L ! (if pos * 2 + 1 < ?w then pos * 2 + 1 else pos * 2)"
    have "h < d" using Suc.prems(1) by simp
    have "l @ r = ?L ! (pos * 2) @ ?r"
      by (rule inj_onD [OF Suc.prems(3)])
         (use root(1) nth_levels [OF Suc.prems(2), of cr] ins(1) tree_input [OF t \<open>h < d\<close> Suc.prems(2)] in auto)
    moreover have "length l = 32" using TraverseAndExtract_length [OF s32 v32, of h "pos * 2" ?s0] l by simp
    moreover have "length (?L ! (pos * 2)) = 32"
      using levels_length [OF s32 h32, of h] left_child [OF Suc.prems(2)] by (simp add: length_levels)
    ultimately have lr: "l = ?L ! (pos * 2)" "r = ?r" by simp_all
    have h: "h \<le> d" using Suc.prems(1) by simp
    have L: "length (ex_vMatch s1) = length (ex_vnIndex s1) \<and> proves s1 \<subseteq> proves ?s0 \<union> {(p, hs ! p) |p. p < length hs}"
      by (rule Suc.IH [OF h left_child [OF Suc.prems(2)] inj_on_subset [OF Suc.prems(3)]])
         (use ins(2) Suc.prems(4) l lr(1) in \<open>simp_all only: le_supI1 le_supI2 sup.bounded_iff\<close>, simp_all)
    have "length (ex_vMatch s2) = length (ex_vnIndex s2) \<and> proves s2 \<subseteq> proves s1 \<union> {(p, hs ! p) |p. p < length hs}"
    proof (cases "pos * 2 + 1 < ?w")
      case w: True
      show ?thesis
        by (rule Suc.IH [OF h w inj_on_subset [OF Suc.prems(3)]])
           (use ins(3) [OF w] L r lr(2) w in \<open>simp_all only: le_supI1 le_supI2 sup.bounded_iff\<close>, simp_all)
    qed (use r L in auto)
    with L root(2,3) show ?thesis by (auto simp: proves_def)
  qed
qed

definition extract_start :: "CPartialMerkleTree \<Rightarrow> extract_state" where
  "extract_start t = \<lparr>nBitsUsed = 0, nHashUsed = 0, ex_vMatch = [], ex_vnIndex = [], ex_fBad = fBad t\<rparr>"

text \<open>
  C4: A partial tree cannot prove a transaction that is not in the block: whatever bits and hashes it holds, if it
  extracts to the block's root for the block's number of transactions, then every match is the transaction
  of the block at the position it is reported at, provided that double SHA-256 does not collide on the
  strings that are hashed for the block and for the proof.
\<close>

theorem ExtractMatches_sound:
  assumes "ComputeMerkleRoot cr vTxid = (root, False)" "vTxid \<noteq> []" "nTransactions t = length vTxid"
    and "\<forall>x. length (SHA256 cr x) = 32" "\<forall>h \<in> set vTxid \<union> set (vHash t). length h = 32"
    and "ExtractMatches cr t = (root, vMatch, vnIndex)" "root \<noteq> null_hash"
    and "inj_on (Hash256 cr) (set (merkle_inputs cr vTxid) \<union> extract_inputs cr t (tree_height (length vTxid) 0) 0 (extract_start t))"
  shows "vMatch = map (\<lambda>p. vTxid ! p) vnIndex \<and> set vnIndex \<subseteq> {..<length vTxid}"
proof -
  let ?n = "length vTxid" and ?h = "tree_height (length vTxid) 0"
  obtain d where d: "tree_of cr d vTxid root"
    using merkle_loop_tree [of cr vTxid False root] assms(1,2) by (auto simp: ComputeMerkleRoot_def)
  then have h: "?h = d" "(level cr ^^ ?h) vTxid = [root]"
    using tree_of_levels [where cr = cr and h = 0 and hs = vTxid and r = root and d = d] by auto
  have w: "0 < CalcTreeWidth ?n ?h" using length_levels [where cr = cr and h = ?h and hs = vTxid] h(2) by simp
  obtain s where s: "TraverseAndExtract cr t ?h 0 (extract_start t) = (root, s)" "vMatch = ex_vMatch s" "vnIndex = ex_vnIndex s"
    using assms(3,6,7) by (auto simp: ExtractMatches_def extract_start_def split: if_splits prod.splits)
  have "length (ex_vMatch s) = length (ex_vnIndex s) \<and> proves s \<subseteq> proves (extract_start t) \<union> {(p, vTxid ! p) |p. p < ?n}"
    by (rule TraverseAndExtract_sound [OF d assms(3) _ _ _ _ w assms(8)])
       (use assms(4,5) h s(1) in \<open>simp_all add: extract_start_def\<close>)
  moreover have "proves (extract_start t) = {}" by (simp add: proves_def extract_start_def)
  ultimately have p: "length vMatch = length vnIndex" "set (zip vnIndex vMatch) \<subseteq> {(p, vTxid ! p) |p. p < ?n}"
    by (simp_all only: s(2,3) proves_def Un_empty_left simp_thms)
  have "vMatch ! i = vTxid ! (vnIndex ! i) \<and> vnIndex ! i < ?n" if "i < length vnIndex" for i
    using subsetD [OF p(2), of "(vnIndex ! i, vMatch ! i)"] p(1) that by (auto simp: in_set_zip)
  with p(1) show ?thesis by (auto simp: list_eq_iff_nth_eq in_set_conv_nth)
qed

definition example_tree :: CPartialMerkleTree where
  "example_tree = \<lparr>nTransactions = 2, vBits = [True, False, True], vHash = [replicate 32 1, replicate 32 2], fBad = False\<rparr>"

theorem ExtractMatches_sound_witness:
  "fst (snd (ExtractMatches sum_crypto example_tree)) =
     map (\<lambda>p. [replicate 32 1, replicate 32 2] ! p) (snd (snd (ExtractMatches sum_crypto example_tree))) \<and>
   ExtractMatches sum_crypto example_tree = (Hash256 sum_crypto (replicate 32 1 @ replicate 32 2), [replicate 32 2], [1])"
proof -
  let ?a = "replicate 32 (1 :: byte)" and ?b = "replicate 32 (2 :: byte)"
  have n: "Hash256 sum_crypto (?a @ ?b) \<noteq> null_hash" by code_simp
  have r: "ComputeMerkleRoot sum_crypto [?a, ?b] = (Hash256 sum_crypto (?a @ ?b), False)" by (simp add: ComputeMerkleRoot_pair)
  have h: "tree_height 2 0 = 1" by (simp add: tree_height.simps CalcTreeWidth_def)
  have e: "ExtractMatches sum_crypto example_tree = (Hash256 sum_crypto (?a @ ?b), [?b], [1])"
    by (simp add: ExtractMatches_def h example_tree_def take_hash_def Let_def CalcTreeWidth_def MAX_MERKLE_TXS_def)
  have l: "length [?a, ?b] = 2" by simp
  have "extract_inputs sum_crypto example_tree (tree_height (length [?a, ?b]) 0) 0 (extract_start example_tree) = {?a @ ?b}"
    unfolding l h by (simp add: example_tree_def extract_start_def take_hash_def Let_def CalcTreeWidth_def)
  then have i: "inj_on (Hash256 sum_crypto) (set (merkle_inputs sum_crypto [?a, ?b]) \<union>
      extract_inputs sum_crypto example_tree (tree_height (length [?a, ?b]) 0) 0 (extract_start example_tree))"
    by (simp only: merkle_inputs_pair) simp
  have "[?b] = map (\<lambda>p. [?a, ?b] ! p) [1] \<and> set [1] \<subseteq> {..<length [?a, ?b]}"
    by (rule ExtractMatches_sound [OF r _ _ _ _ e n i]) (simp_all add: example_tree_def sum_crypto_def sum_hash_def)
  with e show ?thesis by simp
qed

end
