(* ===== verification/ConsensusParams.thy ===== *)
theory ConsensusParams
  imports BlockIndex
begin

text \<open>
  The consensus parameters (\<open>Consensus::Params\<close> of \<^verbatim>\<open>src/src/consensus/params.h\<close>) that the modelled
  components read, and the main network's values of them from
  \<^verbatim>\<open>src/src/chainparams.cpp\<close>.
\<close>

text \<open>\<open>BIP9Deployment\<close>.\<close>

record BIP9Deployment =
  dep_bit :: nat
  dep_nStartTime :: int
  dep_nTimeout :: int
  dep_nWindowSize :: int
  dep_nThresholdStart :: int
  dep_nThresholdMin :: int
  dep_nFalloffCoeff :: int

text \<open>The positions of \<open>vDeployments\<close> (\<open>DeploymentPos\<close>).\<close>

datatype DeploymentPos =
  DEPLOYMENT_TESTDUMMY | DEPLOYMENT_CSV | DEPLOYMENT_DIP0001 | DEPLOYMENT_BIP147 | DEPLOYMENT_DIP0003
  | DEPLOYMENT_DIP0008 | DEPLOYMENT_REALLOC | DEPLOYMENT_DIP0020 | DEPLOYMENT_DIP0024 | DEPLOYMENT_V19

record Params =
  hashGenesisBlock :: uint256
  hashDevnetGenesisBlock :: uint256
  nSubsidyHalvingInterval :: int
  nBudgetPaymentsStartBlock :: int
  nBudgetPaymentsCycleBlocks :: int
  nBudgetPaymentsWindowBlocks :: int
  nSuperblockStartBlock :: int
  nSuperblockStartHash :: uint256
  nSuperblockCycle :: int
  BIP34Height :: int
  BIP34Hash :: uint256
  BIP65Height :: int
  BIP66Height :: int
  DIP0001Height :: int
  DIP0003Height :: int
  DIP0003EnforcementHeight :: int
  BRRHeight :: int
  nSchnorrHeight :: int
  nLargeElementsHeight :: int
  powLimit :: uint256
  fPowAllowMinDifficultyBlocks :: bool
  fPowNoRetargeting :: bool
  nPowTargetSpacing :: int
  nPowTargetTimespan :: int
  nPowKGWHeight :: int
  nPowDGWHeight :: int
  nPowLWMAHeight :: int
  nPowLWMAFixHeight :: int
  nLWMAWindow :: int
  nMinimumDifficultyBlocks :: int
  nRuleChangeActivationThreshold :: u32
  nMinerConfirmationWindow :: u32
  MinBIP9WarningHeight :: int
  vDeployments :: "DeploymentPos \<Rightarrow> BIP9Deployment"

definition deployment :: "nat \<Rightarrow> int \<Rightarrow> int \<Rightarrow> int \<Rightarrow> int \<Rightarrow> int \<Rightarrow> int \<Rightarrow> BIP9Deployment" where
  "deployment b start timeout window thStart thMin falloff =
     \<lparr>dep_bit = b, dep_nStartTime = start, dep_nTimeout = timeout, dep_nWindowSize = window,
      dep_nThresholdStart = thStart, dep_nThresholdMin = thMin, dep_nFalloffCoeff = falloff\<rparr>"

fun main_deployment :: "DeploymentPos \<Rightarrow> BIP9Deployment" where
  "main_deployment DEPLOYMENT_TESTDUMMY = deployment 28 1199145601 1230767999 0 0 0 0"
| "main_deployment DEPLOYMENT_CSV = deployment 0 1486252800 1517788800 0 0 0 0"
| "main_deployment DEPLOYMENT_DIP0001 = deployment 1 1508025600 1539561600 4032 3226 0 0"
| "main_deployment DEPLOYMENT_BIP147 = deployment 2 1524477600 1556013600 4032 3226 0 0"
| "main_deployment DEPLOYMENT_DIP0003 = deployment 3 1546300800 1577836800 4032 3226 0 0"
| "main_deployment DEPLOYMENT_DIP0008 = deployment 4 1557878400 1589500800 4032 3226 0 0"
| "main_deployment DEPLOYMENT_REALLOC = deployment 5 1601510400 1633046400 4032 3226 2420 5"
| "main_deployment DEPLOYMENT_DIP0020 = deployment 6 1625097600 1656633600 4032 3226 2420 5"
| "main_deployment DEPLOYMENT_DIP0024 = deployment 7 1660521600 1692057600 4032 3226 2420 5"
| "main_deployment DEPLOYMENT_V19 = deployment 8 1686700800 1718323200 4032 3226 2420 5"

text \<open>The main network: \<open>powLimit\<close> is \<open>00000fffff\<close> followed by 54 zero digits, stored little-endian.\<close>

definition main_powLimit :: uint256 where
  "main_powLimit = replicate 27 0 @ [0xff, 0xff, 0x0f, 0, 0]"

definition main_params :: Params where
  "main_params =
     \<lparr>hashGenesisBlock = le_words 32 0x0000041a9498884aa2506b9dc832af53de1cbee3dca196a8d7b4319ee3a0f27c,
      hashDevnetGenesisBlock = replicate 32 0, nSubsidyHalvingInterval = 498855, nBudgetPaymentsStartBlock = 115000,
      nBudgetPaymentsCycleBlocks = 35000, nBudgetPaymentsWindowBlocks = 100, nSuperblockStartBlock = 614820,
      nSuperblockStartHash = le_words 32 0x000000000037e935c414053148efaf0382a289881f8d31cdeccbbab70dfb5a0e,
      nSuperblockCycle = 35000, BIP34Height = 1,
      BIP34Hash = le_words 32 0x000007d91d1254d60e2dd1ae580383070a4ddffa4c64c2eeb4a2f9ecc0414343,
      BIP65Height = 619382, BIP66Height = 245817, DIP0001Height = 782208, DIP0003Height = 2250000,
      DIP0003EnforcementHeight = 2300000, BRRHeight = 2 ^ 31 - 1, nSchnorrHeight = 3200000,
      nLargeElementsHeight = 3200000, powLimit = main_powLimit, fPowAllowMinDifficultyBlocks = False, fPowNoRetargeting = False,
      nPowTargetSpacing = 60, nPowTargetTimespan = 600, nPowKGWHeight = 0, nPowDGWHeight = 0,
      nPowLWMAHeight = 3200000, nPowLWMAFixHeight = 3200075, nLWMAWindow = 60,
      nMinimumDifficultyBlocks = 0, nRuleChangeActivationThreshold = 1916,
      nMinerConfirmationWindow = 2016, MinBIP9WarningHeight = 1899072 + 2016, vDeployments = main_deployment\<rparr>"

end
