(* ===== verification/Subsidy.thy ===== *)
theory Subsidy
  imports ConsensusParams Transaction "HOL-Library.Log_Nat"
begin

text \<open>
  The block subsidy and the share of the masternodes: \<open>ConvertBitsToDouble\<close>, \<open>GetBlockSubsidy\<close> and \<open>GetMasternodePayment\<close> of
  \<^verbatim>\<open>validation.cpp\<close>.  The code computes with floating-point numbers, so they are modelled bit by bit: an IEEE \<open>double\<close> is the rational
  number that rounding to 53 bits gives.  The lemmas bound the rounding error, show that the subsidy is always computed and
  declines by at least thirty percent an interval, and compare the sum of the subsidies with \<open>MAX_MONEY\<close>.
\<close>

unbundle bit_operations_syntax

section \<open>Floating-point numbers\<close>

text \<open>
  The \<open>double\<close> values of the code: a finite value is a rational number, rounded after each operation to 53 bits, to
  the nearest and to even on a tie, with the exponent bounded below.  None of the computations comes near the largest
  double.
\<close>

datatype double = Fin rat | Inf | NaN

definition pow2 :: "int \<Rightarrow> rat" where
  "pow2 e = (if 0 \<le> e then 2 ^ nat e else 1 / 2 ^ nat (- e))"

definition round_even :: "rat \<Rightarrow> int" where
  "round_even x =
     (let f = \<lfloor>x\<rfloor>; d = x - of_int f
      in if d < 1 / 2 then f else if 1 / 2 < d then f + 1 else if even f then f else f + 1)"

text \<open>The exponent of the last of the 53 bits of a positive number.\<close>

definition ulp_exp :: "rat \<Rightarrow> int" where
  "ulp_exp x =
     (let (n, d) = quotient_of x; e = bitlen n - bitlen d - 53
      in max (if x < pow2 (e + 53) then e else e + 1) (- 1074))"

definition fl :: "rat \<Rightarrow> rat" where
  "fl x =
     (if x = 0 then 0
      else let y = \<bar>x\<bar>; e = ulp_exp y; r = of_int (round_even (y / pow2 e)) * pow2 e in if x < 0 then - r else r)"

fun fadd :: "double \<Rightarrow> double \<Rightarrow> double" where
  "fadd (Fin a) (Fin b) = Fin (fl (a + b))"
| "fadd NaN y = NaN"
| "fadd x NaN = NaN"
| "fadd x y = Inf"

fun fsub :: "double \<Rightarrow> double \<Rightarrow> double" where
  "fsub (Fin a) (Fin b) = Fin (fl (a - b))"
| "fsub Inf (Fin b) = Inf"
| "fsub x y = NaN"

fun fmul :: "double \<Rightarrow> double \<Rightarrow> double" where
  "fmul (Fin a) (Fin b) = Fin (fl (a * b))"
| "fmul Inf (Fin b) = (if 0 < b then Inf else NaN)"
| "fmul (Fin a) Inf = (if 0 < a then Inf else NaN)"
| "fmul Inf Inf = Inf"
| "fmul x y = NaN"

fun fdiv :: "double \<Rightarrow> double \<Rightarrow> double" where
  "fdiv (Fin a) (Fin b) = (if b = 0 then if 0 < a then Inf else NaN else Fin (fl (a / b)))"
| "fdiv (Fin a) Inf = Fin 0"
| "fdiv Inf (Fin b) = Inf"
| "fdiv x y = NaN"

text \<open>Conversions; \<open>None\<close>: the result of the cast is undefined.\<close>

definition double_of :: "int \<Rightarrow> double" where
  "double_of n = Fin (fl (of_int n))"

definition lit :: "rat \<Rightarrow> double" where
  "lit x = Fin (fl x)"

fun to_CAmount :: "double \<Rightarrow> CAmount option" where
  "to_CAmount (Fin x) = (let n = (if 0 \<le> x then \<lfloor>x\<rfloor> else \<lceil>x\<rceil>) in if - (2 ^ 63) \<le> n \<and> n < 2 ^ 63 then Some n else None)"
| "to_CAmount x = None"

section \<open>The subsidy\<close>

datatype network = MAIN | TESTNET | DEVNET | REGTEST

definition ConvertBitsToDouble :: "u32 \<Rightarrow> double" where
  "ConvertBitsToDouble bits =
     (let nShift = unat (drop_bit 24 bits AND 0xff);
          dDiff = fdiv (double_of 0x0000ffff) (double_of (uint (bits AND 0x00ffffff)));
          dDiff = ((\<lambda>d. fmul d (lit 256)) ^^ (29 - nShift)) dDiff
      in ((\<lambda>d. fdiv d (lit 256)) ^^ (nShift - 29)) dDiff)"

definition prev_difficulty :: "network \<Rightarrow> u32 \<Rightarrow> int \<Rightarrow> double" where
  "prev_difficulty net nPrevBits nPrevHeight =
     (if nPrevHeight \<le> 4500 \<and> net = MAIN then fdiv (double_of 0x0000ffff) (double_of (uint (nPrevBits AND 0x00ffffff)))
      else ConvertBitsToDouble nPrevBits)"

definition subsidy_base :: "network \<Rightarrow> double \<Rightarrow> int \<Rightarrow> CAmount option" where
  "subsidy_base net dDiff nPrevHeight =
     (if net = TESTNET then if nPrevHeight < 1 then Some 10000 else Some 50
      else if nPrevHeight < 1 then Some 580000
      else if nPrevHeight < 1000 then Some 10
      else if nPrevHeight < 10000 then Some 15
      else if nPrevHeight < 20000 then Some 30
      else if nPrevHeight < 30000 then Some 50
      else if nPrevHeight < 50000 then Some 75
      else if nPrevHeight < 60000 then Some 100
      else if nPrevHeight < 75000 then Some 135
      else if nPrevHeight < 95000 then Some 170
      else if nPrevHeight < 125000 then Some 195
      else if nPrevHeight < 145000 then Some 81
      else if nPrevHeight < 175000 then Some 41
      else if nPrevHeight < 200000 then Some 21
      else let x = fdiv (fadd dDiff (lit 2600)) (lit 9)
           in map_option (\<lambda>b. if b > 21 then 21 else if b < 5 then 5 else b)
                (to_CAmount (fdiv (lit 2222222) (fmul x x))))"

text \<open>\<open>nSubsidy -= nSubsidy / 3.3\<close>.\<close>

definition decline :: "CAmount \<Rightarrow> CAmount option" where
  "decline nSubsidy = to_CAmount (fsub (double_of nSubsidy) (fdiv (double_of nSubsidy) (lit (33 / 10))))"

text \<open>The loop over the intervals does not end when the interval is not positive.\<close>

partial_function (option) subsidy_loop :: "int \<Rightarrow> int \<Rightarrow> int \<Rightarrow> CAmount \<Rightarrow> CAmount option" where
  "subsidy_loop interval nPrevHeight i nSubsidy =
     (if i \<le> nPrevHeight
      then Option.bind (decline nSubsidy) (subsidy_loop interval nPrevHeight (i + interval))
      else Some nSubsidy)"

definition GetBlockSubsidy :: "network \<Rightarrow> u32 \<Rightarrow> int \<Rightarrow> Params \<Rightarrow> bool \<Rightarrow> CAmount option" where
  "GetBlockSubsidy net nPrevBits nPrevHeight params fSuperblockPartOnly =
     (case subsidy_base net (prev_difficulty net nPrevBits nPrevHeight) nPrevHeight of
        None \<Rightarrow> None
      | Some nSubsidyBase \<Rightarrow>
          (case subsidy_loop (nSubsidyHalvingInterval params) nPrevHeight (nSubsidyHalvingInterval params) (nSubsidyBase * COIN) of
             None \<Rightarrow> None
           | Some nSubsidy \<Rightarrow>
               let nSuperblockPart = (if nPrevHeight > nBudgetPaymentsStartBlock params then nSubsidy div 10 else 0)
               in Some (if fSuperblockPartOnly then nSuperblockPart else nSubsidy - nSuperblockPart)))"

definition GetMasternodePayment :: "int \<Rightarrow> CAmount \<Rightarrow> int \<Rightarrow> CAmount option" where
  "GetMasternodePayment height blockValue nReallocActivationHeight =
     (let share = (\<lambda>x. to_CAmount (fmul (double_of blockValue) (lit x)))
      in case share (80 / 100) of
           None \<Rightarrow> None
         | Some ret \<Rightarrow>
             (case (if height > 33000 then share (50 / 100) else Some ret) of
                None \<Rightarrow> None
              | Some ret \<Rightarrow> if height > 66000 then share (30 / 100) else Some ret))"

section \<open>Rounding\<close>

lemma pow2_powi: "pow2 e = 2 powi e"
  by (simp add: pow2_def power_int_def inverse_eq_divide power_divide)

lemma pow2_add: "pow2 (a + b) = pow2 a * pow2 b"
  by (simp add: pow2_powi power_int_add)

lemma pow2_pos [simp]: "0 < pow2 e"
  by (simp add: pow2_def)

lemma pow2_nat [simp]: "pow2 (int n) = 2 ^ n"
  by (simp add: pow2_def)

lemma pow2_mono: "a \<le> b \<Longrightarrow> pow2 a \<le> pow2 b"
  by (simp add: pow2_powi power_int_increasing)

lemma round_even_error: "\<bar>of_int (round_even y) - y\<bar> \<le> 1 / 2"
  using floor_correct [of y] by (auto simp: round_even_def Let_def abs_le_iff)

lemma ulp_exp_cases:
  assumes "0 < x"
  shows "ulp_exp x = - 1074 \<or> pow2 (ulp_exp x + 52) \<le> x"
proof -
  obtain n d where q: "quotient_of x = (n, d)" by fastforce
  have d: "0 < d" and x: "x = of_int n / of_int d" using quotient_of_denom_pos [OF q] quotient_of_div [OF q] by auto
  from assms d x have n: "0 < n" by (simp add: zero_less_divide_iff)
  let ?e = "bitlen n - bitlen d - 53"
  have bn: "pow2 (bitlen n - 1) \<le> of_int n"
  proof -
    have "2 ^ nat (bitlen n - 1) \<le> n" using bitlen_bounds [OF n] by simp
    then have "(of_int (2 ^ nat (bitlen n - 1)) :: rat) \<le> of_int n" by (simp only: of_int_le_iff)
    moreover have "1 \<le> bitlen n" using n bitlen_ge_iff_power [of 1 n] by simp
    ultimately show ?thesis by (simp add: pow2_def)
  qed
  have bd: "of_int d \<le> pow2 (bitlen d)"
  proof -
    have "d < 2 ^ nat (bitlen d)" using bitlen_bounds [OF d] by simp
    then have "(of_int d :: rat) \<le> of_int (2 ^ nat (bitlen d))" by (simp only: of_int_le_iff less_imp_le)
    moreover have "0 \<le> bitlen d" by (rule bitlen_nonneg)
    ultimately show ?thesis by (simp add: pow2_def)
  qed
  have "pow2 (?e + 52) * pow2 (bitlen d) = pow2 (bitlen n - 1)" by (simp flip: pow2_add)
  moreover have "pow2 (?e + 52) * of_int d \<le> pow2 (?e + 52) * pow2 (bitlen d)" using bd by (intro mult_left_mono) (simp_all add: less_imp_le)
  ultimately have "pow2 (?e + 52) * of_int d \<le> of_int n" using bn by linarith
  then have "pow2 (?e + 52) \<le> x" using d by (simp add: x pos_le_divide_eq)
  then show ?thesis by (auto simp: ulp_exp_def q Let_def max_def add.assoc not_less)
qed

lemma ulp_exp_low: "pow2 (- 1022) \<le> x \<Longrightarrow> pow2 (ulp_exp x + 52) \<le> x"
  using ulp_exp_cases [of x] pow2_pos [of "- 1022"] by fastforce

definition u53 :: rat where
  "u53 = 1 / 2 ^ 53"

lemma fl_half:
  assumes "0 < x"
  shows "\<bar>fl x - x\<bar> \<le> pow2 (ulp_exp x) / 2"
proof -
  let ?p = "pow2 (ulp_exp x)"
  have p: "0 < ?p" by simp
  have "fl x = of_int (round_even (x / ?p)) * ?p" using assms by (simp add: fl_def Let_def)
  moreover have "\<bar>of_int (round_even (x / ?p)) - x / ?p\<bar> * ?p \<le> 1 / 2 * ?p"
    by (rule mult_right_mono [OF round_even_error]) (simp add: less_imp_le)
  ultimately show ?thesis using p by (simp add: abs_if field_simps split: if_splits)
qed

lemma fl_upper: "0 \<le> x \<Longrightarrow> fl x \<le> 2 * x + 1"
proof (cases "x = 0")
  case False
  assume "0 \<le> x"
  with False have x: "0 < x" by simp
  have "pow2 (ulp_exp x) \<le> max x 1"
    using ulp_exp_cases [OF x] pow2_mono [of "ulp_exp x" "ulp_exp x + 52"] pow2_mono [of "- 1074" 0] by (auto simp: pow2_def [of 0])
  with fl_half [OF x] x show ?thesis by linarith
qed (simp add: fl_def)

lemma fl_error:
  assumes "pow2 (- 1022) \<le> x"
  shows "x * (1 - u53) \<le> fl x" "fl x \<le> x * (1 + u53)"
proof -
  let ?p = "pow2 (ulp_exp x)"
  have x: "0 < x" using assms pow2_pos [of "- 1022"] by linarith
  have p: "0 < ?p" by simp
  have "?p * 2 ^ 52 \<le> x" using ulp_exp_low [OF assms] by (simp add: pow2_add pow2_def [of 52])
  then have half: "?p / 2 \<le> x * u53" by (simp add: u53_def)
  with fl_half [OF x] have "\<bar>fl x - x\<bar> \<le> x * u53" by linarith
  then show "x * (1 - u53) \<le> fl x" "fl x \<le> x * (1 + u53)" by (auto simp: abs_le_iff algebra_simps)
qed

lemma normal_ge: "1 / 10 \<le> x \<Longrightarrow> pow2 (- 1022) \<le> x"
proof -
  assume "1 / 10 \<le> x"
  moreover have "pow2 (- 1022) \<le> pow2 (- 4)" by (rule pow2_mono) simp
  moreover have "pow2 (- 4) = 1 / 16" by (simp add: pow2_def)
  ultimately show ?thesis by linarith
qed

lemma fl_33: "fl (33 / 10) = 3715469692580659 / 1125899906842624"
  by code_simp

section \<open>The decline\<close>

lemma decline_bounds:
  assumes "0 \<le> n" "n < 2 ^ 62"
  shows "\<exists>m. decline n = Some m \<and> 0 \<le> m \<and> 10 * m \<le> 7 * n \<and> 69696 * n \<le> 100000 * (m + 1)"
proof (cases "n = 0")
  case True
  then show ?thesis by (simp add: decline_def double_of_def lit_def fl_33 fl_def [of 0])
next
  case False
  define N :: rat where "N = of_int n"
  have N: "1 \<le> N" "N < 2 ^ 62" using False assms of_int_less_iff [of n "2 ^ 62", where ?'a = rat] by (simp_all add: N_def)
  define c :: rat where "c = 3715469692580659 / 1125899906842624"
  have u: "u53 = 1 / 9007199254740992" by (simp add: u53_def)
  let ?N = "fl N" let ?q = "fl (?N / c)" let ?r = "fl (?N - ?q)"
  have fN: "N * (1 - u53) \<le> ?N" "?N \<le> N * (1 + u53)" using fl_error [OF normal_ge, of N] N by simp_all
  then have N9: "9 / 10 \<le> ?N" "?N \<le> 101 / 100 * N" using N by (simp_all add: u)
  have "1 / 10 \<le> ?N / c" using N9 by (simp add: c_def)
  from fl_error [OF normal_ge [OF this]] have q: "?N / c * (1 - u53) \<le> ?q" "?q \<le> ?N / c * (1 + u53)" by simp_all
  have q': "303 / 1000 * ?N \<le> ?q" "?q \<le> 304 / 1000 * ?N" using q N9 by (simp_all add: u c_def)
  then have "1 / 10 \<le> ?N - ?q" using N9 by linarith
  from fl_error [OF normal_ge [OF this]] have r: "(?N - ?q) * (1 - u53) \<le> ?r" "?r \<le> (?N - ?q) * (1 + u53)" by simp_all
  have r0: "0 \<le> ?r" using r(1) q' N9 by (simp add: u)
  have "?r \<le> 697 / 1000 * ?N * (1 + u53)" using r(2) q' by (simp add: u)
  also have "\<dots> \<le> 7 / 10 * N" using fN(2) N by (simp add: u)
  finally have r7: "?r \<le> 7 / 10 * N" .
  have "?q \<le> 30303031 / 100000000 * ?N" using q(2) N9 by (simp add: u c_def)
  then have "69696968 / 100000000 * ?N \<le> ?N - ?q" using N9(1) by linarith
  then have "69696968 / 100000000 * ?N * (1 - u53) \<le> (?N - ?q) * (1 - u53)" by (rule mult_right_mono) (simp add: u)
  then have "69696968 / 100000000 * (N * (1 - u53)) * (1 - u53) \<le> ?r" using r(1) fN(1) by (simp add: u)
  moreover have "69696 / 100000 * N \<le> 69696968 / 100000000 * (N * (1 - u53)) * (1 - u53)" using N by (simp add: u)
  ultimately have low: "69696 / 100000 * N \<le> ?r" by linarith
  let ?m = "\<lfloor>?r\<rfloor>"
  have "69696 / 100000 * N \<le> of_int ?m + 1" using low floor_correct [of ?r, THEN conjunct2] by linarith
  then have "100000 * (69696 / 100000 * N) \<le> 100000 * (of_int ?m + 1)" by (rule mult_left_mono) simp
  then have "of_int (69696 * n) \<le> (of_int (100000 * (?m + 1)) :: rat)" by (simp add: N_def)
  then have low: "69696 * n \<le> 100000 * (?m + 1)" by (simp only: of_int_le_iff)
  have "of_int (10 * ?m) \<le> (of_int (7 * n) :: rat)" using r7 of_int_floor_le [of ?r] unfolding N_def of_int_mult of_int_numeral by linarith
  then have m: "10 * ?m \<le> 7 * n" by (simp only: of_int_le_iff)
  have "0 \<le> ?m" using r0 by simp
  moreover have "?r < 9223372036854775808" using r7 N by simp
  ultimately show ?thesis using m low r0
    by (simp add: decline_def double_of_def lit_def fl_33 Let_def N_def [symmetric] c_def [symmetric]) (simp add: c_def)
qed

text \<open>The number of times the subsidy declines.\<close>

definition intervals :: "int \<Rightarrow> int \<Rightarrow> nat" where
  "intervals interval h = nat (h div interval)"

lemma subsidy_loop_bounds:
  assumes "0 < interval"
  shows "0 \<le> n \<Longrightarrow> n < 2 ^ 62 \<Longrightarrow> nat ((h - i) div interval + 1) = k \<Longrightarrow> i - interval \<le> h \<Longrightarrow>
    \<exists>m. subsidy_loop interval h i n = Some m \<and> 0 \<le> m \<and> 10 ^ k * m \<le> 7 ^ k * n"
proof (induction k arbitrary: i n)
  case 0
  then have "(h - i) div interval < 0" by simp
  then have "\<not> i \<le> h" using pos_imp_zdiv_nonneg_iff [OF assms, of "h - i"] by linarith
  with 0 show ?case by (simp add: subsidy_loop.simps [of interval h i])
next
  case (Suc k)
  then have "0 \<le> (h - i) div interval" by simp
  then have i: "i \<le> h" using assms by (simp add: pos_imp_zdiv_nonneg_iff)
  have "(h - (i + interval)) div interval = (h - i) div interval - 1"
    using assms div_add_self2 [of interval "h - (i + interval)"] by (simp add: algebra_simps)
  with Suc.prems(3) have k: "nat ((h - (i + interval)) div interval + 1) = k" by simp
  from decline_bounds [OF Suc.prems(1,2)] obtain m where m: "decline n = Some m" "0 \<le> m" "10 * m \<le> 7 * n" by blast
  have "m < 2 ^ 62" using m Suc.prems(1,2) by linarith
  from Suc.IH [OF m(2) this k] i obtain r where
    r: "subsidy_loop interval h (i + interval) m = Some r" "0 \<le> r" "10 ^ k * r \<le> 7 ^ k * m" by auto
  have "10 ^ Suc k * r \<le> 10 * (7 ^ k * m)" using r(3) by simp
  also have "\<dots> \<le> 7 ^ Suc k * n" using mult_left_mono [OF m(3), of "7 ^ k"] by (simp add: algebra_simps)
  finally show ?case using i m(1) r by (simp add: subsidy_loop.simps [of interval h i])
qed

lemma subsidy_loop_from_start:
  assumes "0 < interval" "0 \<le> n" "n < 2 ^ 62" "0 \<le> h"
  shows "\<exists>m. subsidy_loop interval h interval n = Some m \<and> 0 \<le> m \<and> 10 ^ intervals interval h * m \<le> 7 ^ intervals interval h * n"
proof (rule subsidy_loop_bounds [OF assms(1-3)])
  have "(h - interval) div interval = h div interval - 1" using assms(1) div_add_self2 [of interval "h - interval"] by simp
  then show "nat ((h - interval) div interval + 1) = intervals interval h" by (simp add: intervals_def)
qed (use assms in simp)

text \<open>The difficulty is a number that is not negative, or infinite, so the base is computed.\<close>

fun nonneg :: "double \<Rightarrow> bool" where
  "nonneg (Fin x) \<longleftrightarrow> 0 \<le> x"
| "nonneg Inf \<longleftrightarrow> True"
| "nonneg NaN \<longleftrightarrow> False"

lemma round_even_nonneg: "0 \<le> y \<Longrightarrow> 0 \<le> round_even y"
  by (simp add: round_even_def Let_def)

lemma fl_nonneg: "0 \<le> x \<Longrightarrow> 0 \<le> fl x"
  by (auto simp: fl_def Let_def less_imp_le intro!: mult_nonneg_nonneg round_even_nonneg)

lemma fl_256: "fl 256 = 256"
  by code_simp

lemma fl_lits: "fl 2600 = 2600" "fl 9 = 9" "fl 2222222 = 2222222" "fl 65535 = 65535"
  by code_simp+

lemma nonneg_scale: "nonneg d \<Longrightarrow> nonneg (fmul d (lit 256)) \<and> nonneg (fdiv d (lit 256))"
  by (cases d) (simp_all add: lit_def fl_256 fl_nonneg)

lemma unsigned_rat_nonneg: "0 \<le> (unsigned (w :: u32) :: rat)"
  using of_int_0_le_iff [of "uint w", where ?'a = rat] by simp

lemma nonneg_start: "nonneg (fdiv (double_of 0x0000ffff) (double_of (uint (w :: u32))))"
  by (auto simp: double_of_def fl_lits intro!: fl_nonneg divide_nonneg_nonneg unsigned_rat_nonneg)

lemma nonneg_prev_difficulty: "nonneg (prev_difficulty net bits h)"
proof -
  have "nonneg (((\<lambda>d. fmul d (lit 256)) ^^ k) d)" if "nonneg d" for k d
    using that by (induction k) (simp_all add: nonneg_scale)
  moreover have "nonneg (((\<lambda>d. fdiv d (lit 256)) ^^ k) d)" if "nonneg d" for k d
    using that by (induction k) (simp_all add: nonneg_scale)
  ultimately show ?thesis
    using nonneg_start by (simp add: prev_difficulty_def ConvertBitsToDouble_def Let_def)
qed

lemma corrected_base:
  assumes "nonneg d"
  shows "\<exists>b. to_CAmount (fdiv (lit 2222222) (let x = fdiv (fadd d (lit 2600)) (lit 9) in fmul x x)) = Some b"
proof (cases d)
  case (Fin a)
  with assms have a: "0 \<le> a" by simp
  have u: "u53 = 1 / 9007199254740992" by (simp add: u53_def)
  have "2500 \<le> fl (a + 2600)" using fl_error(1) [OF normal_ge, of "a + 2600"] a by (simp add: u)
  then have x: "200 \<le> fl (fl (a + 2600) / 9)" using fl_error(1) [OF normal_ge, of "fl (a + 2600) / 9"] by (simp add: u)
  let ?x = "fl (fl (a + 2600) / 9)"
  have "40000 \<le> ?x * ?x" using mult_mono [OF x x] x by simp
  then have "10000 \<le> fl (?x * ?x)" using fl_error(1) [OF normal_ge, of "?x * ?x"] by (simp add: u)
  then have z: "0 \<le> 2222222 / fl (?x * ?x)" "2222222 / fl (?x * ?x) \<le> 223" by (simp_all add: pos_divide_le_eq)
  have y: "0 \<le> fl (2222222 / fl (?x * ?x))" "fl (2222222 / fl (?x * ?x)) \<le> 447"
    using fl_nonneg [OF z(1)] fl_upper [OF z(1)] z(2) by linarith+
  have "fl (?x * ?x) \<noteq> 0" using \<open>10000 \<le> fl (?x * ?x)\<close> by auto
  moreover have "\<lfloor>fl (2222222 / fl (?x * ?x))\<rfloor> < 2 ^ 63" using y(2) by (simp add: floor_less_iff)
  moreover have "- (2 ^ 63) \<le> \<lfloor>fl (2222222 / fl (?x * ?x))\<rfloor>" using y(1) by (simp add: le_floor_iff)
  ultimately show ?thesis using y(1) Fin by (simp add: lit_def fl_lits Let_def)
qed (use assms in \<open>simp_all add: lit_def fl_lits\<close>)

lemma subsidy_base_bounds:
  assumes "nonneg d"
  shows "\<exists>b. subsidy_base net d h = Some b \<and> 5 \<le> b \<and> b \<le> (if h < 1 then 580000 else 195) \<and>
    (net \<noteq> TESTNET \<longrightarrow> 200000 \<le> h \<longrightarrow> b \<le> 21)"
proof (cases "net \<noteq> TESTNET \<and> 200000 \<le> h")
  case True
  from corrected_base [OF assms] obtain b where
    "to_CAmount (fdiv (lit 2222222) (let x = fdiv (fadd d (lit 2600)) (lit 9) in fmul x x)) = Some b" by blast
  with True have "subsidy_base net d h = Some (if b > 21 then 21 else if b < 5 then 5 else b)"
    by (simp add: subsidy_base_def Let_def)
  with True show ?thesis by auto
next
  case False
  then show ?thesis by (auto simp: subsidy_base_def)
qed

lemma GetBlockSubsidy_bounds:
  assumes "0 < nSubsidyHalvingInterval params" "0 \<le> h"
  shows "\<exists>b s. subsidy_base net (prev_difficulty net bits h) h = Some b \<and>
    GetBlockSubsidy net bits h params sb = Some s \<and> 0 \<le> s \<and>
    10 ^ intervals (nSubsidyHalvingInterval params) h * s \<le> 7 ^ intervals (nSubsidyHalvingInterval params) h * (b * COIN)"
proof -
  let ?k = "intervals (nSubsidyHalvingInterval params) h"
  from subsidy_base_bounds [OF nonneg_prev_difficulty, of net net bits h h] obtain b where
    b: "subsidy_base net (prev_difficulty net bits h) h = Some b" "5 \<le> b" "b \<le> 580000" by (auto split: if_splits)
  have n: "0 \<le> b * COIN" "b * COIN < 2 ^ 62" using b(2,3) by (simp_all add: COIN_def)
  from subsidy_loop_from_start [OF assms(1) n assms(2)] obtain m where
    m: "subsidy_loop (nSubsidyHalvingInterval params) h (nSubsidyHalvingInterval params) (b * COIN) = Some m" "0 \<le> m"
      "10 ^ ?k * m \<le> 7 ^ ?k * (b * COIN)" by blast
  define p where "p = (if h > nBudgetPaymentsStartBlock params then m div 10 else 0)"
  have p: "0 \<le> p" "p \<le> m" using m(2) by (auto simp: p_def)
  let ?s = "if sb then p else m - p"
  have "GetBlockSubsidy net bits h params sb = Some ?s" using b(1) m(1) by (simp add: GetBlockSubsidy_def p_def Let_def)
  moreover have "10 ^ ?k * ?s \<le> 10 ^ ?k * m" by (rule mult_left_mono) (use p in auto)
  with m(3) have "10 ^ ?k * ?s \<le> 7 ^ ?k * (b * COIN)" by linarith
  ultimately show ?thesis using b(1) p by auto
qed



section \<open>The sum of the subsidies\<close>

definition emission :: "(nat \<Rightarrow> u32) \<Rightarrow> nat \<Rightarrow> CAmount" where
  "emission bits n = (\<Sum>h<n. the (GetBlockSubsidy MAIN (bits h) (int h) main_params False))"

lemma emission_step:
  assumes "a \<le> b" "\<And>h. a \<le> h \<Longrightarrow> h < b \<Longrightarrow> c \<le> the (GetBlockSubsidy MAIN (bits h) (int h) main_params False)"
  shows "emission bits a + (int b - int a) * c \<le> emission bits b"
proof -
  let ?f = "\<lambda>h. the (GetBlockSubsidy MAIN (bits h) (int h) main_params False)"
  have "sum ?f {0..<a} + sum ?f {a..<b} = sum ?f {0..<b}" using assms(1) by (intro sum.atLeastLessThan_concat) simp_all
  moreover have "sum (\<lambda>_. c) {a..<b} \<le> sum ?f {a..<b}" by (rule sum_mono) (use assms(2) in auto)
  ultimately show ?thesis using assms(1) by (simp add: emission_def lessThan_atLeast0 of_nat_diff)
qed

lemma main_subsidy:
  assumes "0 \<le> h" "h < 498855"
  shows "GetBlockSubsidy MAIN bits h main_params False =
    map_option (\<lambda>b. b * COIN - (if h > 115000 then b * COIN div 10 else 0)) (subsidy_base MAIN (prev_difficulty MAIN bits h) h)"
  using assms by (simp add: GetBlockSubsidy_def main_params_def subsidy_loop.simps [of _ h 498855] split: option.splits)

lemma main_subsidy_declined:
  assumes "subsidy_base MAIN (prev_difficulty MAIN bits h) h = Some b" "498855 \<le> h" "h < 997710" "decline (b * COIN) = Some m"
  shows "GetBlockSubsidy MAIN bits h main_params False = Some (m - m div 10)"
  using assms by (simp add: GetBlockSubsidy_def main_params_def subsidy_loop.simps [of _ h 498855] subsidy_loop.simps [of _ h 997710])

lemma late_subsidy:
  assumes "200000 \<le> h"
  shows "h < 498855 \<Longrightarrow> 450000000 \<le> the (GetBlockSubsidy MAIN bits (int h) main_params False)"
    and "498855 \<le> h \<Longrightarrow> h < 997710 \<Longrightarrow> 313630000 \<le> the (GetBlockSubsidy MAIN bits (int h) main_params False)"
proof -
  from subsidy_base_bounds [OF nonneg_prev_difficulty, of MAIN MAIN bits "int h" "int h"] assms obtain b where
    b: "subsidy_base MAIN (prev_difficulty MAIN bits (int h)) (int h) = Some b" "5 \<le> b" "b \<le> 21" by auto
  show "450000000 \<le> the (GetBlockSubsidy MAIN bits (int h) main_params False)" if "h < 498855"
    using that b(2) assms by (simp add: main_subsidy b(1) COIN_def)
  from decline_bounds [of "b * COIN"] b(2,3) obtain m where
    m: "decline (b * COIN) = Some m" "69696 * (b * COIN) \<le> 100000 * (m + 1)" by (auto simp: COIN_def)
  show "313630000 \<le> the (GetBlockSubsidy MAIN bits (int h) main_params False)" if "498855 \<le> h" "h < 997710"
    using main_subsidy_declined [OF b(1) _ _ m(1)] that m(2) b(2) by (simp add: COIN_def)
qed

text \<open>Lower bounds of a function on consecutive segments, each given by its end.\<close>

fun at_least :: "(nat \<Rightarrow> int) \<Rightarrow> nat \<Rightarrow> (nat \<times> int) list \<Rightarrow> bool" where
  "at_least f a [] \<longleftrightarrow> True"
| "at_least f a ((b, c) # segs) \<longleftrightarrow> a \<le> b \<and> (\<forall>h. a \<le> h \<longrightarrow> h < b \<longrightarrow> c \<le> f h) \<and> at_least f b segs"

fun least_total :: "nat \<Rightarrow> (nat \<times> int) list \<Rightarrow> int" where
  "least_total a [] = 0"
| "least_total a ((b, c) # segs) = (int b - int a) * c + least_total b segs"

lemma emission_segments:
  "at_least (\<lambda>h. the (GetBlockSubsidy MAIN (bits h) (int h) main_params False)) a segs \<Longrightarrow>
    emission bits a + least_total a segs \<le> emission bits (last (a # map fst segs))"
proof (induction segs arbitrary: a)
  case (Cons s segs)
  obtain b c where s: "s = (b, c)" by fastforce
  with Cons.prems have "emission bits a + (int b - int a) * c \<le> emission bits b" by (intro emission_step) auto
  moreover have "emission bits b + least_total b segs \<le> emission bits (last (b # map fst segs))"
    using Cons.prems s by (intro Cons.IH) simp
  ultimately show ?case by (simp add: s)
qed simp

definition main_segments :: "(nat \<times> int) list" where
  "main_segments =
     [(1, 580000 * COIN), (1000, 10 * COIN), (10000, 15 * COIN), (20000, 30 * COIN), (30000, 50 * COIN), (50000, 75 * COIN),
      (60000, 100 * COIN), (75000, 135 * COIN), (95000, 170 * COIN), (115001, 195 * COIN), (125000, 17550000000),
      (145000, 7290000000), (175000, 3690000000), (200000, 1890000000), (498855, 450000000), (997710, 313630000)]"

lemma main_segments_at_least:
  "at_least (\<lambda>h. the (GetBlockSubsidy MAIN (bits h) (int h) main_params False)) 0 main_segments"
  unfolding main_segments_def at_least.simps
  by (intro conjI allI impI) (simp_all add: late_subsidy, simp_all add: main_subsidy subsidy_base_def COIN_def)

text \<open>
  C36: The subsidies of the main network exceed the projection of the code's comment (\<open>~19.1M coins max\<close>) and the
  constant \<open>MAX_MONEY\<close> of 21 million coins: whatever the difficulties of the blocks are, the subsidies of the first
  997710 blocks add up to more than \<open>MAX_MONEY\<close>, superblocks not counted.
\<close>

theorem emission_exceeds_MAX_MONEY: "emission bits 997710 > MAX_MONEY"
proof -
  have "emission bits 0 + least_total 0 main_segments \<le> emission bits (last (0 # map fst main_segments))"
    by (rule emission_segments [OF main_segments_at_least])
  then show ?thesis by (simp add: main_segments_def emission_def MAX_MONEY_def COIN_def)
qed

end
