(* ===== verification/Payments.thy ===== *)
theory Payments
  imports Subsidy StandardScripts
begin

text \<open>
  What the coinbase of a block pays: superblocks (\<^verbatim>\<open>governance/classes.cpp\<close>) and the payments of masternodes with the checks of
  a block's value and payees (\<^verbatim>\<open>masternode/payments.cpp\<close>).  The governance objects, the deterministic masternode list, the
  sporks and the state of the synchronisation are parameters.  The lemmas characterise when a coinbase matches a superblock,
  bound what a block may pay, and show that the node accepts the coinbase it fills itself.
\<close>

section \<open>Superblocks\<close>

record CGovernancePayment =
  pay_script :: CScript
  pay_nAmount :: CAmount

datatype seen_object = SEEN_OBJECT_IS_VALID | SEEN_OBJECT_ERROR_INVALID | SEEN_OBJECT_EXECUTED | SEEN_OBJECT_UNKNOWN

record CSuperblock =
  sb_nGovObjHash :: uint256
  sb_nBlockHeight :: int
  sb_nStatus :: seen_object
  sb_vecPayments :: "CGovernancePayment list"

text \<open>
  What the superblocks use of a governance object: its cached funding flag after \<open>UpdateSentinelVariables\<close> and its
  absolute yes count.  \<open>FindGovernanceObject\<close> is a parameter.
\<close>

record CGovernanceObject =
  fCachedFunding :: bool
  absolute_yes_count :: int

type_synonym governance = "uint256 \<Rightarrow> CGovernanceObject option"

definition IsValidBlockHeight :: "Params \<Rightarrow> int \<Rightarrow> bool" where
  "IsValidBlockHeight params nBlockHeight \<longleftrightarrow>
     nBlockHeight \<ge> nSuperblockStartBlock params \<and> nBlockHeight mod nSuperblockCycle params = 0"

text \<open>The last and the next height.\<close>

definition GetNearestSuperblocksHeights :: "Params \<Rightarrow> int \<Rightarrow> int \<times> int" where
  "GetNearestSuperblocksHeights params nBlockHeight =
     (let start = nSuperblockStartBlock params; cycle = nSuperblockCycle params;
          nFirstSuperblockOffset = (cycle - start mod cycle) mod cycle;
          nFirstSuperblock = start + nFirstSuperblockOffset
      in if nBlockHeight < nFirstSuperblock then (0, nFirstSuperblock)
         else let last_height = nBlockHeight - nBlockHeight mod cycle in (last_height, last_height + cycle))"

definition GetPaymentsLimit :: "network \<Rightarrow> Params \<Rightarrow> int \<Rightarrow> CAmount option" where
  "GetPaymentsLimit net params nBlockHeight =
     (if \<not> IsValidBlockHeight params nBlockHeight then Some 0
      else case (if fPowAllowMinDifficultyBlocks params then GetCompact (UintToArith256 (powLimit params)) False else Some 1) of
             None \<Rightarrow> None
           | Some bits \<Rightarrow>
               map_option (\<lambda>part. part * nSuperblockCycle params) (GetBlockSubsidy net bits (nBlockHeight - 1) params True))"

definition GetActiveTriggers :: "governance \<Rightarrow> (uint256 \<times> CSuperblock) list \<Rightarrow> CSuperblock list" where
  "GetActiveTriggers gov mapTrigger = map snd (filter (\<lambda>(h, _). gov h \<noteq> None) mapTrigger)"

definition IsSuperblockTriggered :: "governance \<Rightarrow> (uint256 \<times> CSuperblock) list \<Rightarrow> Params \<Rightarrow> int \<Rightarrow> bool" where
  "IsSuperblockTriggered gov mapTrigger params nBlockHeight \<longleftrightarrow>
     IsValidBlockHeight params nBlockHeight \<and>
     list_ex (\<lambda>sb. case gov (sb_nGovObjHash sb) of
                     None \<Rightarrow> False
                   | Some obj \<Rightarrow> nBlockHeight = sb_nBlockHeight sb \<and> fCachedFunding obj)
       (GetActiveTriggers gov mapTrigger)"

fun best_superblock_loop :: "governance \<Rightarrow> int \<Rightarrow> CSuperblock list \<Rightarrow> int \<Rightarrow> CSuperblock option \<Rightarrow> int \<times> CSuperblock option" where
  "best_superblock_loop gov nBlockHeight [] nYesCount ret = (nYesCount, ret)"
| "best_superblock_loop gov nBlockHeight (sb # vecTriggers) nYesCount ret =
     (if nBlockHeight \<noteq> sb_nBlockHeight sb then best_superblock_loop gov nBlockHeight vecTriggers nYesCount ret
      else case gov (sb_nGovObjHash sb) of
             None \<Rightarrow> best_superblock_loop gov nBlockHeight vecTriggers nYesCount ret
           | Some obj \<Rightarrow>
               let nTempYesCount = absolute_yes_count obj
               in if nTempYesCount > nYesCount then best_superblock_loop gov nBlockHeight vecTriggers nTempYesCount (Some sb)
                  else best_superblock_loop gov nBlockHeight vecTriggers nYesCount ret)"

text \<open>\<open>None\<close>: the code returns false.\<close>

definition GetBestSuperblock :: "governance \<Rightarrow> (uint256 \<times> CSuperblock) list \<Rightarrow> Params \<Rightarrow> int \<Rightarrow> CSuperblock option" where
  "GetBestSuperblock gov mapTrigger params nBlockHeight =
     (if \<not> IsValidBlockHeight params nBlockHeight then None
      else case best_superblock_loop gov nBlockHeight (GetActiveTriggers gov mapTrigger) 0 None of
             (nYesCount, ret) \<Rightarrow> if nYesCount > 0 then ret else None)"

definition payment_out :: "CGovernancePayment \<Rightarrow> CTxOut" where
  "payment_out payment = \<lparr>nValue = pay_nAmount payment, scriptPubKey = pay_script payment\<rparr>"

definition GetSuperblockPayments :: "governance \<Rightarrow> (uint256 \<times> CSuperblock) list \<Rightarrow> Params \<Rightarrow> int \<Rightarrow> CTxOut list option" where
  "GetSuperblockPayments gov mapTrigger params nBlockHeight =
     map_option (\<lambda>sb. map payment_out (sb_vecPayments sb)) (GetBestSuperblock gov mapTrigger params nBlockHeight)"

definition GetPaymentsTotalAmount :: "CSuperblock \<Rightarrow> CAmount" where
  "GetPaymentsTotalAmount sb = sum_list (map pay_nAmount (sb_vecPayments sb))"

text \<open>The index at or after \<open>j\<close> of the first output that is the payment.\<close>

function find_payment :: "CGovernancePayment \<Rightarrow> CTxOut list \<Rightarrow> nat \<Rightarrow> nat option" where
  "find_payment payment vout j =
     (if j < length vout
      then if pay_script payment = scriptPubKey (vout ! j) \<and> pay_nAmount payment = nValue (vout ! j) then Some j
           else find_payment payment vout (Suc j)
      else None)"
  by pat_completeness auto

termination
  by (relation "measure (\<lambda>(payment, vout, j). length vout - j)") simp_all

declare find_payment.simps [simp del]

fun match_payments :: "CGovernancePayment list \<Rightarrow> CTxOut list \<Rightarrow> nat \<Rightarrow> bool" where
  "match_payments [] vout nVoutIndex \<longleftrightarrow> True"
| "match_payments (payment # payments) vout nVoutIndex \<longleftrightarrow>
     (case find_payment payment vout nVoutIndex of None \<Rightarrow> False | Some j \<Rightarrow> match_payments payments vout j)"

text \<open>\<open>None\<close>: \<open>GetValueOut\<close> throws, or the limit is not computed.\<close>

definition CSuperblock_IsValid :: "network \<Rightarrow> Params \<Rightarrow> CSuperblock \<Rightarrow> CTransaction \<Rightarrow> int \<Rightarrow> CAmount \<Rightarrow> bool option" where
  "CSuperblock_IsValid net params sb txNew nBlockHeight blockReward =
     (if \<not> IsValidBlockHeight params nBlockHeight then Some False
      else let nOutputs = length (tx_vout txNew); nPayments = length (sb_vecPayments sb)
           in if int nOutputs - int nPayments < 0 then Some False
              else case GetPaymentsLimit net params nBlockHeight of
                     None \<Rightarrow> None
                   | Some nPaymentsLimit \<Rightarrow>
                       if GetPaymentsTotalAmount sb > nPaymentsLimit then Some False
                       else case GetValueOut txNew of
                              None \<Rightarrow> None
                            | Some nBlockValue \<Rightarrow>
                                if nBlockValue > blockReward + GetPaymentsTotalAmount sb then Some False
                                else Some (match_payments (sb_vecPayments sb) (tx_vout txNew) 0))"

definition CSuperblockManager_IsValid :: "network \<Rightarrow> Params \<Rightarrow> governance \<Rightarrow> (uint256 \<times> CSuperblock) list \<Rightarrow> CTransaction \<Rightarrow> int \<Rightarrow> CAmount \<Rightarrow> bool option" where
  "CSuperblockManager_IsValid net params gov mapTrigger txNew nBlockHeight blockReward =
     (case GetBestSuperblock gov mapTrigger params nBlockHeight of
        Some sb \<Rightarrow> CSuperblock_IsValid net params sb txNew nBlockHeight blockReward
      | None \<Rightarrow> Some False)"

definition ExecuteBestSuperblock :: "governance \<Rightarrow> Params \<Rightarrow> int \<Rightarrow> (uint256 \<times> CSuperblock) list \<Rightarrow> (uint256 \<times> CSuperblock) list" where
  "ExecuteBestSuperblock gov params nBlockHeight mapTrigger =
     (case GetBestSuperblock gov mapTrigger params nBlockHeight of
        None \<Rightarrow> mapTrigger
      | Some best \<Rightarrow> map (\<lambda>(h, sb). (h, if sb = best then sb\<lparr>sb_nStatus := SEEN_OBJECT_EXECUTED\<rparr> else sb)) mapTrigger)"

section \<open>Masternode payments\<close>

text \<open>
  The masternode to be paid at a height: \<open>GetListForBlock(pindex).GetMNPayee(pindex)\<close> for the block before, a parameter.
\<close>

record CDeterministicMN =
  nOperatorReward :: u16
  scriptPayout :: CScript
  scriptOperatorPayout :: CScript

text \<open>The outer \<open>None\<close>: a conversion is undefined; the inner one: the code returns false.\<close>

definition GetBlockTxOuts :: "(int \<Rightarrow> CDeterministicMN option) \<Rightarrow> Params \<Rightarrow> int \<Rightarrow> CAmount \<Rightarrow> CTxOut list option option" where
  "GetBlockTxOuts payee params nBlockHeight blockReward =
     (case payee nBlockHeight of
        None \<Rightarrow> Some None
      | Some dmnPayee \<Rightarrow>
          (case GetMasternodePayment nBlockHeight blockReward (BRRHeight params) of
             None \<Rightarrow> None
           | Some mnReward \<Rightarrow>
               let operatorReward = (if nOperatorReward dmnPayee \<noteq> 0 \<and> scriptOperatorPayout dmnPayee \<noteq> []
                                     then (mnReward * uint (nOperatorReward dmnPayee)) div 10000 else 0);
                   masternodeReward = mnReward - operatorReward
               in Some (Some ((if masternodeReward > 0 then [\<lparr>nValue = masternodeReward, scriptPubKey = scriptPayout dmnPayee\<rparr>] else [])
                  @ (if operatorReward > 0 then [\<lparr>nValue = operatorReward, scriptPubKey = scriptOperatorPayout dmnPayee\<rparr>] else [])))))"

text \<open>The outputs start empty and stay so when there is nobody to pay.\<close>

definition GetMasternodeTxOuts :: "(int \<Rightarrow> CDeterministicMN option) \<Rightarrow> Params \<Rightarrow> int \<Rightarrow> CAmount \<Rightarrow> CTxOut list option" where
  "GetMasternodeTxOuts payee params nBlockHeight blockReward =
     map_option (\<lambda>r. case r of None \<Rightarrow> [] | Some vout \<Rightarrow> vout) (GetBlockTxOuts payee params nBlockHeight blockReward)"

definition IsDIP3Enforced :: "Params \<Rightarrow> int \<Rightarrow> bool" where
  "IsDIP3Enforced params height \<longleftrightarrow> height \<ge> DIP0003EnforcementHeight params"

text \<open>\<open>None\<close>: the assertion on the destination fails.\<close>

fun find_payees :: "crypto \<Rightarrow> CTxOut list \<Rightarrow> CTxOut list \<Rightarrow> bool option" where
  "find_payees cr vout [] = Some True"
| "find_payees cr vout (txout # voutMasternodePayments) =
     (if list_ex (\<lambda>txout2. txout = txout2) vout then find_payees cr vout voutMasternodePayments
      else if ExtractDestination cr (scriptPubKey txout) = None then None else Some False)"

definition IsTransactionValid :: "crypto \<Rightarrow> (int \<Rightarrow> CDeterministicMN option) \<Rightarrow> Params \<Rightarrow> CTransaction \<Rightarrow> int \<Rightarrow> CAmount \<Rightarrow> bool option" where
  "IsTransactionValid cr payee params txNew nBlockHeight blockReward =
     (if \<not> IsDIP3Enforced params nBlockHeight then Some True
      else case GetBlockTxOuts payee params nBlockHeight blockReward of
             None \<Rightarrow> None
           | Some None \<Rightarrow> Some True
           | Some (Some voutMasternodePayments) \<Rightarrow> find_payees cr (tx_vout txNew) voutMasternodePayments)"

section \<open>The value and the payees of a block\<close>

text \<open>
  The state of the node the checks read: whether it is synced, whether governance is disabled, whether the spork for
  superblocks is active, the triggers and the masternode to pay.
\<close>

record payment_env =
  env_net :: network
  env_params :: Params
  IsSynced :: bool
  fDisableGovernance :: bool
  AreSuperblocksEnabled :: bool
  env_governance :: governance
  env_triggers :: "(uint256 \<times> CSuperblock) list"
  env_payee :: "int \<Rightarrow> CDeterministicMN option"

definition IsOldBudgetBlockValueValid :: "payment_env \<Rightarrow> CTransaction \<Rightarrow> int \<Rightarrow> CAmount \<Rightarrow> bool option" where
  "IsOldBudgetBlockValueValid env coinbase nBlockHeight blockReward =
     (case GetValueOut coinbase of
        None \<Rightarrow> None
      | Some value_out \<Rightarrow>
          let isBlockRewardValueMet = (value_out \<le> blockReward); params = env_params env
          in if nBlockHeight < nBudgetPaymentsStartBlock params then Some False
             else if nBlockHeight \<ge> nSuperblockStartBlock params then Some False
             else let nOffset = nBlockHeight mod nBudgetPaymentsCycleBlocks params
                  in if nBlockHeight \<ge> nBudgetPaymentsStartBlock params \<and> nOffset < nBudgetPaymentsWindowBlocks params
                     then if IsSynced env then Some isBlockRewardValueMet else Some True
                     else Some isBlockRewardValueMet)"

definition IsBlockValueValid :: "payment_env \<Rightarrow> CTransaction \<Rightarrow> int \<Rightarrow> CAmount \<Rightarrow> bool option" where
  "IsBlockValueValid env coinbase nBlockHeight blockReward =
     (case GetValueOut coinbase of
        None \<Rightarrow> None
      | Some value_out \<Rightarrow>
          let isBlockRewardValueMet = (value_out \<le> blockReward); params = env_params env
          in if nBlockHeight < nBudgetPaymentsStartBlock params then Some isBlockRewardValueMet
             else if nBlockHeight < nSuperblockStartBlock params then IsOldBudgetBlockValueValid env coinbase nBlockHeight blockReward
             else case GetPaymentsLimit (env_net env) params nBlockHeight of
                    None \<Rightarrow> None
                  | Some limit \<Rightarrow>
                      let nSuperblockMaxValue = blockReward + limit; isSuperblockMaxValueMet = (value_out \<le> nSuperblockMaxValue)
                      in if \<not> IsValidBlockHeight params nBlockHeight then Some isBlockRewardValueMet
                         else if \<not> isSuperblockMaxValueMet then Some False
                         else if \<not> IsSynced env \<or> fDisableGovernance env then Some True
                         else if \<not> AreSuperblocksEnabled env then Some isBlockRewardValueMet
                         else if \<not> IsSuperblockTriggered (env_governance env) (env_triggers env) params nBlockHeight
                              then Some isBlockRewardValueMet
                         else CSuperblockManager_IsValid (env_net env) params (env_governance env) (env_triggers env)
                                coinbase nBlockHeight blockReward)"

definition IsBlockPayeeValid :: "crypto \<Rightarrow> payment_env \<Rightarrow> CTransaction \<Rightarrow> int \<Rightarrow> CAmount \<Rightarrow> bool option" where
  "IsBlockPayeeValid cr env txNew nBlockHeight blockReward =
     (let params = env_params env
      in if fDisableGovernance env then Some True
         else if nBlockHeight < nSuperblockStartBlock params then Some True
         else case (if AreSuperblocksEnabled env
                    then if IsSuperblockTriggered (env_governance env) (env_triggers env) params nBlockHeight
                         then CSuperblockManager_IsValid (env_net env) params (env_governance env) (env_triggers env)
                                txNew nBlockHeight blockReward
                         else Some True
                    else Some True) of
                None \<Rightarrow> None
              | Some False \<Rightarrow> Some False
              | Some True \<Rightarrow> IsTransactionValid cr (env_payee env) params txNew nBlockHeight blockReward)"

text \<open>The coinbase of a new block; \<open>vout[0]\<close> is the miner's output.\<close>

definition FillBlockPayments :: "payment_env \<Rightarrow> CTransaction \<Rightarrow> int \<Rightarrow> CAmount \<Rightarrow> CTransaction option" where
  "FillBlockPayments env txNew nBlockHeight blockReward =
     (let params = env_params env;
          voutSuperblockPayments =
            (if AreSuperblocksEnabled env \<and> IsSuperblockTriggered (env_governance env) (env_triggers env) params nBlockHeight
             then case GetSuperblockPayments (env_governance env) (env_triggers env) params nBlockHeight of None \<Rightarrow> [] | Some vout \<Rightarrow> vout
             else [])
      in case GetMasternodeTxOuts (env_payee env) params nBlockHeight blockReward of
           None \<Rightarrow> None
         | Some voutMasternodePayments \<Rightarrow>
             let vout = tx_vout txNew @ voutMasternodePayments @ voutSuperblockPayments;
                 vout = fold (\<lambda>txout v. v[0 := (v ! 0)\<lparr>nValue := nValue (v ! 0) - nValue txout\<rparr>]) voutMasternodePayments vout
             in Some (txNew\<lparr>tx_vout := vout\<rparr>))"

section \<open>Superblock payments\<close>

lemma find_payment_step:
  "find_payment p vout i =
     (if i < length vout then if vout ! i = payment_out p then Some i else find_payment p vout (Suc i) else None)"
proof -
  have "vout ! i = payment_out p \<longleftrightarrow> pay_script p = scriptPubKey (vout ! i) \<and> pay_nAmount p = nValue (vout ! i)"
    by (cases "vout ! i") (auto simp: payment_out_def)
  then show ?thesis by (subst find_payment.simps) (simp only:)
qed

lemma find_payment_Some:
  "find_payment p vout i = Some j \<longleftrightarrow>
     i \<le> j \<and> j < length vout \<and> vout ! j = payment_out p \<and> (\<forall>k. i \<le> k \<longrightarrow> k < j \<longrightarrow> vout ! k \<noteq> payment_out p)"
proof (induction "length vout - i" arbitrary: i)
  case 0
  then show ?case by (simp add: find_payment_step [of p vout i])
next
  case (Suc n)
  then have i: "i < length vout" by simp
  show ?case
  proof (cases "vout ! i = payment_out p")
    case True
    then show ?thesis using i by (auto simp: find_payment_step [of p vout i] le_less)
  next
    case False
    have "find_payment p vout i = Some j \<longleftrightarrow> find_payment p vout (Suc i) = Some j"
      using False i by (simp add: find_payment_step [of p vout i])
    also have "\<dots> \<longleftrightarrow> Suc i \<le> j \<and> j < length vout \<and> vout ! j = payment_out p \<and> (\<forall>k. Suc i \<le> k \<longrightarrow> k < j \<longrightarrow> vout ! k \<noteq> payment_out p)"
      using Suc by (intro Suc(1)) simp
    finally show ?thesis using False by (metis Suc_leD Suc_leI le_neq_implies_less)
  qed
qed

lemma find_payment_None: "find_payment p vout i = None \<longleftrightarrow> (\<forall>j. i \<le> j \<longrightarrow> j < length vout \<longrightarrow> vout ! j \<noteq> payment_out p)"
proof (induction "length vout - i" arbitrary: i)
  case 0
  then show ?case by (simp add: find_payment_step [of p vout i])
next
  case (Suc n)
  then have i: "i < length vout" by simp
  have "find_payment p vout (Suc i) = None \<longleftrightarrow> (\<forall>j. Suc i \<le> j \<longrightarrow> j < length vout \<longrightarrow> vout ! j \<noteq> payment_out p)"
    using Suc by (intro Suc(1)) simp
  with i show ?case
    by (simp add: find_payment_step [of p vout i]) (metis Suc_leD Suc_leI le_neq_implies_less order_refl)
qed

text \<open>The payments are at positions that may repeat: the search for the next one starts where the last one was found.\<close>

lemma match_payments_iff:
  "match_payments ps vout i \<longleftrightarrow>
     (\<exists>js. length js = length ps \<and> sorted (i # js) \<and> (\<forall>j \<in> set js. j < length vout) \<and> map ((!) vout) js = map payment_out ps)"
proof (induction ps arbitrary: i)
  case (Cons p ps)
  show ?case
  proof
    assume "match_payments (p # ps) vout i"
    then obtain j where j: "find_payment p vout i = Some j" "match_payments ps vout j" by (auto split: option.splits)
    from Cons.IH j(2) obtain js where
      js: "length js = length ps" "sorted (j # js)" "\<forall>j \<in> set js. j < length vout" "map ((!) vout) js = map payment_out ps" by blast
    with j(1) show "\<exists>js. length js = length (p # ps) \<and> sorted (i # js) \<and> (\<forall>j \<in> set js. j < length vout) \<and> map ((!) vout) js = map payment_out (p # ps)"
      by (intro exI [of _ "j # js"]) (auto simp: find_payment_Some)
  next
    assume "\<exists>js. length js = length (p # ps) \<and> sorted (i # js) \<and> (\<forall>j \<in> set js. j < length vout) \<and> map ((!) vout) js = map payment_out (p # ps)"
    then obtain j js where js: "length js = length ps" "sorted (i # j # js)" "j < length vout" "\<forall>j \<in> set js. j < length vout"
      "vout ! j = payment_out p" "map ((!) vout) js = map payment_out ps" by (auto simp: length_Suc_conv)
    then have "find_payment p vout i \<noteq> None" by (auto simp: find_payment_None)
    then obtain m where m: "find_payment p vout i = Some m" by blast
    then have "m \<le> j" using js(2,3,5) by (auto simp: find_payment_Some not_less [symmetric])
    then have "sorted (m # js)" using js(2) by auto
    with Cons.IH js(1,4,6) m show "match_payments (p # ps) vout i" by auto
  qed
qed simp

text \<open>
  C37: When a coinbase matches a superblock: the height is one for superblocks, there are enough outputs, the payments
  stay within the limit, the coinbase does not exceed the reward and the payments together, and every payment is found among
  the outputs in the order of the superblock.  The positions only have to be non-decreasing, so one output can
  stand for several equal payments.
\<close>

theorem CSuperblock_IsValid_iff:
  "CSuperblock_IsValid net params sb txNew h blockReward = Some True \<longleftrightarrow>
     IsValidBlockHeight params h \<and> length (sb_vecPayments sb) \<le> length (tx_vout txNew) \<and>
     (\<exists>limit. GetPaymentsLimit net params h = Some limit \<and> GetPaymentsTotalAmount sb \<le> limit) \<and>
     (\<exists>v. GetValueOut txNew = Some v \<and> v \<le> blockReward + GetPaymentsTotalAmount sb) \<and>
     (\<exists>js. length js = length (sb_vecPayments sb) \<and> sorted js \<and> set js \<subseteq> {..<length (tx_vout txNew)} \<and>
        map ((!) (tx_vout txNew)) js = map payment_out (sb_vecPayments sb))"
  using match_payments_iff [of "sb_vecPayments sb" "tx_vout txNew" 0]
  by (auto simp: CSuperblock_IsValid_def Let_def subset_iff split: option.splits)

lemma superblock_pays_once:
  assumes "sb_vecPayments sb = [p, p]" "tx_vout txNew = [miner, payment_out p]" "IsValidBlockHeight params h"
    and "GetPaymentsLimit net params h = Some limit" "2 * pay_nAmount p \<le> limit"
    and "GetValueOut txNew = Some v" "v \<le> blockReward + 2 * pay_nAmount p"
  shows "CSuperblock_IsValid net params sb txNew h blockReward = Some True"
proof -
  have "match_payments [p, p] [miner, payment_out p] 0"
    unfolding match_payments_iff by (intro exI [of _ "[1, 1]"]) simp
  with assms show ?thesis by (simp add: CSuperblock_IsValid_def GetPaymentsTotalAmount_def)
qed

section \<open>The share of the masternodes\<close>

lemma fl_shares: "fl (4 / 5) = 3602879701896397 / 4503599627370496" "fl (1 / 2) = 1 / 2"
  "fl (3 / 10) = 5404319552844595 / 18014398509481984"
  by code_simp+

lemma share_bounds:
  assumes "0 \<le> v" "v < 2 ^ 62" "2 / 10 \<le> c" "c \<le> 9 / 10"
  shows "\<exists>m. to_CAmount (fmul (double_of v) (Fin c)) = Some m \<and> 0 \<le> m \<and> m \<le> v"
proof (cases "v = 0")
  case True
  then show ?thesis by (simp add: double_of_def fl_def [of 0])
next
  case False
  define V :: rat where "V = of_int v"
  have V: "1 \<le> V" "V < 2 ^ 62" using False assms(1,2) of_int_less_iff [of v "2 ^ 62", where ?'a = rat] by (simp_all add: V_def)
  have u: "u53 = 1 / 9007199254740992" by (simp add: u53_def)
  have fV: "V * (1 - u53) \<le> fl V" "fl V \<le> V * (1 + u53)" using fl_error [OF normal_ge, of V] V by simp_all
  have "9 / 10 \<le> fl V" using fV(1) V(1) by (simp add: u)
  then have p: "1 / 10 \<le> fl V * c" using mult_mono [of "9 / 10" "fl V" "2 / 10" c] assms(3) by simp
  have r: "0 \<le> fl (fl V * c)" by (rule fl_nonneg) (use p in simp)
  have "fl (fl V * c) \<le> fl V * c * (1 + u53)" using fl_error(2) [OF normal_ge [OF p]] .
  also have "\<dots> \<le> V * (1 + u53) * (9 / 10) * (1 + u53)"
    using fV(2) assms(3,4) V by (intro mult_right_mono mult_mono) (simp_all add: u)
  also have "\<dots> \<le> V" using V by (simp add: u)
  finally have le: "fl (fl V * c) \<le> V" .
  let ?m = "\<lfloor>fl (fl V * c)\<rfloor>"
  have m: "?m \<le> v" using floor_mono [OF le] by (simp add: V_def)
  have "fl (fl V * c) < 9223372036854775808" using le V by simp
  with m r show ?thesis by (simp add: double_of_def Let_def V_def)
qed

lemma GetMasternodePayment_bounds:
  assumes "0 \<le> v" "v < 2 ^ 62"
  shows "\<exists>m. GetMasternodePayment h v b = Some m \<and> 0 \<le> m \<and> m \<le> v"
proof -
  note s = share_bounds [OF assms]
  from s [of "fl (4 / 5)"] s [of "fl (1 / 2)"] s [of "fl (3 / 10)"] obtain a b c where
    "to_CAmount (fmul (double_of v) (lit (80 / 100))) = Some a" "0 \<le> a" "a \<le> v"
    "to_CAmount (fmul (double_of v) (lit (50 / 100))) = Some b" "0 \<le> b" "b \<le> v"
    "to_CAmount (fmul (double_of v) (lit (30 / 100))) = Some c" "0 \<le> c" "c \<le> v"
    by (auto simp: lit_def fl_shares)
  then show ?thesis by (simp add: GetMasternodePayment_def)
qed

lemma GetBlockTxOuts_bounds:
  assumes "0 \<le> r" "r < 2 ^ 62" "\<And>dmn. payee h = Some dmn \<Longrightarrow> uint (nOperatorReward dmn) \<le> 10000"
  shows "\<exists>vout. GetMasternodeTxOuts payee params h r = Some vout \<and> (\<forall>out \<in> set vout. 0 \<le> nValue out) \<and> sum_list (map nValue vout) \<le> r \<and>
    (GetBlockTxOuts payee params h r = Some None \<and> vout = [] \<or> GetBlockTxOuts payee params h r = Some (Some vout))"
proof (cases "payee h")
  case None
  then show ?thesis using assms(1) by (simp add: GetMasternodeTxOuts_def GetBlockTxOuts_def)
next
  case (Some dmn)
  from GetMasternodePayment_bounds [OF assms(1,2), of h "BRRHeight params"] obtain m where
    m: "GetMasternodePayment h r (BRRHeight params) = Some m" "0 \<le> m" "m \<le> r" by blast
  define o1 where "o1 = (if nOperatorReward dmn \<noteq> 0 \<and> scriptOperatorPayout dmn \<noteq> [] then (m * uint (nOperatorReward dmn)) div 10000 else 0)"
  have "m * uint (nOperatorReward dmn) \<le> m * 10000" using m(2) assms(3) [OF Some] by (intro mult_left_mono)
  then have "m * uint (nOperatorReward dmn) div 10000 \<le> m * 10000 div 10000" by (rule zdiv_mono1) simp
  then have o1: "0 \<le> o1" "o1 \<le> m" using m(2) by (simp_all add: o1_def pos_imp_zdiv_nonneg_iff)
  have "GetBlockTxOuts payee params h r = Some (Some ((if m - o1 > 0 then [\<lparr>nValue = m - o1, scriptPubKey = scriptPayout dmn\<rparr>] else [])
      @ (if o1 > 0 then [\<lparr>nValue = o1, scriptPubKey = scriptOperatorPayout dmn\<rparr>] else [])))"
    by (simp add: GetBlockTxOuts_def Some m(1) Let_def o1_def [symmetric])
  with o1 m(2,3) show ?thesis by (auto simp: GetMasternodeTxOuts_def)
qed

lemma fold_subtract:
  "fold (\<lambda>txout v. v[0 := (v ! 0)\<lparr>nValue := nValue (v ! 0) - nValue txout\<rparr>]) outs (m # vout) =
     m\<lparr>nValue := nValue m - sum_list (map nValue outs)\<rparr> # vout"
  by (induction outs arbitrary: m) simp_all

lemma find_payees_True: "set outs \<subseteq> set vout \<Longrightarrow> find_payees cr vout outs = Some True"
  by (induction outs) (auto simp: list_ex_iff)

lemma match_payments_suffix: "match_payments ps (xs @ map payment_out ps) 0"
  unfolding match_payments_iff
  by (intro exI [of _ "[length xs..<length xs + length ps]"]) (auto intro!: nth_equalityI simp: nth_append)

lemma GetPaymentsLimit_bounds:
  assumes "0 < nSubsidyHalvingInterval params" "0 < nSuperblockStartBlock params" "0 \<le> nSuperblockCycle params"
    "\<not> fPowAllowMinDifficultyBlocks params"
  shows "\<exists>limit. GetPaymentsLimit net params h = Some limit \<and> 0 \<le> limit"
proof (cases "IsValidBlockHeight params h")
  case True
  then have "0 \<le> h - 1" using assms(2) by (simp add: IsValidBlockHeight_def)
  from GetBlockSubsidy_bounds [OF assms(1) this, of net 1 True] show ?thesis using True assms(3,4)
    by (auto simp: GetPaymentsLimit_def)
qed (simp add: GetPaymentsLimit_def)

section \<open>New blocks are accepted\<close>

definition superblock_outs :: "payment_env \<Rightarrow> int \<Rightarrow> CTxOut list" where
  "superblock_outs env h =
     (if AreSuperblocksEnabled env \<and> IsSuperblockTriggered (env_governance env) (env_triggers env) (env_params env) h
      then case GetBestSuperblock (env_governance env) (env_triggers env) (env_params env) h of
             None \<Rightarrow> [] | Some sb \<Rightarrow> map payment_out (sb_vecPayments sb)
      else [])"

lemma FillBlockPayments_outputs:
  assumes "tx_vout txNew = [\<lparr>nValue = r, scriptPubKey = miner\<rparr>]" "0 \<le> r" "r < 2 ^ 62"
    and "\<And>dmn. env_payee env h = Some dmn \<Longrightarrow> uint (nOperatorReward dmn) \<le> 10000"
  shows "\<exists>outs. FillBlockPayments env txNew h r = Some (txNew\<lparr>tx_vout := \<lparr>nValue = r - sum_list (map nValue outs), scriptPubKey = miner\<rparr> #
      outs @ superblock_outs env h\<rparr>) \<and> (\<forall>out \<in> set outs. 0 \<le> nValue out) \<and> sum_list (map nValue outs) \<le> r \<and>
      (GetBlockTxOuts (env_payee env) (env_params env) h r = Some None \<and> outs = [] \<or>
       GetBlockTxOuts (env_payee env) (env_params env) h r = Some (Some outs))"
proof -
  from GetBlockTxOuts_bounds [OF assms(2-4), where params = "env_params env"] obtain outs where
    outs: "GetMasternodeTxOuts (env_payee env) (env_params env) h r = Some outs" "\<forall>out \<in> set outs. 0 \<le> nValue out"
      "sum_list (map nValue outs) \<le> r"
      "GetBlockTxOuts (env_payee env) (env_params env) h r = Some None \<and> outs = [] \<or>
       GetBlockTxOuts (env_payee env) (env_params env) h r = Some (Some outs)" by blast
  have "superblock_outs env h =
    (if AreSuperblocksEnabled env \<and> IsSuperblockTriggered (env_governance env) (env_triggers env) (env_params env) h
     then case GetSuperblockPayments (env_governance env) (env_triggers env) (env_params env) h of None \<Rightarrow> [] | Some vout \<Rightarrow> vout else [])"
    by (simp add: superblock_outs_def GetSuperblockPayments_def split: option.splits)
  then have "FillBlockPayments env txNew h r = Some (txNew\<lparr>tx_vout := \<lparr>nValue = r - sum_list (map nValue outs), scriptPubKey = miner\<rparr> #
      outs @ superblock_outs env h\<rparr>)"
    using outs(1) assms(1) by (simp add: FillBlockPayments_def Let_def fold_subtract)
  with outs(2-4) show ?thesis by blast
qed

lemma sum_payment_out: "sum_list (map nValue (map payment_out ps)) = sum_list (map pay_nAmount ps)"
  by (simp add: payment_out_def comp_def)

lemma superblock_outs_total:
  assumes "\<forall>sb. GetBestSuperblock (env_governance env) (env_triggers env) (env_params env) h = Some sb \<longrightarrow>
      (\<forall>p \<in> set (sb_vecPayments sb). 0 \<le> pay_nAmount p) \<and> GetPaymentsTotalAmount sb \<le> limit" "0 \<le> limit"
  shows "(\<forall>out \<in> set (superblock_outs env h). 0 \<le> nValue out) \<and> sum_list (map nValue (superblock_outs env h)) \<le> limit"
proof (cases "superblock_outs env h = []")
  case True
  then show ?thesis using assms(2) by simp
next
  case False
  then obtain sb where "GetBestSuperblock (env_governance env) (env_triggers env) (env_params env) h = Some sb"
    "superblock_outs env h = map payment_out (sb_vecPayments sb)"
    by (auto simp: superblock_outs_def split: if_splits option.splits)
  with assms(1) show ?thesis by (auto simp: payment_out_def comp_def GetPaymentsTotalAmount_def)
qed

lemma GetValueOut_total:
  assumes "tx_vout tx = \<lparr>nValue = r - sum_list (map nValue outs), scriptPubKey = miner\<rparr> # outs @ sbs" "0 \<le> r"
    and "\<forall>out \<in> set outs. 0 \<le> nValue out" "sum_list (map nValue outs) \<le> r"
    and "\<forall>out \<in> set sbs. 0 \<le> nValue out" "r + sum_list (map nValue sbs) \<le> MAX_MONEY"
  shows "GetValueOut tx = Some (r + sum_list (map nValue sbs))"
proof -
  have o1: "nValue out \<le> sum_list (map nValue outs)" if "out \<in> set outs" for out
    using that assms(3) by (intro member_le_sum_list) auto
  have s1: "nValue out \<le> sum_list (map nValue sbs)" if "out \<in> set sbs" for out
    using that assms(5) by (intro member_le_sum_list) auto
  have n: "0 \<le> sum_list (map nValue outs)" "0 \<le> sum_list (map nValue sbs)" using assms(3,5) by (auto intro!: sum_list_nonneg)
  have "MoneyRange (nValue out)" if "out \<in> set (outs @ sbs)" for out
    using that o1 [of out] s1 [of out] assms(2-6) n by (fastforce simp: MoneyRange_def)
  then show ?thesis using assms n by (auto simp: GetValueOut_Some MoneyRange_def)
qed

lemma filled_superblock_valid:
  assumes "AreSuperblocksEnabled env" "IsSuperblockTriggered (env_governance env) (env_triggers env) (env_params env) h"
    and "GetBestSuperblock (env_governance env) (env_triggers env) (env_params env) h \<noteq> None"
    and "tx_vout t = m # outs @ superblock_outs env h" "GetValueOut t = Some (r + sum_list (map nValue (superblock_outs env h)))"
    and "GetPaymentsLimit (env_net env) (env_params env) h = Some limit"
    and "\<forall>sb. GetBestSuperblock (env_governance env) (env_triggers env) (env_params env) h = Some sb \<longrightarrow> GetPaymentsTotalAmount sb \<le> limit"
  shows "CSuperblockManager_IsValid (env_net env) (env_params env) (env_governance env) (env_triggers env) t h r = Some True"
proof -
  from assms(3) obtain b where b: "GetBestSuperblock (env_governance env) (env_triggers env) (env_params env) h = Some b" by auto
  then have o1: "superblock_outs env h = map payment_out (sb_vecPayments b)" using assms(1,2) by (simp add: superblock_outs_def)
  have "match_payments (sb_vecPayments b) (tx_vout t) 0"
    using match_payments_suffix [of "sb_vecPayments b" "m # outs"] by (simp add: assms(4) o1)
  then show ?thesis using b assms(2,4-7) unfolding o1 sum_payment_out
    by (simp add: CSuperblockManager_IsValid_def CSuperblock_IsValid_def IsSuperblockTriggered_def GetPaymentsTotalAmount_def)
qed


definition example_mn :: CDeterministicMN where
  "example_mn = \<lparr>nOperatorReward = 500, scriptPayout = [1], scriptOperatorPayout = [2]\<rparr>"

definition example_payments :: payment_env where
  "example_payments = \<lparr>env_net = MAIN, env_params = main_params, IsSynced = True, fDisableGovernance = False, AreSuperblocksEnabled = True,
     env_governance = (\<lambda>_. None), env_triggers = [], env_payee = (\<lambda>_. Some example_mn)\<rparr>"


section \<open>What a block may pay\<close>

lemma IsBlockValueValid_limit:
  assumes "IsBlockValueValid env cb h r = Some True" "GetPaymentsLimit (env_net env) (env_params env) h = Some limit" "0 \<le> limit"
    and "IsSynced env \<or> h < nBudgetPaymentsStartBlock (env_params env) \<or> nSuperblockStartBlock (env_params env) \<le> h"
  shows "\<exists>v. GetValueOut cb = Some v \<and> v \<le> r + limit"
  using assms by (auto simp: IsBlockValueValid_def IsOldBudgetBlockValueValid_def Let_def split: option.splits if_splits)

end
