(* ===== verification/Pow.thy ===== *)
theory Pow
  imports ConsensusParams "HOL-Library.Signed_Division"
begin

text \<open>
  Difficulty adjustment, \<^verbatim>\<open>src/src/pow.cpp\<close>: the four algorithms a block's target may come from
  (the original retargeting, Kimoto's gravity well, dark gravity wave and LWMA), the function that
  chooses between them, and the check of a block hash against its target.  The functions return \<open>None\<close>
  where the code would fail an assertion, dereference a null pointer or throw (division by zero).
  C++ divisions truncate towards zero (\<open>sdiv\<close>).  Kimoto's event horizon is computed in floating point,
  which is not modelled: the test of the horizon and the number of seconds derived from \<open>0.025\<close> are
  arguments of the definitions (a record \<open>kgw_float\<close>), and the theorems hold whatever they are.
\<close>

section \<open>Operations\<close>

definition pow_limit :: "Params \<Rightarrow> base_uint" where
  "pow_limit params = UintToArith256 (powLimit params)"

definition DifficultyAdjustmentInterval :: "Params \<Rightarrow> int" where
  "DifficultyAdjustmentInterval params = nPowTargetTimespan params sdiv nPowTargetSpacing params"

definition GetBlockTime :: "CBlockIndex \<Rightarrow> int" where
  "GetBlockTime b = uint (nTime b)"

text \<open>\<open>a / b\<close> on big integers with an exception, as an option.\<close>

definition div_opt :: "base_uint \<Rightarrow> base_uint \<Rightarrow> base_uint option" where
  "div_opt a b = (case uint_div a b of Inl _ \<Rightarrow> None | Inr q \<Rightarrow> Some q)"

text \<open>The implicit conversion of a 64-bit integer to a big integer, and to the 32-bit multiplier.\<close>

definition uint_of_int64 :: "int \<Rightarrow> base_uint" where
  "uint_of_int64 x = uint_of_u64 (word_of_int x)"

definition mul_int64 :: "base_uint \<Rightarrow> int \<Rightarrow> base_uint" where
  "mul_int64 a x = uint_mul_u32 a (word_of_int x)"

definition clamp_limit :: "base_uint \<Rightarrow> base_uint \<Rightarrow> base_uint" where
  "clamp_limit bnNew bnPowLimit = (if CompareTo bnNew bnPowLimit > 0 then bnPowLimit else bnNew)"

text \<open>\<open>CalculateNextWorkRequired\<close>.\<close>

definition CalculateNextWorkRequired :: "CBlockIndex \<Rightarrow> int \<Rightarrow> Params \<Rightarrow> u32 option" where
  "CalculateNextWorkRequired pindexLast nFirstBlockTime params =
     (if fPowNoRetargeting params then Some (nBits pindexLast)
      else let t0 = GetBlockTime pindexLast - nFirstBlockTime;
               t1 = (if t0 < nPowTargetTimespan params sdiv 4 then nPowTargetTimespan params sdiv 4 else t0);
               nActualTimespan = (if t1 > nPowTargetTimespan params * 4 then nPowTargetTimespan params * 4 else t1);
               bnNew = mul_int64 (fst (SetCompact (nBits pindexLast))) nActualTimespan
           in case div_opt bnNew (uint_of_int64 (nPowTargetTimespan params)) of
                None \<Rightarrow> None
              | Some bn \<Rightarrow> GetCompact (clamp_limit bn (pow_limit params)) False)"

text \<open>\<open>GetNextWorkRequiredBTC\<close>: the loop back to the last block without the minimum difficulty.\<close>

partial_function (option) last_non_min_block :: "index_store \<Rightarrow> Params \<Rightarrow> u32 \<Rightarrow> ptr \<Rightarrow> u32 option" where
  [code]: "last_non_min_block st params nProofOfWorkLimit pindex =
     (case st pindex of
        None \<Rightarrow> None
      | Some b \<Rightarrow>
          (case pprev b of
             Some q \<Rightarrow> if nHeight b smod DifficultyAdjustmentInterval params \<noteq> 0 \<and> nBits b = nProofOfWorkLimit
                        then last_non_min_block st params nProofOfWorkLimit q
                        else Some (nBits b)
           | None \<Rightarrow> Some (nBits b)))"

definition GetNextWorkRequiredBTC :: "index_store \<Rightarrow> ptr \<Rightarrow> CBlockHeader \<Rightarrow> Params \<Rightarrow> u32 option" where
  "GetNextWorkRequiredBTC st pindexLast pblock params =
     (case st pindexLast of
        None \<Rightarrow> None
      | Some b \<Rightarrow>
          (case GetCompact (pow_limit params) False of
             None \<Rightarrow> None
           | Some nProofOfWorkLimit \<Rightarrow>
               if (nHeight b + 1) smod DifficultyAdjustmentInterval params \<noteq> 0
               then (if fPowAllowMinDifficultyBlocks params
                     then (if uint (hdr_nTime pblock) > GetBlockTime b + nPowTargetSpacing params * 2
                           then Some nProofOfWorkLimit
                           else last_non_min_block st params nProofOfWorkLimit pindexLast)
                     else Some (nBits b))
               else let nHeightFirst = nHeight b - (DifficultyAdjustmentInterval params - 1)
                    in if nHeightFirst < 0 then None
                       else (case GetAncestor st pindexLast nHeightFirst of
                               None \<Rightarrow> None
                             | Some None \<Rightarrow> None
                             | Some (Some q) \<Rightarrow>
                                 (case st q of
                                    None \<Rightarrow> None
                                  | Some first \<Rightarrow> CalculateNextWorkRequired b (GetBlockTime first) params))))"

text \<open>
  Kimoto's gravity well.  \<open>event_horizon mass target actual\<close> is the comparison of the adjustment ratio
  with the slow and the fast deviation; \<open>seconds_min\<close> the conversion of \<open>nPowTargetTimespan * 0.025\<close>.
\<close>

record kgw_float =
  event_horizon :: "u64 \<Rightarrow> int \<Rightarrow> int \<Rightarrow> bool"
  seconds_min :: "int \<Rightarrow> u64"

text \<open>The running average of the targets (lines 44 to 52).\<close>

definition kgw_average :: "nat \<Rightarrow> base_uint \<Rightarrow> base_uint \<Rightarrow> base_uint option" where
  "kgw_average i target avgPrev =
     (if i > 1
      then (if CompareTo target avgPrev \<ge> 0
            then map_option (\<lambda>q. uint_add q avgPrev) (div_opt (uint_sub target avgPrev) (uint_of_u64 (word_of_nat i)))
            else map_option (\<lambda>q. uint_sub avgPrev q) (div_opt (uint_sub avgPrev target) (uint_of_u64 (word_of_nat i))))
      else Some target)"

text \<open>The loop; its results are the average, the actual and the target seconds.\<close>

partial_function (option) kgw_loop ::
  "kgw_float \<Rightarrow> index_store \<Rightarrow> Params \<Rightarrow> u64 \<Rightarrow> u64 \<Rightarrow> int \<Rightarrow> ptr \<Rightarrow> nat \<Rightarrow> u64 \<Rightarrow> base_uint \<times> int \<times> int
   \<Rightarrow> (base_uint \<times> int \<times> int) option" where
  [code]: "kgw_loop F st params PastBlocksMin PastBlocksMax lastTime BlockReading i PastBlocksMass acc =
     (case st BlockReading of
        None \<Rightarrow> None
      | Some b \<Rightarrow>
          if \<not> nHeight b > 0 then Some acc
          else if PastBlocksMax > 0 \<and> (word_of_nat i :: u64) > PastBlocksMax then Some acc
          else let mass = PastBlocksMass + 1
               in case kgw_average i (fst (SetCompact (nBits b))) (fst acc) of
                    None \<Rightarrow> None
                  | Some avg \<Rightarrow>
                      (let actual = max 0 (lastTime - GetBlockTime b);
                           target = sint (word_of_int (nPowTargetSpacing params) * mass :: u64)
                       in if mass \<ge> PastBlocksMin \<and> event_horizon F mass target actual
                          then Some (avg, actual, target)
                          else (case pprev b of
                                  None \<Rightarrow> Some (avg, actual, target)
                                | Some q \<Rightarrow> kgw_loop F st params PastBlocksMin PastBlocksMax lastTime q (i + 1) mass
                                              (avg, actual, target))))"

definition KimotoGravityWell :: "kgw_float \<Rightarrow> index_store \<Rightarrow> ptr \<Rightarrow> Params \<Rightarrow> u32 option" where
  "KimotoGravityWell F st pindexLast params =
     (case st pindexLast of
        None \<Rightarrow> None
      | Some tip \<Rightarrow>
          let pastSecondsMin = seconds_min F (nPowTargetTimespan params);
              pastSecondsMax = word_of_int (nPowTargetTimespan params * 7) :: u64;
              PastBlocksMin = pastSecondsMin div word_of_int (nPowTargetSpacing params);
              PastBlocksMax = pastSecondsMax div word_of_int (nPowTargetSpacing params)
          in if nHeight tip = 0 \<or> (word_of_int (nHeight tip) :: u64) < PastBlocksMin
             then GetCompact (pow_limit params) False
             else (case kgw_loop F st params PastBlocksMin PastBlocksMax (GetBlockTime tip) pindexLast 1 0
                          (uint_zero, 0, 0) of
                     None \<Rightarrow> None
                   | Some (avg, actual, target) \<Rightarrow>
                       (case (if actual \<noteq> 0 \<and> target \<noteq> 0
                              then div_opt (mul_int64 avg actual) (uint_of_int64 target) else Some avg) of
                          None \<Rightarrow> None
                        | Some bnNew \<Rightarrow> GetCompact (clamp_limit bnNew (pow_limit params)) False)))"

text \<open>
  Dark gravity wave: \<open>dgw_loop n count p avg\<close> runs the remaining \<open>n\<close> iterations, the next of them with
  \<open>nCountBlocks = count\<close>, and gives the average and the last block visited.
\<close>

fun dgw_loop :: "index_store \<Rightarrow> nat \<Rightarrow> u32 \<Rightarrow> ptr \<Rightarrow> base_uint \<Rightarrow> (base_uint \<times> ptr) option" where
  "dgw_loop st 0 count p avg = Some (avg, p)"
| "dgw_loop st (Suc n) count p avg =
     (case st p of
        None \<Rightarrow> None
      | Some b \<Rightarrow>
          let bnTarget = fst (SetCompact (nBits b))
          in case (if count = 1 then Some bnTarget
                   else div_opt (uint_add (uint_mul_u32 avg count) bnTarget) (uint_of_u64 (ucast (count + 1)))) of
               None \<Rightarrow> None
             | Some avg' \<Rightarrow>
                 if n \<noteq> 0
                 then (case pprev b of None \<Rightarrow> None | Some q \<Rightarrow> dgw_loop st n (count + 1) q avg')
                 else Some (avg', p))"

definition nPastBlocks :: nat where
  "nPastBlocks = 24"

definition DarkGravityWave :: "index_store \<Rightarrow> ptr \<Rightarrow> Params \<Rightarrow> u32 option" where
  "DarkGravityWave st pindexLast params =
     (case st pindexLast of
        None \<Rightarrow> None
      | Some tip \<Rightarrow>
          if nHeight tip < int nPastBlocks then GetCompact (pow_limit params) False
          else (case dgw_loop st nPastBlocks 1 pindexLast uint_zero of
                  None \<Rightarrow> None
                | Some (avg, p) \<Rightarrow>
                    (case st p of
                       None \<Rightarrow> None
                     | Some b \<Rightarrow>
                         let t0 = GetBlockTime tip - GetBlockTime b;
                             nTargetTimespan = int nPastBlocks * nPowTargetSpacing params;
                             t1 = (if t0 < nTargetTimespan sdiv 3 then nTargetTimespan sdiv 3 else t0);
                             nActualTimespan = (if t1 > nTargetTimespan * 3 then nTargetTimespan * 3 else t1)
                         in case div_opt (mul_int64 avg nActualTimespan) (uint_of_int64 nTargetTimespan) of
                              None \<Rightarrow> None
                            | Some bnNew \<Rightarrow> GetCompact (clamp_limit bnNew (pow_limit params)) False)))"

text \<open>
  LWMA: \<open>lwma_loop is j t previousTimestamp sumTarget\<close> processes the heights \<open>is\<close>.
\<close>

fun lwma_loop ::
  "index_store \<Rightarrow> ptr \<Rightarrow> int \<Rightarrow> int \<Rightarrow> int list \<Rightarrow> int \<Rightarrow> int \<Rightarrow> int \<Rightarrow> base_uint \<Rightarrow> (int \<times> base_uint) option" where
  "lwma_loop st pindexLast T N [] j t previousTimestamp sumTarget = Some (t, sumTarget)"
| "lwma_loop st pindexLast T N (i # is) j t previousTimestamp sumTarget =
     (case GetAncestor st pindexLast i of
        Some (Some q) \<Rightarrow>
          (case st q of
             None \<Rightarrow> None
           | Some b \<Rightarrow>
               let thisTimestamp = (if GetBlockTime b > previousTimestamp then GetBlockTime b else previousTimestamp + 1);
                   solveTime = min (6 * T) (thisTimestamp - previousTimestamp);
                   j' = j + 1
               in case div_opt (fst (SetCompact (nBits b))) (uint_of_int64 (N * N)) of
                    None \<Rightarrow> None
                  | Some q' \<Rightarrow> lwma_loop st pindexLast T N is j' (t + solveTime * j') thisTimestamp (uint_add sumTarget q'))
      | _ \<Rightarrow> None)"

definition LwmaCalculateNextWorkRequired :: "index_store \<Rightarrow> ptr \<Rightarrow> Params \<Rightarrow> u32 option" where
  "LwmaCalculateNextWorkRequired st pindexLast params =
     (case st pindexLast of
        None \<Rightarrow> None
      | Some tip \<Rightarrow>
          let T = nPowTargetSpacing params;
              N = nLWMAWindow params;
              k = (N * (N + 1) * T) sdiv 2;
              height = nHeight tip
          in if height < N then GetCompact (pow_limit params) False
             else (case GetAncestor st pindexLast (height - N) of
                     Some (Some q) \<Rightarrow>
                       (case st q of
                          None \<Rightarrow> None
                        | Some prev \<Rightarrow>
                            (case lwma_loop st pindexLast T N [height - N + 1..height] 0 0 (GetBlockTime prev) uint_zero of
                               None \<Rightarrow> None
                             | Some (t0, sumTarget) \<Rightarrow>
                                 let t = (if t0 < (N * T) sdiv 20 then (N * T) sdiv 20 else t0)
                                 in case div_opt (uint_mul (uint_of_int64 t) sumTarget) (uint_of_int64 k) of
                                      None \<Rightarrow> None
                                    | Some next0 \<Rightarrow>
                                        let nextTarget = (if height + 1 \<ge> nPowLWMAFixHeight params
                                                          then uint_mul_u32 next0 (word_of_int N) else next0)
                                        in GetCompact (clamp_limit nextTarget (pow_limit params)) False))
                   | _ \<Rightarrow> None))"

text \<open>\<open>GetNextWorkRequired\<close> chooses the algorithm.\<close>

definition GetNextWorkRequired :: "kgw_float \<Rightarrow> index_store \<Rightarrow> ptr \<Rightarrow> CBlockHeader \<Rightarrow> Params \<Rightarrow> u32 option" where
  "GetNextWorkRequired F st pindexLast pblock params =
     (case st pindexLast of
        None \<Rightarrow> None
      | Some tip \<Rightarrow>
          let bnPowLimit = pow_limit params;
              now = uint (hdr_nTime pblock)
          in if nHeight tip < nMinimumDifficultyBlocks params then GetCompact bnPowLimit False
             else if nHeight tip + 1 < nPowKGWHeight params
                  then GetNextWorkRequiredBTC st pindexLast pblock params
             else if fPowNoRetargeting params then GetCompact bnPowLimit False
             else if fPowAllowMinDifficultyBlocks params \<and> now > GetBlockTime tip + 2 * 60 * 60
                  then GetCompact bnPowLimit False
             else if fPowAllowMinDifficultyBlocks params \<and> now > GetBlockTime tip + nPowTargetSpacing params * 4
                  then (let bnNew = uint_mul_u32 (fst (SetCompact (nBits tip))) 10
                        in if CompareTo bnNew bnPowLimit > 0 then GetCompact bnPowLimit False
                           else GetCompact bnNew False)
             else if nHeight tip + 1 \<ge> nPowLWMAHeight params then LwmaCalculateNextWorkRequired st pindexLast params
             else if nHeight tip + 1 < nPowDGWHeight params then KimotoGravityWell F st pindexLast params
             else DarkGravityWave st pindexLast params)"

definition CheckProofOfWork :: "uint256 \<Rightarrow> u32 \<Rightarrow> Params \<Rightarrow> bool" where
  "CheckProofOfWork hash bits params =
     (case SetCompact bits of
        (bnTarget, fNegative, fOverflow) \<Rightarrow>
          if fNegative \<or> EqualTo bnTarget 0 \<or> fOverflow \<or> CompareTo bnTarget (pow_limit params) > 0 then False
          else if CompareTo (UintToArith256 hash) bnTarget > 0 then False
          else True)"

section \<open>Every algorithm stays within the limit\<close>

text \<open>A difficulty that the range check of \<open>CheckProofOfWork\<close> accepts (a zero target apart).\<close>

definition in_range :: "Params \<Rightarrow> u32 \<Rightarrow> bool" where
  "in_range params c \<longleftrightarrow>
     (case SetCompact c of (t, neg, ovf) \<Rightarrow> \<not> neg \<and> \<not> ovf \<and> CompareTo t (pow_limit params) \<le> 0)"

definition params_sane :: "Params \<Rightarrow> bool" where
  "params_sane params \<longleftrightarrow> 0 < nPowTargetSpacing params \<and> nPowTargetSpacing params \<le> nPowTargetTimespan params \<and>
     nPowTargetTimespan params < 2 ^ 31 \<and> 0 < nLWMAWindow params \<and> nLWMAWindow params < 2 ^ 15"

lemma wf_pow_limit [simp]: "wf_uint (pow_limit params)"
  by (simp add: pow_limit_def)

lemma wf_SetCompact [simp]: "wf_uint (fst (SetCompact c))"
  using SetCompact_num [of c] by simp

lemma GetCompact_in_range:
  assumes "wf_uint a" "le_val a \<le> le_val (pow_limit params)"
  shows "\<exists>c. GetCompact a False = Some c \<and> in_range params c"
proof -
  obtain c b where "GetCompact a False = Some c" "SetCompact c = (b, False, False)" "wf_uint b" "le_val b \<le> le_val a"
    using GetCompact_SetCompact [OF assms(1)] by blast
  then show ?thesis using assms(2) by (auto simp: in_range_def CompareTo_iff)
qed

lemma GetCompact_limit: "\<exists>c. GetCompact (pow_limit params) False = Some c \<and> in_range params c"
  by (rule GetCompact_in_range) simp_all

lemma clamp_limit_ok:
  assumes "wf_uint a"
  shows "\<exists>c. GetCompact (clamp_limit a (pow_limit params)) False = Some c \<and> in_range params c"
  by (rule GetCompact_in_range) (use assms in \<open>auto simp: clamp_limit_def CompareTo_iff\<close>)

lemma div_opt_ok:
  assumes "wf_uint a" "wf_uint b" "le_val b \<noteq> 0"
  shows "\<exists>c. div_opt a b = Some c \<and> wf_uint c \<and> le_val c = le_val a div le_val b"
  using uint_div_val [OF assms] by (auto simp: div_opt_def)

lemma wf_uint_of_int64 [simp]: "wf_uint (uint_of_int64 x)"
  by (simp add: uint_of_int64_def)

lemma uval_of_int64: "0 \<le> x \<Longrightarrow> x < 2 ^ 64 \<Longrightarrow> le_val (uint_of_int64 x) = nat x"
  by (simp add: uint_of_int64_def uval_of_u64 unsigned_of_int take_bit_int_eq_self)

lemma wf_mul_int64 [simp]: "wf_uint a \<Longrightarrow> wf_uint (mul_int64 a x)"
  by (simp add: mul_int64_def)

lemma retarget_ok:
  assumes "wf_uint a" "0 < d" "d < 2 ^ 64"
  shows "\<exists>c. (case div_opt (mul_int64 a t) (uint_of_int64 d) of
                None \<Rightarrow> None | Some bn \<Rightarrow> GetCompact (clamp_limit bn (pow_limit params)) False) = Some c \<and> in_range params c"
proof -
  have "le_val (uint_of_int64 d) \<noteq> 0" using assms uval_of_int64 [of d] by simp
  then obtain q where "div_opt (mul_int64 a t) (uint_of_int64 d) = Some q" "wf_uint q"
    using div_opt_ok [of "mul_int64 a t" "uint_of_int64 d"] assms by auto
  then show ?thesis using clamp_limit_ok by simp
qed

lemma sdiv_nonneg: "0 \<le> (a :: int) \<Longrightarrow> 0 \<le> b \<Longrightarrow> a sdiv b = a div b"
  by (cases "a = 0"; cases "b = 0") (auto simp: signed_divide_int_def)

lemma smod_nonneg: "0 \<le> (a :: int) \<Longrightarrow> 0 \<le> b \<Longrightarrow> a smod b = a mod b"
  by (cases "a = 0") (auto simp: signed_modulo_int_def sdiv_nonneg minus_div_mult_eq_mod)

text \<open>The hypotheses on the index: well formed, heights of a C \<open>int\<close>, difficulties in range.\<close>

definition index_in_range :: "Params \<Rightarrow> index_store \<Rightarrow> bool" where
  "index_in_range params st \<longleftrightarrow> wf_store st \<and>
     (\<forall>p b. st p = Some b \<longrightarrow> nHeight b < 2 ^ 31 \<and> in_range params (nBits b))"

lemma CalculateNextWorkRequired_ok:
  assumes "params_sane params" "in_range params (nBits b)"
  shows "\<exists>c. CalculateNextWorkRequired b t params = Some c \<and> in_range params c"
proof (cases "fPowNoRetargeting params")
  case False
  then show ?thesis
    using retarget_ok [of "fst (SetCompact (nBits b))" "nPowTargetTimespan params"] assms(1)
    by (simp add: CalculateNextWorkRequired_def params_sane_def Let_def)
qed (use assms in \<open>simp add: CalculateNextWorkRequired_def\<close>)

lemma last_non_min_block_ok:
  assumes "index_in_range params st" "st p = Some b"
  shows "\<exists>c. last_non_min_block st params l p = Some c \<and> in_range params c"
  using assms(2)
proof (induction "nat (nHeight b)" arbitrary: p b rule: less_induct)
  case less
  have wf: "wf_store st" and r: "in_range params (nBits b)" using assms(1) less(2) by (auto simp: index_in_range_def)
  show ?case
  proof (cases "pprev b")
    case None
    then show ?thesis using r less(2) by (subst last_non_min_block.simps) simp
  next
    case (Some q)
    then obtain c where c: "st q = Some c" "nHeight b = nHeight c + 1"
      using wf_store_prev_height [OF wf less(2)] by blast
    then have "nat (nHeight c) < nat (nHeight b)" using wf_store_height [OF wf c(1)] by simp
    from less(1) [OF this c(1)] show ?thesis
      using r Some less(2) by (subst last_non_min_block.simps) simp
  qed
qed

lemma GetNextWorkRequiredBTC_ok:
  assumes sane: "params_sane params" and idx: "index_in_range params st" and p: "st p = Some b"
  shows "\<exists>c. GetNextWorkRequiredBTC st p blk params = Some c \<and> in_range params c"
proof -
  let ?I = "DifficultyAdjustmentInterval params"
  have wf: "wf_store st" and r: "in_range params (nBits b)" using idx p by (auto simp: index_in_range_def)
  have h0: "0 \<le> nHeight b" by (rule wf_store_height [OF wf p])
  have I: "0 < ?I" using sane
    by (simp add: DifficultyAdjustmentInterval_def params_sane_def sdiv_nonneg pos_imp_zdiv_pos_iff)
  obtain l where l: "GetCompact (pow_limit params) False = Some l" "in_range params l" using GetCompact_limit by blast
  show ?thesis
  proof (cases "(nHeight b + 1) smod ?I = 0")
    case False
    then show ?thesis
      using l r p last_non_min_block_ok [OF idx p] by (simp add: GetNextWorkRequiredBTC_def)
  next
    case True
    then have "?I dvd nHeight b + 1" using I h0 by (simp add: smod_nonneg dvd_eq_mod_eq_0)
    then have le: "?I \<le> nHeight b + 1" using h0 by (intro zdvd_imp_le) auto
    let ?h = "nHeight b - (?I - 1)"
    obtain q c where "walk_back st (nat (nHeight b - ?h)) p = Some q" "st q = Some c"
      using walk_back_height [OF wf p, of "nat (nHeight b - ?h)"] le I by auto
    moreover have "GetAncestor st p ?h = Some (walk_back st (nat (nHeight b - ?h)) p)"
      using GetAncestor_walk_back [OF wf p, of ?h] le I by simp
    ultimately show ?thesis
      using True l p le CalculateNextWorkRequired_ok [OF sane r] by (simp add: GetNextWorkRequiredBTC_def Let_def)
  qed
qed

lemma dgw_loop_ok:
  assumes "wf_store st" "st p = Some b" "int n \<le> nHeight b + 1" "wf_uint avg" "unat count + n < 2 ^ 32" "count \<noteq> 0"
  shows "\<exists>a q c. dgw_loop st n count p avg = Some (a, q) \<and> wf_uint a \<and> st q = Some c"
  using assms
proof (induction n arbitrary: p b count avg)
  case (Suc n)
  have c1: "unat (count + 1) = unat count + 1" using Suc(6) by (simp add: unat_word_ariths)
  then have "le_val (uint_of_u64 (ucast (count + 1))) \<noteq> 0" by (simp add: uval_of_u64)
  then obtain a where a: "(if count = 1 then Some (fst (SetCompact (nBits b)))
      else div_opt (uint_add (uint_mul_u32 avg count) (fst (SetCompact (nBits b)))) (uint_of_u64 (ucast (count + 1)))) = Some a" "wf_uint a"
    using div_opt_ok [of "uint_add (uint_mul_u32 avg count) (fst (SetCompact (nBits b)))" "uint_of_u64 (ucast (count + 1))"] Suc(5)
    by (cases "count = 1") auto
  show ?case
  proof (cases "n = 0")
    case True
    then show ?thesis using a Suc(3) by simp
  next
    case False
    then have "0 < nHeight b" using Suc(4) by simp
    then obtain q c where q: "pprev b = Some q" "st q = Some c" "nHeight b = nHeight c + 1"
      by (rule wf_store_prev [OF Suc(2,3)])
    have "count + 1 \<noteq> 0" using c1 by (metis add_eq_0_iff_both_eq_0 unat_0 zero_neq_one)
    then show ?thesis
      using Suc(1) [OF Suc(2) q(2), of a "count + 1"] q Suc(3,4,6) False a c1 by simp
  qed
qed auto

lemma DarkGravityWave_ok:
  assumes sane: "params_sane params" and wf: "wf_store st" and p: "st p = Some b"
  shows "\<exists>c. DarkGravityWave st p params = Some c \<and> in_range params c"
proof (cases "nHeight b < int nPastBlocks")
  case True
  then show ?thesis using GetCompact_limit p by (simp add: DarkGravityWave_def)
next
  case False
  then obtain a q c where "dgw_loop st nPastBlocks 1 p uint_zero = Some (a, q)" "wf_uint a" "st q = Some c"
    using dgw_loop_ok [OF wf p, of nPastBlocks uint_zero 1] by (auto simp: nPastBlocks_def)
  moreover have "0 < int nPastBlocks * nPowTargetSpacing params" "int nPastBlocks * nPowTargetSpacing params < 2 ^ 64"
    using sane by (simp_all add: params_sane_def nPastBlocks_def)
  ultimately show ?thesis
    using False p retarget_ok [of a "int nPastBlocks * nPowTargetSpacing params"]
    by (simp add: DarkGravityWave_def Let_def)
qed

text \<open>LWMA.\<close>

lemma lwma_loop_ok:
  assumes wf: "wf_store st" and p: "st p = Some b" and N: "0 < N" "N < 2 ^ 15"
    and "\<forall>i \<in> set is. 0 \<le> i \<and> i \<le> nHeight b" "wf_uint s"
  shows "\<exists>t' s'. lwma_loop st p T N is j t prev s = Some (t', s') \<and> wf_uint s'"
  using assms(5,6)
proof (induction "is" arbitrary: j t prev s)
  case (Cons i "is")
  obtain q c where q: "walk_back st (nat (nHeight b - i)) p = Some q" "st q = Some c"
    using walk_back_height [OF wf p, of "nat (nHeight b - i)"] Cons(2) by auto
  have g: "GetAncestor st p i = Some (Some q)"
    using GetAncestor_walk_back [OF wf p, of i] q Cons(2) by simp
  have "N * N < 2 ^ 15 * 2 ^ 15" using N by (intro mult_strict_mono) auto
  moreover have "0 < N * N" using N by simp
  ultimately have "le_val (uint_of_int64 (N * N)) \<noteq> 0" using uval_of_int64 [of "N * N"] by simp
  then obtain d where d: "div_opt (fst (SetCompact (nBits c))) (uint_of_int64 (N * N)) = Some d" "wf_uint d"
    using div_opt_ok [of "fst (SetCompact (nBits c))" "uint_of_int64 (N * N)"] by auto
  then show ?case using Cons(1) [of "uint_add s d"] Cons(2,3) g q(2) by (simp add: Let_def)
qed simp

lemma lwma_k_bounds:
  assumes "params_sane params"
  defines "k \<equiv> (nLWMAWindow params * (nLWMAWindow params + 1) * nPowTargetSpacing params) sdiv 2"
  shows "0 < k" "k \<le> 2 ^ 61" "k < 2 ^ 64"
proof -
  let ?N = "nLWMAWindow params" and ?T = "nPowTargetSpacing params"
  have N: "0 < ?N" "?N < 2 ^ 15" and T: "0 < ?T" "?T < 2 ^ 31" using assms by (auto simp: params_sane_def)
  have NN: "1 * 2 \<le> ?N * (?N + 1)" using N by (intro mult_mono) auto
  then have "2 * 1 \<le> ?N * (?N + 1) * ?T" using T by (intro mult_mono) auto
  moreover have "?N * (?N + 1) \<le> 2 ^ 15 * 2 ^ 16" using N by (intro mult_mono) auto
  then have "?N * (?N + 1) * ?T \<le> 2 ^ 31 * 2 ^ 31" using N T by (intro mult_mono) auto
  ultimately show "0 < k" "k \<le> 2 ^ 61" "k < 2 ^ 64" by (auto simp: k_def sdiv_nonneg)
qed

lemma LwmaCalculateNextWorkRequired_ok:
  assumes sane: "params_sane params" and wf: "wf_store st" and p: "st p = Some b"
  shows "\<exists>c. LwmaCalculateNextWorkRequired st p params = Some c \<and> in_range params c"
proof (cases "nHeight b < nLWMAWindow params")
  case True
  then show ?thesis using GetCompact_limit p by (simp add: LwmaCalculateNextWorkRequired_def Let_def)
next
  case False
  let ?N = "nLWMAWindow params" and ?T = "nPowTargetSpacing params" and ?h = "nHeight b"
  let ?k = "(?N * (?N + 1) * ?T) sdiv 2"
  have N: "0 < ?N" "?N < 2 ^ 15" using sane by (auto simp: params_sane_def)
  obtain q c where q: "walk_back st (nat ?N) p = Some q" "st q = Some c"
    using walk_back_height [OF wf p, of "nat ?N"] False N by auto
  have g: "GetAncestor st p (?h - ?N) = Some (Some q)"
    using GetAncestor_walk_back [OF wf p, of "?h - ?N"] q False N by simp
  obtain t s where ts: "lwma_loop st p ?T ?N [?h - ?N + 1..?h] 0 0 (GetBlockTime c) uint_zero = Some (t, s)" "wf_uint s"
    using lwma_loop_ok [OF wf p N, of "[?h - ?N + 1..?h]" uint_zero ?T 0 0 "GetBlockTime c"] False by auto
  have "le_val (uint_of_int64 ?k) \<noteq> 0" using lwma_k_bounds [OF sane] uval_of_int64 [of ?k] by simp
  then obtain d where d: "div_opt (uint_mul (uint_of_int64 (if t < (?N * ?T) sdiv 20 then (?N * ?T) sdiv 20 else t)) s) (uint_of_int64 ?k) = Some d" "wf_uint d"
    using div_opt_ok [of "uint_mul (uint_of_int64 (if t < (?N * ?T) sdiv 20 then (?N * ?T) sdiv 20 else t)) s" "uint_of_int64 ?k"] ts(2) by auto
  have "wf_uint (if ?h + 1 \<ge> nPowLWMAFixHeight params then uint_mul_u32 d (word_of_int ?N) else d)" using d(2) by simp
  from clamp_limit_ok [OF this, of params] show ?thesis
    using False p g q(2) ts(1) d(1) by (simp add: LwmaCalculateNextWorkRequired_def Let_def)
qed

text \<open>Kimoto's gravity well.\<close>

lemma kgw_average_ok:
  assumes "wf_uint t" "wf_uint a" "i < 2 ^ 64"
  shows "\<exists>c. kgw_average i t a = Some c \<and> wf_uint c"
proof (cases "i > 1")
  case True
  then have "le_val (uint_of_u64 (word_of_nat i)) \<noteq> 0" using assms(3) by (simp add: uval_of_u64 unat_of_nat)
  then obtain x y where "div_opt (uint_sub t a) (uint_of_u64 (word_of_nat i)) = Some x" "wf_uint x"
    "div_opt (uint_sub a t) (uint_of_u64 (word_of_nat i)) = Some y" "wf_uint y"
    using div_opt_ok [of "uint_sub t a" "uint_of_u64 (word_of_nat i)"]
      div_opt_ok [of "uint_sub a t" "uint_of_u64 (word_of_nat i)"] assms by auto
  then show ?thesis using assms by (simp add: kgw_average_def)
qed (use assms in \<open>simp add: kgw_average_def\<close>)

definition kgw_acc_ok :: "base_uint \<times> int \<times> int \<Rightarrow> bool" where
  "kgw_acc_ok acc \<longleftrightarrow> wf_uint (fst acc) \<and> (\<exists>w :: u64. snd (snd acc) = sint w)"

lemma kgw_loop_ok:
  assumes wf: "wf_store st" and "st p = Some b" "int i + nHeight b < 2 ^ 63" "kgw_acc_ok acc"
  shows "\<exists>r. kgw_loop F st params mi ma lt p i mass acc = Some r \<and> kgw_acc_ok r"
  using assms(2-4)
proof (induction "nat (nHeight b)" arbitrary: p b i mass acc rule: less_induct)
  case less
  show ?case
  proof (cases "\<not> nHeight b > 0 \<or> (ma > 0 \<and> (word_of_nat i :: u64) > ma)")
    case True
    then have "kgw_loop F st params mi ma lt p i mass acc = Some acc" using less(2) by (subst kgw_loop.simps) auto
    then show ?thesis using less(4) by blast
  next
    case False
    have "int i < 2 ^ 63" using less(3) False by linarith
    then have i64: "i < 2 ^ 64" by simp
    obtain avg where avg: "kgw_average i (fst (SetCompact (nBits b))) (fst acc) = Some avg" "wf_uint avg"
      using kgw_average_ok [OF wf_SetCompact _ i64] less(4) unfolding kgw_acc_ok_def by blast
    define actual where "actual = max 0 (lt - GetBlockTime b)"
    define target where "target = sint (word_of_int (nPowTargetSpacing params) * (mass + 1) :: u64)"
    have acc': "kgw_acc_ok (avg, actual, target)" using avg(2) by (auto simp: kgw_acc_ok_def target_def)
    obtain q c where q: "pprev b = Some q" "st q = Some c" "nHeight b = nHeight c + 1"
      using wf_store_prev [OF wf less(2)] False by blast
    have "nat (nHeight c) < nat (nHeight b)" using q False by simp
    then obtain r where "kgw_loop F st params mi ma lt q (i + 1) (mass + 1) (avg, actual, target) = Some r" "kgw_acc_ok r"
      using less(1) [OF _ q(2), of "i + 1" "(avg, actual, target)" "mass + 1"] less(3) q(3) acc' by auto
    then show ?thesis
      using False avg(1) q(1) less(2) acc'
      by (subst kgw_loop.simps) (auto simp: Let_def actual_def target_def simp del: split_paired_Ex)
  qed
qed

lemma KimotoGravityWell_ok:
  assumes wf: "wf_store st" and p: "st p = Some b" and h: "nHeight b < 2 ^ 31"
  shows "\<exists>c. KimotoGravityWell F st p params = Some c \<and> in_range params c"
proof -
  let ?mi = "seconds_min F (nPowTargetTimespan params) div word_of_int (nPowTargetSpacing params) :: u64"
  let ?ma = "word_of_int (nPowTargetTimespan params * 7) div word_of_int (nPowTargetSpacing params) :: u64"
  show ?thesis
  proof (cases "nHeight b = 0 \<or> (word_of_int (nHeight b) :: u64) < ?mi")
    case True
    then show ?thesis using GetCompact_limit p by (auto simp: KimotoGravityWell_def Let_def)
  next
    case False
    have "kgw_acc_ok (uint_zero, 0, 0)" by (auto simp: kgw_acc_ok_def intro: exI [of _ 0])
    then obtain avg actual target where l: "kgw_loop F st params ?mi ?ma (GetBlockTime b) p 1 0 (uint_zero, 0, 0) = Some (avg, actual, target)"
      and ok: "kgw_acc_ok (avg, actual, target)"
      using kgw_loop_ok [OF wf p, of 1 "(uint_zero, 0, 0)" F params ?mi ?ma "GetBlockTime b" 0] h by auto
    obtain w :: u64 where w: "target = sint w" and avg: "wf_uint avg" using ok by (auto simp: kgw_acc_ok_def)
    have "target \<noteq> 0 \<Longrightarrow> le_val (uint_of_int64 target) \<noteq> 0"
      by (auto simp: w uint_of_int64_def uval_of_u64 unat_eq_0)
    then obtain bn where "(if actual \<noteq> 0 \<and> target \<noteq> 0 then div_opt (mul_int64 avg actual) (uint_of_int64 target) else Some avg) = Some bn" "wf_uint bn"
      using div_opt_ok [of "mul_int64 avg actual" "uint_of_int64 target"] avg by (cases "actual \<noteq> 0 \<and> target \<noteq> 0") auto
    then show ?thesis using False p l clamp_limit_ok by (simp add: KimotoGravityWell_def Let_def)
  qed
qed

lemma GetNextWorkRequired_ok:
  assumes sane: "params_sane params" and idx: "index_in_range params st" and p: "st p = Some b"
  shows "\<exists>c. GetNextWorkRequired F st p blk params = Some c \<and> in_range params c"
proof -
  have wf: "wf_store st" and h: "nHeight b < 2 ^ 31" using idx p by (auto simp: index_in_range_def)
  have ten: "\<exists>c. (if CompareTo n (pow_limit params) > 0 then GetCompact (pow_limit params) False else GetCompact n False) = Some c
      \<and> in_range params c" if "wf_uint n" for n
    using clamp_limit_ok [OF that, of params] by (auto simp: clamp_limit_def split: if_splits)
  show ?thesis
    using p GetCompact_limit GetNextWorkRequiredBTC_ok [OF sane idx p] LwmaCalculateNextWorkRequired_ok [OF sane wf p]
      KimotoGravityWell_ok [OF wf p h] DarkGravityWave_ok [OF sane wf p]
      ten [of "uint_mul_u32 (fst (SetCompact (nBits b))) 10"]
    by (simp add: GetNextWorkRequired_def Let_def)
qed
section \<open>The LWMA formula\<close>

text \<open>
  The weighted sum of solve times over a list of timestamps, and the target of the block at height \<open>i\<close>
  on the branch of \<open>p\<close>.
\<close>

fun lwma_weighted :: "int \<Rightarrow> int \<Rightarrow> int \<Rightarrow> int list \<Rightarrow> int" where
  "lwma_weighted T j prev [] = 0"
| "lwma_weighted T j prev (x # xs) =
     (let this = max x (prev + 1)
      in (j + 1) * min (6 * T) (this - prev) + lwma_weighted T (j + 1) this xs)"

definition block_at :: "index_store \<Rightarrow> ptr \<Rightarrow> int \<Rightarrow> CBlockIndex" where
  "block_at st p i = the (st (the (walk_back st (nat (nHeight (the (st p)) - i)) p)))"

lemma block_at:
  assumes "wf_store st" "st p = Some b" "0 \<le> i" "i \<le> nHeight b"
  obtains q where "GetAncestor st p i = Some (Some q)" "st q = Some (block_at st p i)"
proof -
  obtain q c where q: "walk_back st (nat (nHeight b - i)) p = Some q" "st q = Some c"
    using walk_back_height [OF assms(1,2), of "nat (nHeight b - i)"] assms(3,4) by auto
  then have "GetAncestor st p i = Some (Some q)"
    using GetAncestor_walk_back [OF assms(1,2), of i] assms(3,4) by simp
  then show ?thesis using that q assms(2) by (simp add: block_at_def)
qed

lemma lwma_loop_val:
  assumes wf: "wf_store st" and p: "st p = Some b" and N: "0 < N" "N < 2 ^ 15"
    and "\<forall>i \<in> set is. 0 \<le> i \<and> i \<le> nHeight b" "wf_uint s"
  shows "\<exists>s'. lwma_loop st p T N is j t prev s
       = Some (t + lwma_weighted T j prev (map (\<lambda>i. GetBlockTime (block_at st p i)) is), s') \<and> wf_uint s' \<and>
     le_val s' = (le_val s + sum_list (map (\<lambda>i. le_val (fst (SetCompact (nBits (block_at st p i)))) div nat (N * N)) is)) mod 2 ^ 256"
  using assms(5,6)
proof (induction "is" arbitrary: j t prev s)
  case Nil
  then show ?case using wf_uint_less by simp
next
  case (Cons i "is")
  obtain q where q: "GetAncestor st p i = Some (Some q)" "st q = Some (block_at st p i)"
    using block_at [OF wf p] Cons(2) by auto
  let ?b = "block_at st p i"
  have "N * N < 2 ^ 15 * 2 ^ 15" using N by (intro mult_strict_mono) auto
  moreover have "0 < N * N" using N by simp
  ultimately have v: "le_val (uint_of_int64 (N * N)) = nat (N * N)" "nat (N * N) \<noteq> 0" using uval_of_int64 [of "N * N"] by simp_all
  then obtain d where d: "div_opt (fst (SetCompact (nBits ?b))) (uint_of_int64 (N * N)) = Some d" "wf_uint d"
    "le_val d = le_val (fst (SetCompact (nBits ?b))) div nat (N * N)"
    using div_opt_ok [of "fst (SetCompact (nBits ?b))" "uint_of_int64 (N * N)"] by auto
  define tm where "tm = max (GetBlockTime ?b) (prev + 1)"
  have tm: "(if prev < GetBlockTime ?b then GetBlockTime ?b else prev + 1) = tm" by (simp add: tm_def max_def)
  obtain s' where s': "lwma_loop st p T N is (j + 1) (t + min (6 * T) (tm - prev) * (j + 1)) tm (uint_add s d)
      = Some (t + min (6 * T) (tm - prev) * (j + 1) + lwma_weighted T (j + 1) tm (map (\<lambda>i. GetBlockTime (block_at st p i)) is), s')"
    "wf_uint s'" "le_val s' = (le_val (uint_add s d) + sum_list (map (\<lambda>i. le_val (fst (SetCompact (nBits (block_at st p i)))) div nat (N * N)) is)) mod 2 ^ 256"
    using Cons(1) [of "uint_add s d" "j + 1" "t + min (6 * T) (tm - prev) * (j + 1)" tm] Cons(2,3) d(2) by auto
  have "lwma_loop st p T N (i # is) j t prev s
      = lwma_loop st p T N is (j + 1) (t + min (6 * T) (tm - prev) * (j + 1)) tm (uint_add s d)"
    using q d(1) by (simp add: Let_def tm)
  moreover have "t + lwma_weighted T j prev (map (\<lambda>i. GetBlockTime (block_at st p i)) (i # is))
      = t + min (6 * T) (tm - prev) * (j + 1) + lwma_weighted T (j + 1) tm (map (\<lambda>i. GetBlockTime (block_at st p i)) is)"
    by (simp add: tm_def Let_def mult.commute)
  moreover have "le_val s' = (le_val s + sum_list (map (\<lambda>i. le_val (fst (SetCompact (nBits (block_at st p i)))) div nat (N * N)) (i # is))) mod 2 ^ 256"
    using s'(3) d Cons(3) by (simp add: uval_add mod_add_left_eq add.assoc)
  ultimately show ?case using s'(1,2) by metis
qed

lemma lwma_weighted_bounds:
  assumes "0 < T" "0 \<le> j"
  shows "0 \<le> lwma_weighted T j prev xs \<and>
         2 * lwma_weighted T j prev xs \<le> 6 * T * (int (length xs) * (2 * j + int (length xs) + 1))"
  using assms(2)
proof (induction xs arbitrary: j prev)
  case (Cons x xs)
  define tm where "tm = max x (prev + 1)"
  define m where "m = min (6 * T) (tm - prev)"
  have m: "0 \<le> m" "m \<le> 6 * T" using assms(1) by (auto simp: m_def tm_def)
  have "0 \<le> (j + 1) * m" "(j + 1) * m \<le> (j + 1) * (6 * T)" using m Cons(2) by (auto intro: mult_left_mono)
  moreover have "lwma_weighted T j prev (x # xs) = (j + 1) * m + lwma_weighted T (j + 1) tm xs"
    by (simp add: m_def tm_def Let_def)
  ultimately show ?case using Cons(1) [of "j + 1" tm] Cons(2) by (simp add: algebra_simps)
qed simp

text \<open>The times and scaled targets of the window that ends at height \<open>h\<close>.\<close>

definition window_times :: "index_store \<Rightarrow> ptr \<Rightarrow> int \<Rightarrow> int \<Rightarrow> int list" where
  "window_times st p N h = map (\<lambda>i. GetBlockTime (block_at st p i)) [h - N + 1..h]"

definition window_targets :: "index_store \<Rightarrow> ptr \<Rightarrow> int \<Rightarrow> int \<Rightarrow> nat list" where
  "window_targets st p N h =
     map (\<lambda>i. le_val (fst (SetCompact (nBits (block_at st p i)))) div nat (N * N)) [h - N + 1..h]"

lemma lwma_value:
  assumes sane: "params_sane params" and wf: "wf_store st" and p: "st p = Some b"
    and h: "nLWMAWindow params \<le> nHeight b"
  defines "N \<equiv> nLWMAWindow params" and "T \<equiv> nPowTargetSpacing params"
  defines "t0 \<equiv> lwma_weighted T 0 (GetBlockTime (block_at st p (nHeight b - N))) (window_times st p N (nHeight b))"
  defines "t \<equiv> (if t0 < (N * T) sdiv 20 then (N * T) sdiv 20 else t0)" and "k \<equiv> (N * (N + 1) * T) sdiv 2"
  shows "\<exists>x. LwmaCalculateNextWorkRequired st p params
        = GetCompact (clamp_limit (if nHeight b + 1 \<ge> nPowLWMAFixHeight params then uint_mul_u32 x (word_of_int N) else x) (pow_limit params)) False
      \<and> wf_uint x \<and> le_val x = (nat t * (sum_list (window_targets st p N (nHeight b)) mod 2 ^ 256)) mod 2 ^ 256 div nat k
      \<and> 0 \<le> t \<and> t \<le> 6 * k"
proof -
  have N: "0 < N" "N < 2 ^ 15" and T: "0 < T" "T < 2 ^ 31" using sane by (auto simp: params_sane_def N_def T_def)
  let ?h = "nHeight b"
  have hN: "N \<le> ?h" using h by (simp add: N_def)
  obtain q where q: "GetAncestor st p (?h - N) = Some (Some q)" "st q = Some (block_at st p (?h - N))"
    using block_at [OF wf p, of "?h - N"] hN N by auto
  obtain s where s: "lwma_loop st p T N [?h - N + 1..?h] 0 0 (GetBlockTime (block_at st p (?h - N))) uint_zero = Some (t0, s)"
    "wf_uint s" "le_val s = sum_list (window_targets st p N ?h) mod 2 ^ 256"
    using lwma_loop_val [OF wf p N, of "[?h - N + 1..?h]" uint_zero T 0 0 "GetBlockTime (block_at st p (?h - N))"] hN
    by (auto simp: t0_def window_times_def window_targets_def uval_zero)
  have k: "0 < k" "k \<le> 2 ^ 61" "k < 2 ^ 64" using lwma_k_bounds [OF sane] by (simp_all add: k_def N_def T_def)
  then have kv: "le_val (uint_of_int64 k) = nat k" "nat k \<noteq> 0" using uval_of_int64 [of k] by simp_all
  have "N * (N + 1) * T = 2 * k" using N T by (simp add: k_def sdiv_nonneg)
  moreover have "0 \<le> t0" "2 * t0 \<le> 6 * (N * (N + 1) * T)"
    using lwma_weighted_bounds [OF T(1), of 0 "GetBlockTime (block_at st p (?h - N))" "window_times st p N ?h"] N
    by (auto simp: t0_def window_times_def ac_simps)
  ultimately have "0 \<le> t0" "t0 \<le> 6 * k" by linarith+
  moreover have "0 \<le> (N * T) sdiv 20" "(N * T) sdiv 20 \<le> 6 * k"
  proof -
    have NT: "0 \<le> N * T" using N T by simp
    have "N * T \<le> N * (N + 1) * T" using N T by (intro mult_right_mono) auto
    then have "N * T \<le> 6 * k" using \<open>N * (N + 1) * T = 2 * k\<close> k(1) by linarith
    moreover have "(N * T) div 20 \<le> N * T" using NT by linarith
    ultimately show "0 \<le> (N * T) sdiv 20" "(N * T) sdiv 20 \<le> 6 * k" using NT by (simp_all add: sdiv_nonneg)
  qed
  ultimately have t: "0 \<le> t" "t \<le> 6 * k" by (simp_all add: t_def)
  then have tv: "le_val (uint_of_int64 t) = nat t" using k(2) uval_of_int64 [of t] by simp
  obtain x where x: "div_opt (uint_mul (uint_of_int64 t) s) (uint_of_int64 k) = Some x" "wf_uint x"
    "le_val x = (nat t * le_val s) mod 2 ^ 256 div nat k"
    using div_opt_ok [of "uint_mul (uint_of_int64 t) s" "uint_of_int64 k"] s(2) kv by (auto simp: uval_mul tv)
  have "LwmaCalculateNextWorkRequired st p params
        = GetCompact (clamp_limit (if ?h + 1 \<ge> nPowLWMAFixHeight params then uint_mul_u32 x (word_of_int N) else x) (pow_limit params)) False"
    using p h q s(1) x(1) unfolding LwmaCalculateNextWorkRequired_def
    by (simp add: Let_def flip: N_def T_def t_def k_def)
  then show ?thesis using x t s(3) by auto
qed

section \<open>Properties\<close>


text \<open>
  C8: The proof-of-work check accepts a hash exactly when the difficulty decodes to a nonzero target,
  without a flag and within the limit, and the hash read as a little-endian number does not exceed it.
\<close>

theorem CheckProofOfWork_iff:
  assumes "length hash = 32"
  shows "CheckProofOfWork hash bits params \<longleftrightarrow>
     in_range params bits \<and> compact_num bits \<noteq> 0 \<and> le_val hash \<le> compact_num bits"
proof -
  obtain a where a: "SetCompact bits = (a, compact_num bits \<noteq> 0 \<and> bit bits 23, 2 ^ 256 \<le> compact_num bits)"
    "wf_uint a" "le_val a = compact_num bits mod 2 ^ 256" by (rule SetCompact_cases)
  show ?thesis
    using a assms
    by (cases "2 ^ 256 \<le> compact_num bits")
       (auto simp: CheckProofOfWork_def in_range_def EqualTo_iff CompareTo_iff le_val_UintToArith256 not_less)
qed

text \<open>The exact LWMA target of the main network.\<close>

lemma main_limit: "le_val (pow_limit main_params) = 0xfffff * 2 ^ 216"
proof -
  have "length main_powLimit = 32" by (simp add: main_powLimit_def)
  then have "le_val (pow_limit main_params) = le_val main_powLimit"
    by (simp add: pow_limit_def main_params_def le_val_UintToArith256)
  also have "\<dots> = 0xfffff * 2 ^ 216" by (simp add: main_powLimit_def le_val_append)
  finally show ?thesis .
qed

lemma main_sel:
  "nLWMAWindow main_params = 60" "nPowTargetSpacing main_params = 60" "nPowLWMAFixHeight main_params = 3200075"
  by (simp_all add: main_params_def)

lemma main_sane: "params_sane main_params"
  by (simp add: params_sane_def main_params_def)

lemma in_range_target: "in_range params c \<Longrightarrow> le_val (fst (SetCompact c)) \<le> le_val (pow_limit params)"
  using wf_SetCompact [of c] by (cases "SetCompact c") (auto simp: in_range_def CompareTo_iff)

lemma window_targets_bound:
  assumes idx: "index_in_range params st" and p: "st p = Some b" and N: "0 < N" "N \<le> nHeight b"
  shows "sum_list (window_targets st p N (nHeight b)) \<le> nat N * (le_val (pow_limit params) div nat (N * N))"
proof -
  have wf: "wf_store st" using idx by (simp add: index_in_range_def)
  have "x \<le> le_val (pow_limit params) div nat (N * N)" if x: "x \<in> set (window_targets st p N (nHeight b))" for x
  proof -
    obtain i where "i \<in> set [nHeight b - N + 1..nHeight b]"
      and xi: "x = le_val (fst (SetCompact (nBits (block_at st p i)))) div nat (N * N)"
      using x unfolding window_targets_def by auto
    then have i: "0 \<le> i" "i \<le> nHeight b" using N by auto
    obtain q where "st q = Some (block_at st p i)" using block_at [OF wf p i(1,2)] by blast
    then have "in_range params (nBits (block_at st p i))" using idx by (auto simp: index_in_range_def)
    then show ?thesis using xi in_range_target by (simp add: div_le_mono)
  qed
  then have "sum_list (window_targets st p N (nHeight b)) \<le> length (window_targets st p N (nHeight b)) * (le_val (pow_limit params) div nat (N * N))"
    by (rule sum_list_bound)
  then show ?thesis using N by (simp add: window_targets_def)
qed

text \<open>
  C21: On the main network the LWMA arithmetic never wraps around: the next target is exactly the
  smaller of the limit and \<open>t * S / k\<close> (times the window from the fix height on), where \<open>t\<close> is the weighted
  sum of the capped solve times but at least 180 seconds, \<open>S\<close> the sum over the last 60 blocks of their
  targets divided by 3600, and \<open>k = 109800\<close>.
\<close>

theorem lwma_main_exact:
  assumes "index_in_range main_params st" "st p = Some b" "60 \<le> nHeight b"
  shows "\<exists>x. LwmaCalculateNextWorkRequired st p main_params = GetCompact x False \<and> wf_uint x \<and>
    le_val x = min (le_val (pow_limit main_params))
      (nat (max 180 (lwma_weighted 60 0 (GetBlockTime (block_at st p (nHeight b - 60))) (window_times st p 60 (nHeight b))))
       * sum_list (window_targets st p 60 (nHeight b)) div 109800 * (if 3200075 \<le> nHeight b + 1 then 60 else 1))"
proof -
  let ?S = "sum_list (window_targets st p 60 (nHeight b))"
  let ?t0 = "lwma_weighted 60 0 (GetBlockTime (block_at st p (nHeight b - 60))) (window_times st p 60 (nHeight b))"
  have wf: "wf_store st" using assms(1) by (simp add: index_in_range_def)
  have c: "(60 * 60 :: int) sdiv 20 = 180" "(60 * (60 + 1) * 60 :: int) sdiv 2 = 109800"
    "(word_of_int 60 :: u32) = 60" by (simp_all add: sdiv_nonneg)
  define t where "t = (if ?t0 < 180 then 180 else ?t0)"
  have tm: "t = max 180 ?t0" by (simp add: t_def)
  obtain x where x: "LwmaCalculateNextWorkRequired st p main_params
        = GetCompact (clamp_limit (if 3200075 \<le> nHeight b + 1 then uint_mul_u32 x 60 else x) (pow_limit main_params)) False"
    "wf_uint x" "le_val x = (nat t * (?S mod 2 ^ 256)) mod 2 ^ 256 div 109800" "0 \<le> t" "t \<le> 658800"
    using lwma_value [OF main_sane wf assms(2)] assms(3) unfolding main_sel c t_def [symmetric] by auto
  have S: "?S \<le> 60 * (0xfffff * 2 ^ 216 div 3600)"
    using window_targets_bound [OF assms(1,2), of 60] assms(3) main_limit by simp
  then have S256: "?S mod 2 ^ 256 = ?S" by (intro mod_less) simp
  have "nat t * ?S \<le> 658800 * (60 * (0xfffff * 2 ^ 216 div 3600))" using x(5) S by (intro mult_le_mono) auto
  then have small: "nat t * ?S \<le> 658800 * 60 * 0xfffff * 2 ^ 216 div 3600" by simp
  then have v: "le_val x = nat t * ?S div 109800" using x(3) S256 by (simp add: mod_less)
  have "nat t * ?S div 109800 \<le> 658800 * 60 * 0xfffff * 2 ^ 216 div 3600" using small by simp
  then have "le_val (if 3200075 \<le> nHeight b + 1 then uint_mul_u32 x 60 else x)
      = nat t * ?S div 109800 * (if 3200075 \<le> nHeight b + 1 then 60 else 1)"
    using x(2) v by (simp add: uval_mul_u32)
  moreover have "wf_uint (if 3200075 \<le> nHeight b + 1 then uint_mul_u32 x 60 else x)" using x(2) by simp
  ultimately show ?thesis
    using x(1) unfolding tm by (auto simp: clamp_limit_def CompareTo_iff min_def intro!: exI)
qed

text \<open>A chain of a development network: ideal spacing, every block at the limit.\<close>

definition dev_powLimit :: uint256 where
  "dev_powLimit = replicate 31 0xff @ [0x7f]"

definition dev_params :: Params where
  "dev_params = main_params\<lparr>powLimit := dev_powLimit, nPowTargetTimespan := 24 * 60 * 60, nPowTargetSpacing := 150,
     fPowAllowMinDifficultyBlocks := True, nPowKGWHeight := 4001, nPowDGWHeight := 4001, nPowLWMAHeight := 4001,
     nPowLWMAFixHeight := 0\<rparr>"

definition dev_block :: "nat \<Rightarrow> CBlockIndex" where
  "dev_block i = (new_CBlockIndex \<lparr>hdr_nVersion = 1, hdr_hashPrevBlock = null_hash, hdr_hashMerkleRoot = null_hash,
      hdr_nTime = word_of_nat (150 * i), hdr_nBits = 0x207fffff, hdr_nNonce = 0\<rparr>)
    \<lparr>nHeight := int i, pprev := (if i = 0 then None else Some (i - 1))\<rparr>"

definition dev_store :: index_store where
  "dev_store i = (if i \<le> 5000 then Some (dev_block i) else None)"

lemma dev_wf: "wf_store dev_store"
  by (auto simp: wf_store_def wf_node_def dev_store_def dev_block_def new_CBlockIndex_def split: if_splits)

lemma dev_walk: "n \<le> i \<Longrightarrow> i \<le> 5000 \<Longrightarrow> walk_back dev_store n i = Some (i - n)"
proof (induction n arbitrary: i)
  case (Suc n)
  then show ?case by (auto simp: dev_store_def dev_block_def)
qed simp

lemma dev_block_at: "0 \<le> i \<Longrightarrow> i \<le> 5000 \<Longrightarrow> block_at dev_store 5000 i = dev_block (nat i)"
proof -
  assume i: "0 \<le> i" "i \<le> 5000"
  have h: "nHeight (the (dev_store 5000)) = 5000" by (simp add: dev_store_def dev_block_def)
  have "5000 - nat (5000 - i) = nat i" using i by linarith
  then show ?thesis using i by (simp add: block_at_def h dev_walk) (simp add: dev_store_def)
qed

lemma dev_times: "window_times dev_store 5000 60 5000 = map (\<lambda>i. 150 * i) [4941..5000]"
  unfolding window_times_def
  by (rule map_cong) (auto simp: dev_block_at GetBlockTime_def dev_block_def new_CBlockIndex_def unsigned_of_nat take_bit_nat_eq_self)

lemma dev_target: "le_val (fst (SetCompact 0x207fffff)) = 0x7fffff * 2 ^ 232"
proof -
  have "compact_num 0x207fffff = 0x7fffff * 2 ^ 232" by (simp add: compact_num_def)
  then show ?thesis using SetCompact_num [of "0x207fffff"] by simp
qed

lemma dev_targets: "window_targets dev_store 5000 60 5000 = replicate 60 (0x7fffff * 2 ^ 232 div 3600)"
proof -
  define c where "c = (0x7fffff * 2 ^ 232 div 3600 :: nat)"
  have "le_val (fst (SetCompact (nBits (block_at dev_store 5000 i)))) div nat (60 * 60) = c"
    if "i \<in> set [5000 - 60 + 1..5000]" for i
  proof -
    have "0 \<le> i" "i \<le> 5000" using that unfolding set_upto by auto
    then have "nBits (block_at dev_store 5000 i) = 0x207fffff" by (simp add: dev_block_at dev_block_def new_CBlockIndex_def)
    then show ?thesis by (simp only: dev_target c_def) simp
  qed
  then have "window_targets dev_store 5000 60 5000 = map (\<lambda>i. c) [5000 - 60 + 1..5000]"
    unfolding window_targets_def by (intro map_cong) auto
  also have "\<dots> = replicate (length [5000 - 60 + 1..5000 :: int]) c" by (rule map_replicate_const)
  also have "length [5000 - 60 + 1..5000 :: int] = 60" by simp
  finally show ?thesis by (simp only: c_def)
qed

lemma dev_weighted: "lwma_weighted 150 0 741000 (map (\<lambda>i. 150 * i) [4941..5000]) = 274500"
  by code_simp

lemma dev_sel:
  "nLWMAWindow dev_params = 60" "nPowTargetSpacing dev_params = 150" "nPowLWMAFixHeight dev_params = 0"
  by (simp_all add: main_params_def dev_params_def)

lemma dev_sane: "params_sane dev_params"
  by (simp add: params_sane_def main_params_def dev_params_def)

text \<open>
  C22: The LWMA sum is divided by the square of the window \<open>for overflow safety\<close>, which is not enough for
  a network whose limit is \<open>2 ^ 255 - 1\<close>: on a development chain with ideal spacing and every block at the
  minimum difficulty (so that the next target should stay at the limit) the product wraps around, and the
  next target is more than 4000 times smaller than the last.
\<close>

theorem lwma_dev_overflow:
  "\<exists>c. LwmaCalculateNextWorkRequired dev_store 5000 dev_params = Some c \<and>
       4000 * compact_num c < compact_num (nBits (the (dev_store 5000)))"
proof -
  have b: "dev_store 5000 = Some (dev_block 5000)" by (simp add: dev_store_def)
  have h: "nHeight (dev_block 5000) = 5000" by (simp add: dev_block_def)
  have c: "(60 * 150 :: int) sdiv 20 = 450" "(60 * (60 + 1) * 150 :: int) sdiv 2 = 274500"
    "(word_of_int 60 :: u32) = 60" by (simp_all add: sdiv_nonneg)
  have prev: "GetBlockTime (block_at dev_store 5000 (5000 - 60)) = 741000"
    by (simp add: dev_block_at GetBlockTime_def dev_block_def new_CBlockIndex_def)
  let ?S = "60 * (0x7fffff * 2 ^ 232 div 3600) :: nat"
  have S: "sum_list (window_targets dev_store 5000 60 5000) = ?S" unfolding dev_targets by (simp only: sum_list_replicate of_nat_id)
  obtain x where x: "LwmaCalculateNextWorkRequired dev_store 5000 dev_params
        = GetCompact (clamp_limit (uint_mul_u32 x 60) (pow_limit dev_params)) False"
    "wf_uint x" "le_val x = (274500 * (?S mod 2 ^ 256)) mod 2 ^ 256 div 274500"
    using lwma_value [OF dev_sane dev_wf b] unfolding h dev_sel c prev dev_times dev_weighted S by auto
  have v: "le_val (uint_mul_u32 x 60) = (274500 * (?S mod 2 ^ 256)) mod 2 ^ 256 div 274500 * 60"
    unfolding uval_mul_u32 [OF x(2)] x(3) by simp
  let ?y = "clamp_limit (uint_mul_u32 x 60) (pow_limit dev_params)"
  have y: "wf_uint ?y" "le_val ?y \<le> le_val (uint_mul_u32 x 60)"
    using x(2) by (auto simp: clamp_limit_def CompareTo_iff)
  obtain c' b' where cb: "GetCompact ?y False = Some c'" "SetCompact c' = (b', False, False)" "wf_uint b'" "le_val b' \<le> le_val ?y"
    using GetCompact_SetCompact [OF y(1)] by blast
  have "compact_num c' = le_val b'" using SetCompact_num [of c'] cb(2) by auto
  then have "4000 * compact_num c' \<le> 4000 * le_val (uint_mul_u32 x 60)" using cb(4) y(2) by simp
  also have "\<dots> < 0x7fffff * 2 ^ 232" unfolding v by simp
  also have "\<dots> = compact_num (nBits (the (dev_store 5000)))"
    by (simp add: b dev_block_def new_CBlockIndex_def compact_num_def)
  finally show ?thesis using x(1) cb(1) by auto
qed

text \<open>
  A fix height of zero does not disable the LWMA correction: with \<open>nPowLWMAFixHeight = 0\<close> the
  algorithm gives, at every height, the same result as with a fix height that has long passed.
\<close>

theorem lwma_fix_height_zero:
  assumes "st p = Some b" "0 \<le> nHeight b" "0 \<le> h" "h \<le> nHeight b"
  shows "LwmaCalculateNextWorkRequired st p (params\<lparr>nPowLWMAFixHeight := 0\<rparr>)
       = LwmaCalculateNextWorkRequired st p (params\<lparr>nPowLWMAFixHeight := h\<rparr>)"
proof -
  have "0 \<le> nHeight b + 1" "h \<le> nHeight b + 1" using assms by linarith+
  then show ?thesis
    using assms(1) unfolding LwmaCalculateNextWorkRequired_def
    by (auto simp: pow_limit_def Let_def split: option.split prod.split)
qed

theorem lwma_fix_height_zero_witness:
  "LwmaCalculateNextWorkRequired dev_store 5000 (main_params\<lparr>nPowLWMAFixHeight := 0\<rparr>)
   = LwmaCalculateNextWorkRequired dev_store 5000 (main_params\<lparr>nPowLWMAFixHeight := 100\<rparr>)"
  using lwma_fix_height_zero [of dev_store 5000 "dev_block 5000" 100 main_params]
  by (simp add: dev_store_def dev_block_def)

text \<open>A store for the main network: a genesis block at the limit of 60 identical blocks.\<close>

definition main_store :: index_store where
  "main_store i = (if i \<le> 100 then Some ((dev_block i)\<lparr>nBits := 0x1e0fffff\<rparr>) else None)"

lemma main_compact: "compact_num 0x1e0fffff = 0xfffff * 2 ^ 216"
  by (simp add: compact_num_def)

lemma main_store_in_range: "index_in_range main_params main_store"
proof -
  have "in_range main_params 0x1e0fffff"
  proof -
    obtain a where "SetCompact 0x1e0fffff = (a, compact_num 0x1e0fffff \<noteq> 0 \<and> bit (0x1e0fffff :: u32) 23, 2 ^ 256 \<le> compact_num 0x1e0fffff)"
      "wf_uint a" "le_val a = compact_num 0x1e0fffff mod 2 ^ 256" by (rule SetCompact_cases)
    then show ?thesis by (simp add: in_range_def CompareTo_iff main_compact main_limit)
  qed
  then show ?thesis
    by (auto simp: index_in_range_def wf_store_def wf_node_def main_store_def dev_block_def new_CBlockIndex_def split: if_splits)
qed


theorem CheckProofOfWork_iff_witness:
  "CheckProofOfWork (replicate 32 0) 0x1e0fffff main_params"
  using CheckProofOfWork_iff [of "replicate 32 0" "0x1e0fffff" main_params] main_store_in_range
  by (auto simp: index_in_range_def main_store_def main_compact dest!: spec [of _ 100])

theorem lwma_main_exact_witness:
  "\<exists>x. LwmaCalculateNextWorkRequired main_store 100 main_params = GetCompact x False \<and> wf_uint x
       \<and> le_val x \<le> 0xfffff * 2 ^ 216"
proof -
  have "main_store 100 = Some ((dev_block 100)\<lparr>nBits := 0x1e0fffff\<rparr>)" by (simp add: main_store_def)
  from lwma_main_exact [OF main_store_in_range this] show ?thesis
    unfolding main_limit by (auto simp: dev_block_def)
qed

end
