(* ===== verification/VersionBits.thy ===== *)
theory VersionBits
  imports Pow
begin

text \<open>
  Version-bits deployments, \<^verbatim>\<open>src/src/versionbits.{h,cpp}\<close>: the state machine that decides per period
  whether a rule change is defined, started, locked in, active or failed, with the cache that remembers
  the states of period boundaries.  The virtual functions of \<open>AbstractThresholdConditionChecker\<close> are the
  record \<open>checker\<close>; \<open>VersionBitsConditionChecker\<close> is the instance the node uses.  The theorems relate the cached
  computation to a definition of the states without a cache.
\<close>

unbundle bit_operations_syntax

section \<open>Data\<close>

datatype ThresholdState = DEFINED | STARTED | LOCKED_IN | ACTIVE | FAILED

definition VERSIONBITS_TOP_BITS :: u32 where "VERSIONBITS_TOP_BITS = 0x20000000"
definition VERSIONBITS_TOP_MASK :: u32 where "VERSIONBITS_TOP_MASK = 0xE0000000"

text \<open>\<open>ThresholdConditionCache\<close>: the key \<open>None\<close> is the null pointer, the parent of the genesis block.\<close>

type_synonym ThresholdConditionCache = "ptr option \<Rightarrow> ThresholdState option"

record checker =
  Condition :: "CBlockIndex \<Rightarrow> bool"
  BeginTime :: int
  EndTime :: int
  Period :: int
  Threshold :: "int \<Rightarrow> int"

definition INT_MAX :: int where
  "INT_MAX = 2 ^ 31 - 1"

section \<open>\<open>GetStateFor\<close>\<close>

text \<open>\<open>pindex->GetAncestor(height)\<close> on a pointer that must not be null.\<close>

definition period_parent :: "index_store \<Rightarrow> int \<Rightarrow> ptr \<Rightarrow> ptr option option" where
  "period_parent st nPeriod p =
     (case st p of
        None \<Rightarrow> None
      | Some b \<Rightarrow> GetAncestor st p (nHeight b - ((nHeight b + 1) smod nPeriod)))"

definition prev_period :: "index_store \<Rightarrow> int \<Rightarrow> ptr \<Rightarrow> ptr option option" where
  "prev_period st nPeriod p =
     (case st p of None \<Rightarrow> None | Some b \<Rightarrow> GetAncestor st p (nHeight b - nPeriod))"

text \<open>The walk backwards: the cache, the parent whose state is known, and \<open>vToCompute\<close> with its back first.\<close>

partial_function (option) walk_to_known ::
  "checker \<Rightarrow> index_store \<Rightarrow> ThresholdConditionCache \<Rightarrow> ptr option \<Rightarrow> ptr list
   \<Rightarrow> (ThresholdConditionCache \<times> ptr option \<times> ptr list) option" where
  [code]: "walk_to_known C st cache pindexPrev vToCompute =
     (if cache pindexPrev \<noteq> None then Some (cache, pindexPrev, vToCompute)
      else case pindexPrev of
             None \<Rightarrow> Some (cache(None \<mapsto> DEFINED), None, vToCompute)
           | Some p \<Rightarrow>
               (case GetMedianTimePast st p of
                  None \<Rightarrow> None
                | Some mtp \<Rightarrow>
                    if mtp < BeginTime C then Some (cache(Some p \<mapsto> DEFINED), Some p, vToCompute)
                    else (case prev_period st (Period C) p of
                            None \<Rightarrow> None
                          | Some q \<Rightarrow> walk_to_known C st cache q (p # vToCompute))))"

text \<open>
  The search for the height at which the state became \<open>STARTED\<close>.  Reading \<open>cache[pindex_search]\<close>
  inserts \<open>DEFINED\<close>, the first enumerator, for a key that is not there.
\<close>

partial_function (option) search_start ::
  "checker \<Rightarrow> index_store \<Rightarrow> ThresholdConditionCache \<Rightarrow> ptr option \<Rightarrow> ThresholdState \<Rightarrow> int
   \<Rightarrow> (ThresholdConditionCache \<times> int) option" where
  [code]: "search_start C st cache pindex_search state_search nStartHeight =
     (if state_search = STARTED
      then (case pindex_search of
              None \<Rightarrow> None
            | Some p \<Rightarrow>
                (case st p of
                   None \<Rightarrow> None
                 | Some b \<Rightarrow>
                     (case prev_period st (Period C) p of
                        None \<Rightarrow> None
                      | Some q \<Rightarrow>
                          let cache' = (if cache q = None then cache(q \<mapsto> DEFINED) else cache)
                          in search_start C st cache' q (the (cache' q)) (min nStartHeight (nHeight b + 1)))))
      else Some (cache, nStartHeight))"

text \<open>Counting the signalling blocks of a period: the count and the block before the period.\<close>

fun count_period :: "checker \<Rightarrow> index_store \<Rightarrow> nat \<Rightarrow> ptr option \<Rightarrow> int \<Rightarrow> (int \<times> ptr option) option" where
  "count_period C st 0 p count = Some (count, p)"
| "count_period C st (Suc n) None count = None"
| "count_period C st (Suc n) (Some p) count =
     (case st p of
        None \<Rightarrow> None
      | Some b \<Rightarrow> count_period C st n (pprev b) (if Condition C b then count + 1 else count))"

text \<open>One step of the walk forward: the next state and the start height.\<close>

definition next_state :: "checker \<Rightarrow> index_store \<Rightarrow> ThresholdState \<Rightarrow> int \<Rightarrow> ptr \<Rightarrow> (ThresholdState \<times> int) option" where
  "next_state C st state nStartHeight p =
     (case state of
        DEFINED \<Rightarrow>
          (case (st p, GetMedianTimePast st p) of
             (Some b, Some mtp) \<Rightarrow>
               if mtp \<ge> EndTime C then Some (FAILED, nStartHeight)
               else if mtp \<ge> BeginTime C then Some (STARTED, nHeight b + 1)
               else Some (DEFINED, nStartHeight)
           | _ \<Rightarrow> None)
      | STARTED \<Rightarrow>
          (case GetMedianTimePast st p of
             None \<Rightarrow> None
           | Some mtp \<Rightarrow>
               if mtp \<ge> EndTime C then Some (FAILED, nStartHeight)
               else (case count_period C st (nat (Period C)) (Some p) 0 of
                       Some (count, Some pc) \<Rightarrow>
                         (case st pc of
                            None \<Rightarrow> None
                          | Some bc \<Rightarrow>
                              if \<not> (nStartHeight > 0 \<and> nStartHeight < INT_MAX) then None
                              else let nAttempt = (nHeight bc + 1 - nStartHeight) sdiv Period C
                                   in if count \<ge> Threshold C nAttempt then Some (LOCKED_IN, nStartHeight)
                                      else Some (STARTED, nStartHeight))
                     | _ \<Rightarrow> None))
      | LOCKED_IN \<Rightarrow> Some (ACTIVE, nStartHeight)
      | FAILED \<Rightarrow> Some (FAILED, nStartHeight)
      | ACTIVE \<Rightarrow> Some (ACTIVE, nStartHeight))"

fun walk_forward :: "checker \<Rightarrow> index_store \<Rightarrow> ptr list \<Rightarrow> ThresholdConditionCache \<Rightarrow> ThresholdState \<Rightarrow> int
    \<Rightarrow> (ThresholdConditionCache \<times> ThresholdState) option" where
  "walk_forward C st [] cache state nStartHeight = Some (cache, state)"
| "walk_forward C st (p # vToCompute) cache state nStartHeight =
     (case next_state C st state nStartHeight p of
        None \<Rightarrow> None
      | Some (stateNext, nStartHeight') \<Rightarrow>
          walk_forward C st vToCompute (cache(Some p \<mapsto> stateNext)) stateNext nStartHeight')"

definition GetStateFor :: "checker \<Rightarrow> index_store \<Rightarrow> ptr option \<Rightarrow> ThresholdConditionCache
    \<Rightarrow> (ThresholdConditionCache \<times> ThresholdState) option" where
  "GetStateFor C st pindexPrev cache =
     (case (case pindexPrev of None \<Rightarrow> Some None | Some p \<Rightarrow> period_parent st (Period C) p) of
        None \<Rightarrow> None
      | Some parent \<Rightarrow>
          (case walk_to_known C st cache parent [] of
             None \<Rightarrow> None
           | Some (cache1, known, vToCompute) \<Rightarrow>
               (case cache1 known of
                  None \<Rightarrow> None
                | Some state \<Rightarrow>
                    (case search_start C st cache1 known state INT_MAX of
                       None \<Rightarrow> None
                     | Some (cache2, nStartHeight) \<Rightarrow> walk_forward C st vToCompute cache2 state nStartHeight))))"

section \<open>Derived queries\<close>

text \<open>\<open>GetStateSinceHeightFor\<close>.\<close>

partial_function (option) since_loop ::
  "checker \<Rightarrow> index_store \<Rightarrow> ThresholdState \<Rightarrow> ptr \<Rightarrow> ptr option \<Rightarrow> ThresholdConditionCache
   \<Rightarrow> (ThresholdConditionCache \<times> ptr) option" where
  [code]: "since_loop C st initialState pindexPrev previousPeriodParent cache =
     (case previousPeriodParent of
        None \<Rightarrow> Some (cache, pindexPrev)
      | Some q \<Rightarrow>
          (case GetStateFor C st (Some q) cache of
             None \<Rightarrow> None
           | Some (cache', s) \<Rightarrow>
               if s = initialState
               then (case prev_period st (Period C) q of
                       None \<Rightarrow> None
                     | Some r \<Rightarrow> since_loop C st initialState q r cache')
               else Some (cache', pindexPrev)))"

definition GetStateSinceHeightFor :: "checker \<Rightarrow> index_store \<Rightarrow> ptr option \<Rightarrow> ThresholdConditionCache
    \<Rightarrow> (ThresholdConditionCache \<times> int) option" where
  "GetStateSinceHeightFor C st pindexPrev cache =
     (case GetStateFor C st pindexPrev cache of
        None \<Rightarrow> None
      | Some (cache1, initialState) \<Rightarrow>
          if initialState = DEFINED then Some (cache1, 0)
          else (case pindexPrev of
                  None \<Rightarrow> None
                | Some p \<Rightarrow>
                    (case period_parent st (Period C) p of
                       Some (Some q) \<Rightarrow>
                         (case prev_period st (Period C) q of
                            None \<Rightarrow> None
                          | Some r \<Rightarrow>
                              (case since_loop C st initialState q r cache1 of
                                 None \<Rightarrow> None
                               | Some (cache2, s) \<Rightarrow>
                                   (case st s of None \<Rightarrow> None | Some b \<Rightarrow> Some (cache2, nHeight b + 1))))
                     | _ \<Rightarrow> None)))"

record BIP9Stats =
  st_period :: int
  st_threshold :: int
  st_elapsed :: int
  st_count :: int
  st_possible :: bool

text \<open>\<open>GetStateStatisticsFor\<close>: the count runs back to the end of the previous period.\<close>

partial_function (option) stats_count :: "checker \<Rightarrow> index_store \<Rightarrow> int \<Rightarrow> ptr \<Rightarrow> int \<Rightarrow> int option" where
  [code]: "stats_count C st endHeight p count =
     (case st p of
        None \<Rightarrow> None
      | Some b \<Rightarrow>
          if endHeight = nHeight b then Some count
          else (case pprev b of
                  None \<Rightarrow> None
                | Some q \<Rightarrow> stats_count C st endHeight q (if Condition C b then count + 1 else count)))"

definition GetStateStatisticsFor :: "checker \<Rightarrow> index_store \<Rightarrow> ptr option \<Rightarrow> ThresholdConditionCache
    \<Rightarrow> (ThresholdConditionCache \<times> BIP9Stats) option" where
  "GetStateStatisticsFor C st pindex cache =
     (case pindex of
        None \<Rightarrow> Some (cache, \<lparr>st_period = Period C, st_threshold = Threshold C 0, st_elapsed = 0, st_count = 0,
                              st_possible = False\<rparr>)
      | Some p \<Rightarrow>
          (case st p of
             None \<Rightarrow> None
           | Some b \<Rightarrow>
               (case period_parent st (Period C) p of
                  Some (Some e) \<Rightarrow>
                    (case st e of
                       None \<Rightarrow> None
                     | Some eb \<Rightarrow>
                         (case GetStateFor C st (Some e) cache of
                            None \<Rightarrow> None
                          | Some (cache1, state) \<Rightarrow>
                              (case (if state = STARTED
                                     then map_option (\<lambda>(c, h). (c, (nHeight eb + 1 - h) sdiv Period C))
                                                     (GetStateSinceHeightFor C st (Some e) cache1)
                                     else Some (cache1, 0)) of
                                 None \<Rightarrow> None
                               | Some (cache2, nAttempt) \<Rightarrow>
                                   (case stats_count C st (nHeight eb) p 0 of
                                      None \<Rightarrow> None
                                    | Some count \<Rightarrow>
                                        let threshold = Threshold C nAttempt;
                                            elapsed = nHeight b - nHeight eb
                                        in Some (cache2,
                                             \<lparr>st_period = Period C, st_threshold = threshold, st_elapsed = elapsed,
                                              st_count = count,
                                              st_possible = (Period C - threshold \<ge> elapsed - count)\<rparr>)))))
                | _ \<Rightarrow> None)))"

section \<open>The checker of the node\<close>

definition vb_Period :: "Params \<Rightarrow> DeploymentPos \<Rightarrow> int" where
  "vb_Period params pos =
     (let d = vDeployments params pos
      in if dep_nWindowSize d \<noteq> 0 then dep_nWindowSize d else uint (nMinerConfirmationWindow params))"

definition vb_Threshold :: "Params \<Rightarrow> DeploymentPos \<Rightarrow> int \<Rightarrow> int" where
  "vb_Threshold params pos nAttempt =
     (let d = vDeployments params pos
      in if dep_nThresholdStart d = 0 then uint (nRuleChangeActivationThreshold params)
         else if dep_nThresholdMin d = 0 \<or> dep_nFalloffCoeff d = 0 then dep_nThresholdStart d
         else max (dep_nThresholdMin d)
                  (dep_nThresholdStart d - ((nAttempt * nAttempt * vb_Period params pos) sdiv 100) sdiv dep_nFalloffCoeff d))"

definition vb_Mask :: "Params \<Rightarrow> DeploymentPos \<Rightarrow> u32" where
  "vb_Mask params pos = push_bit (dep_bit (vDeployments params pos)) 1"

definition vb_Condition :: "Params \<Rightarrow> DeploymentPos \<Rightarrow> CBlockIndex \<Rightarrow> bool" where
  "vb_Condition params pos b \<longleftrightarrow>
     nVersion b AND VERSIONBITS_TOP_MASK = VERSIONBITS_TOP_BITS \<and> nVersion b AND vb_Mask params pos \<noteq> 0"

definition VersionBitsConditionChecker :: "Params \<Rightarrow> DeploymentPos \<Rightarrow> checker" where
  "VersionBitsConditionChecker params pos =
     \<lparr>Condition = vb_Condition params pos, BeginTime = dep_nStartTime (vDeployments params pos),
      EndTime = dep_nTimeout (vDeployments params pos), Period = vb_Period params pos,
      Threshold = vb_Threshold params pos\<rparr>"

text \<open>\<open>VersionBitsCache\<close>: one cache per deployment.\<close>

type_synonym VersionBitsCache = "DeploymentPos \<Rightarrow> ThresholdConditionCache"

definition VersionBitsState :: "index_store \<Rightarrow> ptr option \<Rightarrow> Params \<Rightarrow> DeploymentPos \<Rightarrow> VersionBitsCache
    \<Rightarrow> (VersionBitsCache \<times> ThresholdState) option" where
  "VersionBitsState st pindexPrev params pos cache =
     map_option (\<lambda>(c, s). (cache(pos := c), s))
       (GetStateFor (VersionBitsConditionChecker params pos) st pindexPrev (cache pos))"

definition VersionBitsStatistics :: "index_store \<Rightarrow> ptr option \<Rightarrow> Params \<Rightarrow> DeploymentPos \<Rightarrow> VersionBitsCache
    \<Rightarrow> (VersionBitsCache \<times> BIP9Stats) option" where
  "VersionBitsStatistics st pindexPrev params pos cache =
     map_option (\<lambda>(c, s). (cache(pos := c), s))
       (GetStateStatisticsFor (VersionBitsConditionChecker params pos) st pindexPrev (cache pos))"

definition VersionBitsStateSinceHeight :: "index_store \<Rightarrow> ptr option \<Rightarrow> Params \<Rightarrow> DeploymentPos \<Rightarrow> VersionBitsCache
    \<Rightarrow> (VersionBitsCache \<times> int) option" where
  "VersionBitsStateSinceHeight st pindexPrev params pos cache =
     map_option (\<lambda>(c, s). (cache(pos := c), s))
       (GetStateSinceHeightFor (VersionBitsConditionChecker params pos) st pindexPrev (cache pos))"

definition VersionBitsCache_Clear :: "VersionBitsCache \<Rightarrow> VersionBitsCache" where
  "VersionBitsCache_Clear cache = (\<lambda>d. \<lambda>_. None)"

section \<open>The states without a cache\<close>

text \<open>
  The state for the children of an aligned parent (a null pointer, or a block that ends a period),
  together with the height at which a \<open>STARTED\<close> run began: the state of the previous period's parent,
  advanced by one step.
\<close>

fun spec_periods :: "checker \<Rightarrow> index_store \<Rightarrow> nat \<Rightarrow> ptr option \<Rightarrow> ThresholdState \<times> int" where
  "spec_periods C st 0 x = (DEFINED, INT_MAX)"
| "spec_periods C st (Suc k) None = (DEFINED, INT_MAX)"
| "spec_periods C st (Suc k) (Some p) =
     (if the (GetMedianTimePast st p) < BeginTime C then (DEFINED, INT_MAX)
      else let prev = spec_periods C st k (the (prev_period st (Period C) p))
           in the (next_state C st (fst prev) (snd prev) p))"

definition spec_state :: "checker \<Rightarrow> index_store \<Rightarrow> ptr option \<Rightarrow> ThresholdState \<times> int" where
  "spec_state C st x =
     spec_periods C st (case x of None \<Rightarrow> 0 | Some p \<Rightarrow> nat ((nHeight (the (st p)) + 1) div Period C)) x"

definition index_ok :: "index_store \<Rightarrow> bool" where
  "index_ok st \<longleftrightarrow> wf_store st \<and> (\<forall>p b. st p = Some b \<longrightarrow> linked st b \<and> nHeight b + 1 < INT_MAX)"

definition aligned :: "checker \<Rightarrow> index_store \<Rightarrow> ptr option \<Rightarrow> bool" where
  "aligned C st x \<longleftrightarrow>
     (case x of
        None \<Rightarrow> True
      | Some p \<Rightarrow> (case st p of None \<Rightarrow> False | Some b \<Rightarrow> (nHeight b + 1) mod Period C = 0))"

definition height1 :: "index_store \<Rightarrow> ptr option \<Rightarrow> int" where
  "height1 st x = (case x of None \<Rightarrow> 0 | Some p \<Rightarrow> nHeight (the (st p)) + 1)"

text \<open>A cache agrees with the states, and knows the predecessor of every \<open>STARTED\<close> entry.\<close>

definition cache_ok :: "checker \<Rightarrow> index_store \<Rightarrow> ThresholdConditionCache \<Rightarrow> bool" where
  "cache_ok C st cache \<longleftrightarrow>
     (\<forall>x s. cache x = Some s \<longrightarrow> aligned C st x \<and> s = fst (spec_state C st x) \<and>
        (\<forall>p. x = Some p \<longrightarrow> s = STARTED \<longrightarrow> cache (the (prev_period st (Period C) p)) \<noteq> None))"

lemma index_ok_mtp: "index_ok st \<Longrightarrow> st p = Some b \<Longrightarrow> \<exists>t. GetMedianTimePast st p = Some t"
  using GetMedianTimePast_ok [of st p b] by (auto simp: index_ok_def)

lemma index_okD: "index_ok st \<Longrightarrow> wf_store st"
  "index_ok st \<Longrightarrow> st p = Some b \<Longrightarrow> nHeight b + 1 < INT_MAX"
  by (auto simp: index_ok_def)

lemma count_period_ok:
  assumes "wf_store st" "st p = Some b" "int n \<le> nHeight b"
  shows "\<exists>c. count_period C st n (Some p) count = Some (c, walk_back st n p)"
  using assms(2,3)
proof (induction n arbitrary: p b count)
  case (Suc n)
  then have "0 < nHeight b" by simp
  then obtain q c where "pprev b = Some q" "st q = Some c" "nHeight b = nHeight c + 1"
    by (rule wf_store_prev [OF assms(1) Suc(2)])
  then show ?case using Suc(1) [of q c] Suc(2,3) by simp
qed simp

lemma cache_okD:
  "cache_ok C st cache \<Longrightarrow> cache x \<noteq> None \<Longrightarrow> cache x = Some (fst (spec_state C st x)) \<and> aligned C st x"
  "cache_ok C st cache \<Longrightarrow> cache (Some p) = Some STARTED \<Longrightarrow> cache (the (prev_period st (Period C) p)) \<noteq> None"
  by (auto simp: cache_ok_def)

text \<open>The states do not depend on the start height unless it matters.\<close>

definition start_agrees :: "ThresholdState \<Rightarrow> int \<Rightarrow> int \<Rightarrow> bool" where
  "start_agrees s h h' \<longleftrightarrow> (s = STARTED \<longrightarrow> h = h')"

text \<open>The period ends still to be computed: each one follows the previous, and none is cut off by the start time.\<close>

fun path_ok :: "checker \<Rightarrow> index_store \<Rightarrow> ptr option \<Rightarrow> ptr list \<Rightarrow> ptr option \<Rightarrow> bool" where
  "path_ok C st x [] y \<longleftrightarrow> x = y"
| "path_ok C st x (p # ps) y \<longleftrightarrow>
     aligned C st (Some p) \<and> prev_period st (Period C) p = Some x \<and>
     \<not> the (GetMedianTimePast st p) < BeginTime C \<and> path_ok C st (Some p) ps y"

lemma cache_ok_insert:
  assumes "cache_ok C st cache" "aligned C st x" "s = fst (spec_state C st x)"
    "\<And>p. x = Some p \<Longrightarrow> s = STARTED \<Longrightarrow> cache (the (prev_period st (Period C) p)) \<noteq> None"
  shows "cache_ok C st (cache(x \<mapsto> s))"
  using assms unfolding cache_ok_def by (auto split: if_splits)

text \<open>The first period end of a run of periods with the state \<open>s\<close>, going back from \<open>q\<close>.\<close>

inductive run_start :: "checker \<Rightarrow> index_store \<Rightarrow> ThresholdState \<Rightarrow> ptr \<Rightarrow> ptr \<Rightarrow> bool" for C st s where
  run_first: "fst (spec_state C st (Some q)) = s \<Longrightarrow> prev_period st (Period C) q = Some r \<Longrightarrow>
    r = None \<or> fst (spec_state C st r) \<noteq> s \<Longrightarrow> run_start C st s q q"
| run_back: "fst (spec_state C st (Some q)) = s \<Longrightarrow> prev_period st (Period C) q = Some (Some w) \<Longrightarrow>
    run_start C st s w e \<Longrightarrow> run_start C st s q e"

text \<open>
  The contract of \<open>AbstractThresholdConditionChecker\<close>: a positive period is all the cached computation
  needs of the virtual functions.
\<close>

locale threshold_checker =
  fixes C :: checker
  assumes period_pos: "0 < Period C"
begin

lemma aligned_prev:
  assumes st: "index_ok st" and a: "aligned C st (Some p)"
  obtains b x where "st p = Some b" "prev_period st (Period C) p = Some x" "aligned C st x"
    "height1 st x = height1 st (Some p) - Period C"
    "x = (if nHeight b < Period C then None else walk_back st (nat (Period C)) p)"
proof -
  obtain b where b: "st p = Some b" "(nHeight b + 1) mod Period C = 0" using a by (auto simp: aligned_def split: option.splits)
  note wf = index_okD(1) [OF st]
  have h0: "0 \<le> nHeight b" by (rule wf_store_height [OF wf b(1)])
  have "Period C dvd nHeight b + 1" using b(2) by auto
  then have le: "Period C \<le> nHeight b + 1" using h0 by (intro zdvd_imp_le) auto
  show ?thesis
  proof (cases "nHeight b < Period C")
    case True
    then have "nHeight b + 1 = Period C" using le by simp
    then show ?thesis
      using that [of b None] b True GetAncestor_walk_back [OF wf b(1), of "nHeight b - Period C"]
      by (simp add: prev_period_def height1_def aligned_def)
  next
    case False
    obtain q c where q: "walk_back st (nat (Period C)) p = Some q" "st q = Some c" "nHeight c = nHeight b - Period C"
      using walk_back_height [OF wf b(1), of "nat (Period C)"] False period_pos by auto
    have "nHeight b - Period C + 1 = nHeight b + 1 - Period C" by linarith
    then have "(nHeight b - Period C + 1) mod Period C = 0" by (simp only: minus_mod_self2 b(2))
    then have "aligned C st (Some q)" using q(2,3) by (simp only: aligned_def option.case)
    moreover have "prev_period st (Period C) p = Some (Some q)"
      using b(1) False q(1) period_pos GetAncestor_walk_back [OF wf b(1), of "nHeight b - Period C"]
      by (simp add: prev_period_def)
    moreover have "height1 st (Some q) = height1 st (Some p) - Period C" using b(1) q(2,3) by (simp add: height1_def)
    moreover have "Some q = (if nHeight b < Period C then None else walk_back st (nat (Period C)) p)" using False q(1) by simp
    ultimately show ?thesis using that b(1) by blast
  qed
qed

lemma aligned_parent:
  assumes "index_ok st" "aligned C st (Some p)"
  shows "period_parent st (Period C) p = Some (Some p)"
proof -
  obtain b where b: "st p = Some b" "(nHeight b + 1) mod Period C = 0" using assms(2) by (auto simp: aligned_def split: option.splits)
  note wf = index_okD(1) [OF assms(1)]
  have h0: "0 \<le> nHeight b" by (rule wf_store_height [OF wf b(1)])
  then have "(nHeight b + 1) smod Period C = 0" using b(2) smod_nonneg [of "nHeight b + 1" "Period C"] period_pos by simp
  then show ?thesis using GetAncestor_walk_back [OF wf b(1), of "nHeight b"] b(1) h0 by (simp add: period_parent_def)
qed

lemma run_start_aligned:
  assumes "run_start C st s q e" "index_ok st"
  shows "aligned C st (Some q) \<Longrightarrow> aligned C st (Some e)"
  using assms(1)
proof induction
  case (run_back q w e)
  obtain x where "prev_period st (Period C) q = Some x" "aligned C st x" by (rule aligned_prev [OF assms(2) run_back(5)])
  then show ?case using run_back by simp
qed

lemma spec_state_None [simp]: "spec_state C st None = (DEFINED, INT_MAX)"
  by (simp add: spec_state_def)

lemma spec_state_early:
  assumes "index_ok st" "aligned C st (Some p)" "the (GetMedianTimePast st p) < BeginTime C"
  shows "spec_state C st (Some p) = (DEFINED, INT_MAX)"
  using assms by (cases "nat ((nHeight (the (st p)) + 1) div Period C)") (auto simp: spec_state_def)

lemma spec_state_step:
  assumes st: "index_ok st" and a: "aligned C st (Some p)" and x: "prev_period st (Period C) p = Some x"
    and t: "\<not> the (GetMedianTimePast st p) < BeginTime C"
  shows "spec_state C st (Some p) = the (next_state C st (fst (spec_state C st x)) (snd (spec_state C st x)) p)"
proof -
  obtain b where b: "st p = Some b" "aligned C st x" "height1 st x = height1 st (Some p) - Period C"
    by (rule aligned_prev [OF st a]) (use x in auto)
  have h: "height1 st (Some p) = nHeight b + 1" using b(1) by (simp add: height1_def)
  have "(nHeight b + 1) div Period C = height1 st x div Period C + 1"
    using b(3) h period_pos by (metis add.commute diff_add_cancel div_add_self2 less_irrefl)
  moreover have "0 \<le> height1 st x div Period C"
  proof -
    have "0 \<le> height1 st x" using b(2) wf_store_height [OF index_okD(1) [OF st]]
      by (force simp: height1_def aligned_def split: option.splits)
    then show ?thesis using period_pos by (simp add: pos_imp_zdiv_nonneg_iff)
  qed
  ultimately have "nat ((nHeight b + 1) div Period C) = Suc (nat (height1 st x div Period C))" by simp
  moreover have "(case x of None \<Rightarrow> 0 | Some p \<Rightarrow> nat ((nHeight (the (st p)) + 1) div Period C)) = nat (height1 st x div Period C)"
    by (cases x) (auto simp: height1_def)
  ultimately show ?thesis using b(1) t x by (simp add: spec_state_def Let_def)
qed

lemma height1_nonneg: "index_ok st \<Longrightarrow> aligned C st x \<Longrightarrow> 0 \<le> height1 st x"
  using wf_store_height [OF index_okD(1)] by (force simp: height1_def aligned_def split: option.splits)

text \<open>One step from a state whose start height is sound.\<close>

lemma next_state_total:
  assumes st: "index_ok st" and a: "aligned C st (Some p)" and x: "prev_period st (Period C) p = Some x"
    and s: "s = STARTED \<Longrightarrow> x \<noteq> None \<and> 0 < h \<and> h \<le> height1 st x"
  shows "\<exists>s' h'. next_state C st s h p = Some (s', h') \<and>
    (s' = STARTED \<longrightarrow> 0 < h' \<and> h' \<le> height1 st (Some p) \<and> (s = STARTED \<and> h' = h \<or> s = DEFINED \<and> h' = height1 st (Some p)))"
proof -
  obtain b where b: "st p = Some b" "height1 st x = height1 st (Some p) - Period C"
    "x = (if nHeight b < Period C then None else walk_back st (nat (Period C)) p)"
    by (rule aligned_prev [OF st a]) (use x in auto)
  obtain t where t: "GetMedianTimePast st p = Some t" using index_ok_mtp [OF st b(1)] by blast
  have h0: "0 \<le> nHeight b" by (rule wf_store_height [OF index_okD(1) [OF st] b(1)])
  show ?thesis
  proof (cases "s = STARTED")
    case True
    with s have h: "x \<noteq> None" "0 < h" "h \<le> height1 st x" by auto
    then have ge: "Period C \<le> nHeight b" using b(3) by (auto split: if_splits)
    then obtain q c where q: "walk_back st (nat (Period C)) p = Some q" "st q = Some c"
      using walk_back_height [OF index_okD(1) [OF st] b(1), of "nat (Period C)"] period_pos by auto
    obtain k where "count_period C st (nat (Period C)) (Some p) 0 = Some (k, Some q)"
      using count_period_ok [OF index_okD(1) [OF st] b(1), of "nat (Period C)" C 0] ge period_pos q(1) by auto
    moreover have "h < INT_MAX"
      using h(3) b(1,2) period_pos index_okD(2) [OF st b(1)] by (simp add: height1_def)
    ultimately show ?thesis
      using True t q(2) h b(2) period_pos by (auto simp: next_state_def Let_def)
  qed (use b(1) t h0 in \<open>cases s; auto simp: next_state_def height1_def\<close>)
qed

lemma spec_started:
  assumes "index_ok st" "aligned C st x" "fst (spec_state C st x) = STARTED"
  shows "x \<noteq> None \<and> 0 < snd (spec_state C st x) \<and> snd (spec_state C st x) \<le> height1 st x"
  using assms(2,3)
proof (induction "nat (height1 st x)" arbitrary: x rule: less_induct)
  case less
  obtain p where p: "x = Some p" using less(3) by (cases x) auto
  have t: "\<not> the (GetMedianTimePast st p) < BeginTime C"
    using spec_state_early [OF assms(1)] less(2,3) p by force
  obtain y where y: "prev_period st (Period C) p = Some y" "aligned C st y" "height1 st y = height1 st (Some p) - Period C"
    by (rule aligned_prev [OF assms(1) less(2) [unfolded p]])
  have "nat (height1 st y) < nat (height1 st x)"
    using height1_nonneg [OF assms(1) y(2)] y(3) p period_pos by simp
  from less(1) [OF this y(2)]
  obtain s' h' where n: "next_state C st (fst (spec_state C st y)) (snd (spec_state C st y)) p = Some (s', h')"
    "s' = STARTED \<longrightarrow> 0 < h' \<and> h' \<le> height1 st (Some p)"
    using next_state_total [OF assms(1) less(2) [unfolded p] y(1), of "fst (spec_state C st y)" "snd (spec_state C st y)"] by blast
  have "spec_state C st x = (s', h')" using spec_state_step [OF assms(1) less(2) [unfolded p] y(1) t] n(1) p by simp
  then show ?case using n(2) less(3) p by simp
qed

lemmas next_spec_total = next_state_total [OF _ _ _ spec_started]

lemma next_state_agrees:
  assumes "next_state C st s h p = Some (s', h1)" "start_agrees s h h'"
  shows "\<exists>h2. next_state C st s h' p = Some (s', h2) \<and> start_agrees s' h2 h1"
  using assms by (cases s) (auto simp: next_state_def start_agrees_def split: option.splits if_splits)

text \<open>A step of the states along the periods.\<close>

lemma spec_next:
  assumes "index_ok st" "aligned C st (Some p)" "\<not> the (GetMedianTimePast st p) < BeginTime C"
    "prev_period st (Period C) p = Some x" "aligned C st x"
  shows "next_state C st (fst (spec_state C st x)) (snd (spec_state C st x)) p = Some (spec_state C st (Some p))"
    and "fst (spec_state C st (Some p)) = STARTED \<Longrightarrow>
      fst (spec_state C st x) = STARTED \<and> snd (spec_state C st (Some p)) = snd (spec_state C st x) \<or>
      fst (spec_state C st x) = DEFINED \<and> snd (spec_state C st (Some p)) = height1 st (Some p)"
  using next_spec_total [OF assms(1,2,4) assms(1,5)] spec_state_step [OF assms(1,2,4,3)] by force+

section \<open>The cached computation\<close>

lemma search_start_ok:
  assumes "index_ok st" "cache_ok C st cache" "aligned C st x" "cache x \<noteq> None"
  shows "search_start C st cache x (fst (spec_state C st x)) acc =
    Some (cache, if fst (spec_state C st x) = STARTED then min acc (snd (spec_state C st x)) else acc)"
  using assms(3,4)
proof (induction "nat (height1 st x)" arbitrary: x acc rule: less_induct)
  case less
  show ?case
  proof (cases "fst (spec_state C st x) = STARTED")
    case True
    then obtain p where p: "x = Some p" by (cases x) auto
    note a = less(2) [unfolded p]
    have t: "\<not> the (GetMedianTimePast st p) < BeginTime C" using spec_state_early [OF assms(1) a] True p by auto
    obtain b y where y: "st p = Some b" "prev_period st (Period C) p = Some y" "aligned C st y"
      "height1 st y = height1 st (Some p) - Period C"
      by (rule aligned_prev [OF assms(1) a])
    have cy: "cache y \<noteq> None" using cache_okD [OF assms(2)] less(3) True p y(2) by (metis option.sel)
    then have cy2: "cache y = Some (fst (spec_state C st y))" using cache_okD(1) [OF assms(2)] by blast
    have sm: "nat (height1 st y) < nat (height1 st x)"
      using height1_nonneg [OF assms(1) y(3)] y(4) p period_pos by simp
    have hb: "height1 st (Some p) = nHeight b + 1" using y(1) by (simp add: height1_def)
    have "fst (spec_state C st y) = STARTED \<longrightarrow> snd (spec_state C st y) \<le> nHeight b + 1"
      using spec_started [OF assms(1) y(3)] y(4) hb period_pos by auto
    then show ?thesis
      using True p y(1,2) cy2 less(1) [OF sm y(3) cy, of "min acc (nHeight b + 1)"]
        spec_next(2) [OF assms(1) a t y(2,3)] hb
      by (subst search_start.simps) (auto simp: Let_def)
  qed (subst search_start.simps, simp)
qed

lemma walk_to_known_ok:
  assumes "index_ok st" "cache_ok C st cache" "aligned C st x" "path_ok C st x path y"
  shows "\<exists>cache1 known path'. walk_to_known C st cache x path = Some (cache1, known, path') \<and>
    cache_ok C st cache1 \<and> cache1 known \<noteq> None \<and> aligned C st known \<and> path_ok C st known path' y"
  using assms(3,4)
proof (induction "nat (height1 st x)" arbitrary: x path rule: less_induct)
  case less
  show ?case
  proof (cases "cache x = None")
    case False
    then show ?thesis using less(2,3) assms(2) by (subst walk_to_known.simps) auto
  next
    case True
    show ?thesis
    proof (cases x)
      case None
      then show ?thesis using True less(2,3) cache_ok_insert [OF assms(2) less(2), of DEFINED]
        by (subst walk_to_known.simps) auto
    next
      case (Some p)
      note a = less(2) [unfolded Some]
      obtain b z where z: "st p = Some b" "prev_period st (Period C) p = Some z" "aligned C st z"
        "height1 st z = height1 st (Some p) - Period C"
        by (rule aligned_prev [OF assms(1) a])
      obtain t where t: "GetMedianTimePast st p = Some t" using index_ok_mtp [OF assms(1) z(1)] by blast
      show ?thesis
      proof (cases "t < BeginTime C")
        case True
        then have "cache_ok C st (cache(x \<mapsto> DEFINED))"
          using cache_ok_insert [OF assms(2) less(2), of DEFINED] spec_state_early [OF assms(1) a] t Some by simp
        then show ?thesis using True \<open>cache x = None\<close> Some t less(2,3) by (subst walk_to_known.simps) auto
      next
        case False
        have "nat (height1 st z) < nat (height1 st x)"
          using height1_nonneg [OF assms(1) z(3)] z(4) Some period_pos by simp
        from less(1) [OF this z(3), of "p # path"] False t z(2) a less(3) Some \<open>cache x = None\<close>
        show ?thesis by (subst walk_to_known.simps) auto
      qed
    qed
  qed
qed

lemma walk_forward_ok:
  assumes "index_ok st" "path_ok C st x path y" "aligned C st x" "cache_ok C st cache" "cache x \<noteq> None"
    "start_agrees (fst (spec_state C st x)) h (snd (spec_state C st x))"
  shows "\<exists>cache'. walk_forward C st path cache (fst (spec_state C st x)) h = Some (cache', fst (spec_state C st y)) \<and>
    cache_ok C st cache'"
  using assms(2-)
proof (induction path arbitrary: x cache h)
  case (Cons p path)
  then have a: "aligned C st (Some p)" "prev_period st (Period C) p = Some x"
    "\<not> the (GetMedianTimePast st p) < BeginTime C" and po: "path_ok C st (Some p) path y" by auto
  obtain s' h' where sp: "spec_state C st (Some p) = (s', h')" by fastforce
  note n = spec_next [OF assms(1) a(1,3,2) Cons(3)]
  have "next_state C st (fst (spec_state C st x)) (snd (spec_state C st x)) p = Some (s', h')" using n(1) sp by simp
  moreover have "start_agrees (fst (spec_state C st x)) (snd (spec_state C st x)) h"
    using Cons(6) by (auto simp: start_agrees_def)
  ultimately obtain h2 where h2: "next_state C st (fst (spec_state C st x)) h p = Some (s', h2)" "start_agrees s' h2 h'"
    using next_state_agrees by blast
  define c2 where "c2 = cache(Some p \<mapsto> s')"
  have c2: "cache_ok C st c2" "c2 (Some p) \<noteq> None"
    using cache_ok_insert [OF Cons(4) a(1)] sp Cons(5) a(2) by (simp_all add: c2_def)
  show ?case using Cons(1) [OF po a(1) c2, of h2] h2 sp by (simp flip: c2_def)
qed simp

text \<open>The parent at the end of the previous period.\<close>

lemma period_parent_ok:
  assumes st: "index_ok st" and b: "st p = Some b"
  shows "\<exists>x. period_parent st (Period C) p = Some x \<and> aligned C st x \<and>
    height1 st x = nHeight b + 1 - (nHeight b + 1) mod Period C"
proof -
  note wf = index_okD(1) [OF st]
  let ?r = "(nHeight b + 1) mod Period C"
  have h0: "0 \<le> nHeight b" by (rule wf_store_height [OF wf b])
  have r: "(nHeight b + 1) smod Period C = ?r" using h0 period_pos by (intro smod_nonneg) auto
  have r0: "0 \<le> ?r" "?r \<le> nHeight b + 1" using period_pos h0 by (auto intro: zmod_le_nonneg_dividend)
  show ?thesis
  proof (cases "?r = nHeight b + 1")
    case True
    then show ?thesis
      using GetAncestor_walk_back [OF wf b, of "-1"] b r by (simp add: period_parent_def aligned_def height1_def)
  next
    case False
    then have le: "?r \<le> nHeight b" using r0 by linarith
    then obtain q c where q: "walk_back st (nat ?r) p = Some q" "st q = Some c" "nHeight c = nHeight b - ?r"
      using walk_back_height [OF wf b, of "nat ?r"] r0 by auto
    have "nHeight c + 1 = nHeight b + 1 - ?r" using q(3) by linarith
    then have "(nHeight c + 1) mod Period C = 0" by (simp only: minus_mod_eq_mult_div mod_mult_self1_is_0)
    then have "aligned C st (Some q)" using q(2) by (simp only: aligned_def option.case)
    moreover have "period_parent st (Period C) p = Some (Some q)"
      using GetAncestor_walk_back [OF wf b, of "nHeight b - ?r"] b r r0 le q(1) by (simp add: period_parent_def)
    ultimately show ?thesis using q(2,3) by (auto simp: height1_def)
  qed
qed

lemma GetStateFor_ok:
  assumes st: "index_ok st" and c: "cache_ok C st cache" and x: "aligned C st x"
    and y: "(case y of None \<Rightarrow> Some None | Some p \<Rightarrow> period_parent st (Period C) p) = Some x"
  shows "\<exists>cache'. GetStateFor C st y cache = Some (cache', fst (spec_state C st x)) \<and> cache_ok C st cache'"
proof -
  obtain cache1 k path where w: "walk_to_known C st cache x [] = Some (cache1, k, path)"
    "cache_ok C st cache1" "cache1 k \<noteq> None" "aligned C st k" "path_ok C st k path x"
    using walk_to_known_ok [OF st c x, of "[]" x] by auto
  have k: "cache1 k = Some (fst (spec_state C st k))" using cache_okD(1) [OF w(2,3)] by blast
  let ?h = "if fst (spec_state C st k) = STARTED then min INT_MAX (snd (spec_state C st k)) else INT_MAX"
  have ag: "start_agrees (fst (spec_state C st k)) ?h (snd (spec_state C st k))"
    using spec_started [OF st w(4)] index_okD(2) [OF st] w(4)
    by (fastforce simp: start_agrees_def height1_def aligned_def split: option.splits)
  show ?thesis
    using walk_forward_ok [OF st w(5,4,2,3) ag] search_start_ok [OF st w(2,4,3), of INT_MAX] w(1) k y
    by (auto simp: GetStateFor_def)
qed

text \<open>
  The run of periods that share a state: the search for the height since which a state holds ends at the
  last period end of the run.
\<close>

lemma since_loop_ok:
  assumes "index_ok st" "cache_ok C st cache" "aligned C st (Some q)" "prev_period st (Period C) q = Some r"
    "fst (spec_state C st (Some q)) = s"
  shows "\<exists>cache' e. since_loop C st s q r cache = Some (cache', e) \<and> cache_ok C st cache' \<and> run_start C st s q e"
  using assms(2-)
proof (induction "nat (height1 st (Some q))" arbitrary: q r cache rule: less_induct)
  case less
  obtain y where y: "prev_period st (Period C) q = Some y" "aligned C st y" "height1 st y = height1 st (Some q) - Period C"
    by (rule aligned_prev [OF assms(1) less(3)])
  have yr: "y = r" using y(1) less(4) by simp
  show ?case
  proof (cases r)
    case None
    then show ?thesis using less(2-5) by (subst since_loop.simps) (auto intro: run_start.intros)
  next
    case (Some w)
    note aw = y(2) [unfolded yr Some]
    obtain bw z where bw: "st w = Some bw" "prev_period st (Period C) w = Some z" by (rule aligned_prev [OF assms(1) aw])
    have "period_parent st (Period C) w = Some (Some w)" using aligned_parent [OF assms(1) aw] .
    then obtain c' where c': "GetStateFor C st (Some w) cache = Some (c', fst (spec_state C st (Some w)))" "cache_ok C st c'"
      using GetStateFor_ok [OF assms(1) less(2) aw, of "Some w"] by auto
    show ?thesis
    proof (cases "fst (spec_state C st (Some w)) = s")
      case True
      have sm: "nat (height1 st (Some w)) < nat (height1 st (Some q))"
        using y(3) height1_nonneg [OF assms(1) aw] period_pos yr Some by simp
      obtain c2 e where "since_loop C st s w z c' = Some (c2, e)" "cache_ok C st c2" "run_start C st s w e"
        using less(1) [OF sm c'(2) aw bw(2) True] by blast
      then show ?thesis using c' True Some bw less(4,5)
        by (subst since_loop.simps) (auto intro: run_start.intros)
    next
      case False
      then show ?thesis using c' Some less(4,5) by (subst since_loop.simps) (auto intro: run_start.intros)
    qed
  qed
qed

lemma GetStateSinceHeightFor_ok:
  assumes st: "index_ok st" and c: "cache_ok C st cache" and x: "aligned C st x"
    and y: "(case y of None \<Rightarrow> Some None | Some p \<Rightarrow> period_parent st (Period C) p) = Some x"
  shows "\<exists>cache' h. GetStateSinceHeightFor C st y cache = Some (cache', h) \<and> cache_ok C st cache' \<and>
    (if fst (spec_state C st x) = DEFINED then h = 0
     else \<exists>q e. x = Some q \<and> run_start C st (fst (spec_state C st x)) q e \<and> h = height1 st (Some e))"
proof -
  obtain c1 where c1: "GetStateFor C st y cache = Some (c1, fst (spec_state C st x))" "cache_ok C st c1"
    using GetStateFor_ok [OF assms] by auto
  show ?thesis
  proof (cases "fst (spec_state C st x) = DEFINED")
    case False
    then obtain q where q: "x = Some q" by (cases x) auto
    then obtain p where p: "y = Some p" "period_parent st (Period C) p = Some (Some q)" using y by (cases y) auto
    obtain r where r: "prev_period st (Period C) q = Some r" by (rule aligned_prev [OF st x [unfolded q]])
    obtain c2 e where e: "since_loop C st (fst (spec_state C st x)) q r c1 = Some (c2, e)" "cache_ok C st c2"
      "run_start C st (fst (spec_state C st x)) q e"
      using since_loop_ok [OF st c1(2) x [unfolded q] r] q by blast
    obtain b where "st e = Some b" using run_start_aligned [OF e(3) st] x q by (auto simp: aligned_def split: option.splits)
    then show ?thesis using False c1 p e q r by (auto simp: GetStateSinceHeightFor_def height1_def)
  qed (use c1 in \<open>auto simp: GetStateSinceHeightFor_def\<close>)
qed
end

section \<open>Median times never decrease\<close>

text \<open>The times that \<open>GetMedianTimePast\<close> collects, newest first.\<close>

fun past_times :: "index_store \<Rightarrow> nat \<Rightarrow> ptr option \<Rightarrow> int list" where
  "past_times st 0 x = []"
| "past_times st (Suc n) None = []"
| "past_times st (Suc n) (Some p) = uint (nTime (the (st p))) # past_times st n (pprev (the (st p)))"

definition median :: "int list \<Rightarrow> int" where
  "median ts = sort ts ! (length ts div 2)"

text \<open>The header rule of \<open>ContextualCheckBlockHeader\<close>: a block is later than its parent's median time.\<close>

definition time_rule :: "index_store \<Rightarrow> bool" where
  "time_rule st \<longleftrightarrow>
     (\<forall>p b q. st p = Some b \<longrightarrow> pprev b = Some q \<longrightarrow> the (GetMedianTimePast st q) < uint (nTime b))"

lemma past_times_take: "past_times st n x = take n (past_times st (n + m) x)"
  by (induction st n x rule: past_times.induct) auto

lemma past_times_length: "length (past_times st n x) \<le> n"
  by (induction st n x rule: past_times.induct) auto

lemma linked_prev: "linked st b \<Longrightarrow> pprev b = Some q \<Longrightarrow> \<exists>c. st q = Some c"
  by (cases "st q") (auto simp: linked_def)

lemma index_ok_prev: "index_ok st \<Longrightarrow> st p = Some b \<Longrightarrow> pprev b = Some q \<Longrightarrow> \<exists>c. st q = Some c"
  using linked_prev [of st b q] by (auto simp: index_ok_def)

lemma median_times_past:
  assumes "index_ok st" "\<And>p. x = Some p \<Longrightarrow> st p \<noteq> None"
  shows "median_times st n x acc = Some (rev (past_times st n x) @ acc)"
  using assms
proof (induction st n x arbitrary: acc rule: past_times.induct)
  case (3 st n p)
  then obtain b where b: "st p = Some b" by auto
  have "\<And>q. pprev b = Some q \<Longrightarrow> st q \<noteq> None" using index_ok_prev [OF 3(2) b] by auto
  then show ?case using 3(1,2) b by simp
next
  case (1 st x)
  then show ?case by (cases x) simp_all
qed simp

lemma sort_snoc: "sort (xs @ [x]) = insort x (sort (xs :: int list))"
  by (induction xs) (simp_all add: insort_left_comm)

lemma sort_rev: "sort (rev xs) = sort (xs :: int list)"
  by (induction xs) (simp_all add: sort_snoc)

lemma GetMedianTimePast_median:
  assumes "index_ok st" "st p = Some b"
  shows "GetMedianTimePast st p = Some (median (past_times st 11 (Some p)))"
proof -
  have "median_times st 11 (Some p) [] = Some (rev (past_times st 11 (Some p)))"
    using median_times_past [of st "Some p" 11 "[]"] assms by simp
  moreover have "past_times st 11 (Some p) \<noteq> []" using past_times.simps(3) [of st 10 p] by simp
  ultimately show ?thesis by (simp add: GetMedianTimePast_def nMedianTimeSpan_def median_def sort_rev)
qed

lemma filter_sort_length: "length (filter P (sort xs)) = length (filter P (xs :: int list))"
  by (metis filter_sort length_sort)

lemma less_median_count:
  fixes xs :: "int list"
  assumes "k < length xs"
  shows "length (filter (\<lambda>x. x < sort xs ! k) xs) \<le> k"
proof -
  let ?s = "sort xs" let ?P = "\<lambda>x. x < sort xs ! k"
  have "filter ?P (drop k ?s) = []"
  proof (rule filter_False, rule ballI)
    fix x assume "x \<in> set (drop k ?s)"
    then obtain i where "i < length (drop k ?s)" "x = drop k ?s ! i" by (metis in_set_conv_nth)
    then have "?s ! k \<le> x" using sorted_nth_mono [OF sorted_sort, of k "k + i" xs] by simp
    then show "\<not> ?P x" by simp
  qed
  then have "filter ?P ?s = filter ?P (take k ?s)" by (metis append_Nil2 append_take_drop_id filter_append)
  then show ?thesis by (metis filter_sort_length le_trans length_filter_le length_take min.cobounded2)
qed

lemma median_ge:
  fixes xs :: "int list"
  assumes "k < length xs" "length (filter (\<lambda>x. x < m) xs) \<le> k"
  shows "m \<le> sort xs ! k"
proof (rule ccontr)
  let ?s = "sort xs"
  assume "\<not> ?thesis"
  then have m: "?s ! k < m" by simp
  have "x < m" if "x \<in> set (take (Suc k) ?s)" for x
  proof -
    from that obtain i where "i < Suc k" "x = ?s ! i" by (auto simp: in_set_conv_nth)
    then show ?thesis using sorted_nth_mono [OF sorted_sort, of i k xs] assms(1) m by simp
  qed
  then have "filter (\<lambda>x. x < m) (take (Suc k) ?s) = take (Suc k) ?s" by (simp add: filter_id_conv)
  then have "length (filter (\<lambda>x. x < m) (take (Suc k) ?s)) = Suc k" using assms(1) by simp
  moreover have "filter (\<lambda>x. x < m) ?s = filter (\<lambda>x. x < m) (take (Suc k) ?s) @ filter (\<lambda>x. x < m) (drop (Suc k) ?s)"
    by (simp flip: filter_append)
  ultimately have "Suc k \<le> length (filter (\<lambda>x. x < m) ?s)" by simp
  then show False using assms(2) by (simp add: filter_sort_length)
qed

lemma median_window:
  assumes "xs \<noteq> []" "length xs \<le> Suc n" "median xs \<le> t"
  shows "median xs \<le> median (t # take n xs)"
proof -
  have k: "length xs div 2 < length xs" using assms(1) by simp
  have "length (filter (\<lambda>x. x < median xs) (t # take n xs)) \<le> length (filter (\<lambda>x. x < median xs) xs)"
    using assms(3) by simp (metis append_take_drop_id filter_append le_add1 length_append)
  also have "\<dots> \<le> length xs div 2" using less_median_count [OF k] by (simp add: median_def)
  also have "\<dots> \<le> length (t # take n xs) div 2" using assms(2) by (intro div_le_mono) simp
  finally show ?thesis unfolding median_def [of "t # take n xs"] by (intro median_ge) (simp_all add: median_def)
qed

lemma mtp_mono_parent:
  assumes "index_ok st" "time_rule st" "st p = Some b" "pprev b = Some q"
  shows "the (GetMedianTimePast st q) \<le> the (GetMedianTimePast st p)"
proof -
  obtain c where c: "st q = Some c" using index_ok_prev [OF assms(1,3,4)] by blast
  let ?W = "past_times st 11 (Some q)"
  have "past_times st 11 (Some p) = uint (nTime b) # take 10 ?W"
    using past_times.simps(3) [of st 10 p] past_times_take [of st 10 "Some q" 1] assms(3,4) by simp
  moreover have "?W \<noteq> []" using past_times.simps(3) [of st 10 q] by simp
  moreover have "median ?W \<le> uint (nTime b)"
    using assms(2,3,4) GetMedianTimePast_median [OF assms(1) c] unfolding time_rule_def by fastforce
  ultimately show ?thesis
    using median_window [of ?W 10 "uint (nTime b)"] past_times_length [of st 11 "Some q"]
      GetMedianTimePast_median [OF assms(1,3)] GetMedianTimePast_median [OF assms(1) c] by simp
qed

lemma mtp_mono:
  assumes "index_ok st" "time_rule st" "st p = Some b" "walk_back st n p = Some q"
  shows "the (GetMedianTimePast st q) \<le> the (GetMedianTimePast st p)"
  using assms(3,4)
proof (induction n arbitrary: p b)
  case (Suc n)
  then obtain r where r: "pprev b = Some r" "walk_back st n r = Some q" by (auto split: option.splits)
  then obtain c where "st r = Some c" using index_ok_prev [OF assms(1) Suc(2)] by blast
  from Suc(1) [OF this r(2)] mtp_mono_parent [OF assms(1,2) Suc(2) r(1)] show ?case by simp
qed simp

section \<open>The transitions\<close>

inductive vb_step :: "ThresholdState \<Rightarrow> ThresholdState \<Rightarrow> bool" where
  "vb_step DEFINED DEFINED"
| "vb_step DEFINED STARTED"
| "vb_step DEFINED FAILED"
| "vb_step STARTED STARTED"
| "vb_step STARTED LOCKED_IN"
| "vb_step STARTED FAILED"
| "vb_step LOCKED_IN ACTIVE"
| "vb_step ACTIVE ACTIVE"
| "vb_step FAILED FAILED"

declare vb_step.intros [intro]

inductive_simps vb_step_simps [simp]: "vb_step ACTIVE s" "vb_step FAILED s" "vb_step LOCKED_IN s"

lemma next_state_vb_step: "next_state C st s h p = Some (s', h') \<Longrightarrow> vb_step s s'"
  by (cases s) (auto simp: next_state_def Let_def split: option.splits if_splits)

context threshold_checker
begin

lemma states_step:
  assumes st: "index_ok st" "time_rule st" and a: "aligned C st (Some p)" and x: "prev_period st (Period C) p = Some x"
  shows "vb_step (fst (spec_state C st x)) (fst (spec_state C st (Some p)))"
proof -
  obtain b where b: "st p = Some b" "aligned C st x"
    "x = (if nHeight b < Period C then None else walk_back st (nat (Period C)) p)"
    by (rule aligned_prev [OF st(1) a]) (use x in auto)
  show ?thesis
  proof (cases "the (GetMedianTimePast st p) < BeginTime C")
    case True
    have "fst (spec_state C st x) = DEFINED"
    proof (cases x)
      case (Some q)
      then have "the (GetMedianTimePast st q) < BeginTime C"
        using mtp_mono [OF st b(1), of "nat (Period C)" q] b(3) True by (auto split: if_splits)
      then show ?thesis using spec_state_early [OF st(1)] b(2) Some by simp
    qed simp
    then show ?thesis using spec_state_early [OF st(1) a True] by auto
  next
    case False
    then show ?thesis
      by (metis next_state_vb_step prod.collapse spec_next(1) [OF st(1) a False x b(2)])
  qed
qed
end

interpretation main_vb: threshold_checker "VersionBitsConditionChecker main_params pos" for pos
  by unfold_locales
    (cases pos; simp add: VersionBitsConditionChecker_def vb_Period_def main_params_def deployment_def)

text \<open>The state of the children of a block: that of the end of the period before.\<close>

definition period_end :: "DeploymentPos \<Rightarrow> index_store \<Rightarrow> ptr option \<Rightarrow> ptr option" where
  "period_end pos st x =
     (case x of None \<Rightarrow> None | Some p \<Rightarrow> the (period_parent st (Period (VersionBitsConditionChecker main_params pos)) p))"

definition deployment_state :: "DeploymentPos \<Rightarrow> index_store \<Rightarrow> ptr option \<Rightarrow> ThresholdState" where
  "deployment_state pos st x = fst (spec_state (VersionBitsConditionChecker main_params pos) st (period_end pos st x))"

definition caches_ok :: "index_store \<Rightarrow> VersionBitsCache \<Rightarrow> bool" where
  "caches_ok st cache \<longleftrightarrow> (\<forall>pos. cache_ok (VersionBitsConditionChecker main_params pos) st (cache pos))"

lemma period_end_ok:
  assumes "index_ok st" "x = None \<or> (\<exists>p b. x = Some p \<and> st p = Some b)"
  shows "(case x of None \<Rightarrow> Some None | Some p \<Rightarrow> period_parent st (Period (VersionBitsConditionChecker main_params pos)) p) = Some (period_end pos st x)"
    "aligned (VersionBitsConditionChecker main_params pos) st (period_end pos st x)"
  using assms(2) main_vb.period_parent_ok [OF assms(1), of _ _ pos]
  by (fastforce simp: period_end_def aligned_def [of _ _ None])+

lemma VersionBitsState_ok:
  assumes "index_ok st" "caches_ok st cache" "x = None \<or> (\<exists>p b. x = Some p \<and> st p = Some b)"
  shows "\<exists>cache'. VersionBitsState st x main_params pos cache = Some (cache', deployment_state pos st x)
    \<and> caches_ok st cache'"
proof -
  have "cache_ok (VersionBitsConditionChecker main_params pos) st (cache pos)" using assms(2) by (simp add: caches_ok_def)
  from main_vb.GetStateFor_ok [OF assms(1) this period_end_ok(2) [OF assms(1,3)], of x] period_end_ok(1) [OF assms(1,3), of pos]
  obtain c where "GetStateFor (VersionBitsConditionChecker main_params pos) st x (cache pos) = Some (c, deployment_state pos st x)"
    "cache_ok (VersionBitsConditionChecker main_params pos) st c"
    by (auto simp: deployment_state_def)
  then show ?thesis using assms(2) by (auto simp: VersionBitsState_def caches_ok_def)
qed



text \<open>
  \<open>VersionBitsStateSinceHeight\<close> returns 0 for a deployment that is \<open>DEFINED\<close>, and otherwise the height of the
  first block of the run of periods that have had the current state: the last period of the run has another
  state, or none, before it.  The caches stay exact.
\<close>

theorem VersionBitsStateSinceHeight_exact:
  assumes "index_ok st" "caches_ok st cache" "x = None \<or> (\<exists>p b. x = Some p \<and> st p = Some b)"
  shows "\<exists>cache' h. VersionBitsStateSinceHeight st x main_params pos cache = Some (cache', h) \<and> caches_ok st cache' \<and>
    (if deployment_state pos st x = DEFINED then h = 0
     else \<exists>q e b. period_end pos st x = Some q \<and> st e = Some b \<and> h = nHeight b + 1 \<and>
       run_start (VersionBitsConditionChecker main_params pos) st (deployment_state pos st x) q e)"
proof -
  let ?C = "VersionBitsConditionChecker main_params pos"
  note e = period_end_ok [OF assms(1,3), of pos]
  obtain c h where c: "GetStateSinceHeightFor ?C st x (cache pos) = Some (c, h)" "cache_ok ?C st c"
    "if deployment_state pos st x = DEFINED then h = 0
     else \<exists>q e. period_end pos st x = Some q \<and> run_start ?C st (deployment_state pos st x) q e \<and> h = height1 st (Some e)"
    using main_vb.GetStateSinceHeightFor_ok [OF assms(1) _ e(2,1), of "cache pos"] assms(2)
    unfolding deployment_state_def caches_ok_def by blast
  have "\<exists>b. st e = Some b" if "period_end pos st x = Some q" "run_start ?C st (deployment_state pos st x) q e" for q e
    using main_vb.run_start_aligned [OF that(2) assms(1)] e(2) that(1) by (auto simp: aligned_def split: option.splits)
  then show ?thesis using c assms(2)
    by (force simp: VersionBitsStateSinceHeight_def caches_ok_def height1_def)
qed

text \<open>
  C25: For a block of the very first period \<open>VersionBitsStatistics\<close> does not return statistics: the end of the
  previous period is a null pointer there, and the code reads its height without a check.
\<close>

theorem VersionBitsStatistics_first_period:
  assumes "index_ok st" "st p = Some b" "nHeight b + 1 < Period (VersionBitsConditionChecker params pos)"
  shows "VersionBitsStatistics st (Some p) params pos cache = None"
proof -
  let ?P = "Period (VersionBitsConditionChecker params pos)"
  have h0: "0 \<le> nHeight b" by (rule wf_store_height [OF index_okD(1) [OF assms(1)] assms(2)])
  then have "(nHeight b + 1) smod ?P = nHeight b + 1" using assms(3) by (simp add: smod_nonneg)
  then have "period_parent st ?P p = Some None"
    using GetAncestor_walk_back [OF index_okD(1) [OF assms(1)] assms(2), of "-1"] assms(2)
    by (simp add: period_parent_def)
  then show ?thesis using assms(2) by (simp add: VersionBitsStatistics_def GetStateStatisticsFor_def)
qed

section \<open>Examples\<close>

definition one_block :: index_store where
  "one_block p = (if p = 0 then Some ((new_CBlockIndex example_genesis)\<lparr>nBits := 0, nTimeMax := 1,
     nChainWork := replicate 8 0\<rparr>) else None)"

lemma one_block_ok: "index_ok one_block" "time_rule one_block" "caches_ok one_block (\<lambda>_ _. None)"
proof -
  have "linked one_block b" if "one_block p = Some b" for p b
    using that by (auto simp: one_block_def linked_def new_CBlockIndex_def example_genesis_def wf_uint_def WIDTH_def
      block_work_def compact_num_def split: if_splits)
  moreover have "wf_store one_block"
    by (auto simp: wf_store_def wf_node_def one_block_def new_CBlockIndex_def split: if_splits)
  ultimately show "index_ok one_block"
    by (auto simp: index_ok_def one_block_def new_CBlockIndex_def INT_MAX_def split: if_splits)
  show "time_rule one_block" by (auto simp: time_rule_def one_block_def new_CBlockIndex_def split: if_splits)
  show "caches_ok one_block (\<lambda>_ _. None)" by (simp add: caches_ok_def cache_ok_def)
qed


theorem VersionBitsStateSinceHeight_exact_witness:
  "\<exists>cache' h. VersionBitsStateSinceHeight one_block (Some 0) main_params DEPLOYMENT_V19 (\<lambda>_ _. None) = Some (cache', h)
    \<and> caches_ok one_block cache'"
  using VersionBitsStateSinceHeight_exact [OF one_block_ok(1,3), of "Some 0" DEPLOYMENT_V19] by (auto simp: one_block_def)

theorem VersionBitsStatistics_first_period_witness:
  "VersionBitsStatistics one_block (Some 0) main_params DEPLOYMENT_CSV (\<lambda>_ _. None) = None"
  using VersionBitsStatistics_first_period [OF one_block_ok(1), of 0 "the (one_block 0)" main_params DEPLOYMENT_CSV]
  by (simp add: one_block_def new_CBlockIndex_def VersionBitsConditionChecker_def vb_Period_def main_params_def deployment_def)

text \<open>A chain of one period with a block each second.\<close>

definition period_block :: "nat \<Rightarrow> CBlockIndex" where
  "period_block i = (new_CBlockIndex example_genesis)\<lparr>nBits := 0, nTime := word_of_nat i, nTimeMax := word_of_nat i,
     nChainWork := replicate 8 0, nHeight := int i, pprev := (if i = 0 then None else Some (i - 1)),
     pskip := (if i = 0 then None else Some (nat (GetSkipHeight (int i))))\<rparr>"

definition period_store :: index_store where
  "period_store i = (if i < 2016 then Some (period_block i) else None)"

lemma period_walk: "n \<le> i \<Longrightarrow> i < 2016 \<Longrightarrow> walk_back period_store n i = Some (i - n)"
proof (induction n arbitrary: i)
  case (Suc n)
  then show ?case by (auto simp: period_store_def period_block_def)
qed simp

lemma period_block_time:
  "i < 2016 \<Longrightarrow> uint (nTime (period_block i)) = int i" "i < 2016 \<Longrightarrow> uint (nTimeMax (period_block i)) = int i"
  by (simp_all add: period_block_def unsigned_of_nat take_bit_eq_mod)

lemma period_store_ok: "index_ok period_store" "time_rule period_store" "caches_ok period_store (\<lambda>_ _. None)"
proof -
  have l: "linked period_store b" if "period_store p = Some b" for p b
  proof -
    have "p < 2016" "b = period_block p" using that by (auto simp: period_store_def split: if_splits)
    moreover have "max (word_of_nat (p - 1)) (word_of_nat p :: u32) = word_of_nat p" if "p < 2016"
      using that by (intro max_absorb2) (simp add: word_of_nat_less_eq_iff take_bit_eq_mod)
    ultimately show ?thesis
      by (auto simp: period_store_def period_block_def linked_def new_CBlockIndex_def wf_uint_def WIDTH_def
          block_work_def compact_num_def)
  qed
  moreover have "wf_store period_store"
    unfolding wf_store_def
  proof (intro allI impI)
    fix p b assume pb: "period_store p = Some b"
    then have p: "p < 2016" "b = period_block p" by (auto simp: period_store_def split: if_splits)
    have "walk_back period_store (nat (int p - GetSkipHeight (int p))) p = Some (nat (GetSkipHeight (int p)))" if "0 < p"
      using period_walk [of "nat (int p - GetSkipHeight (int p))" p] p GetSkipHeight_bounds [of "int p"] that
      by (auto simp: nat_diff_distrib)
    then show "wf_node period_store p b" using p
      by (auto simp: wf_node_def period_block_def period_store_def new_CBlockIndex_def)
  qed
  ultimately show ok: "index_ok period_store"
    by (auto simp: index_ok_def period_store_def period_block_def INT_MAX_def split: if_splits)
  show "time_rule period_store"
    unfolding time_rule_def
  proof (intro allI impI)
    fix p b q assume a: "period_store p = Some b" "pprev b = Some q"
    then have p: "0 < p" "p < 2016" "b = period_block p" "q = p - 1" "period_store q = Some (period_block q)"
      by (auto simp: period_store_def period_block_def split: if_splits)
    obtain t where "GetMedianTimePast period_store q = Some t" "t \<le> uint (nTimeMax (period_block q))"
      using GetMedianTimePast_ok [of period_store q] l p(5) by blast
    then show "the (GetMedianTimePast period_store q) < uint (nTime b)"
      using p(1-4) period_block_time [of p] period_block_time [of q] by auto
  qed
  show "caches_ok period_store (\<lambda>_ _. None)" by (simp add: caches_ok_def cache_ok_def)
qed


end
