(* ===== verification/Blocks.thy ===== *)
theory Blocks
  imports BlockIndex Transaction
begin

text \<open>
  Blocks and their headers, \<^verbatim>\<open>primitives/block.{h,cpp}\<close>, with the compressed headers of the \<open>headers2\<close> message and the
  loops of \<^verbatim>\<open>net_processing.cpp\<close> that build and read that message.  \<open>CBlock\<close> and \<open>CompressibleBlockHeader\<close> extend
  \<open>CBlockHeader\<close> as their classes do.  The hash function of a header is a parameter.
\<close>

unbundle bit_operations_syntax

section \<open>Headers and blocks\<close>

definition Serialize_CBlockHeader :: "'a CBlockHeader_scheme \<Rightarrow> bytes" where
  "Serialize_CBlockHeader h =
     ser_writedata32 (hdr_nVersion h) @ Serialize_uint256 (hdr_hashPrevBlock h) @ Serialize_uint256 (hdr_hashMerkleRoot h)
     @ ser_writedata32 (hdr_nTime h) @ ser_writedata32 (hdr_nBits h) @ ser_writedata32 (hdr_nNonce h)"

definition Unserialize_CBlockHeader :: "CBlockHeader reader" where
  "Unserialize_CBlockHeader =
     rbind ser_readdata32 (\<lambda>v. rbind Unserialize_uint256 (\<lambda>p. rbind Unserialize_uint256 (\<lambda>m.
       rbind ser_readdata32 (\<lambda>t. rbind ser_readdata32 (\<lambda>b. rbind ser_readdata32 (\<lambda>n.
         rreturn \<lparr>hdr_nVersion = v, hdr_hashPrevBlock = p, hdr_hashMerkleRoot = m, hdr_nTime = t, hdr_nBits = b, hdr_nNonce = n\<rparr>))))))"

definition CBlockHeader_null :: CBlockHeader where
  "CBlockHeader_null = \<lparr>hdr_nVersion = 0, hdr_hashPrevBlock = null_hash, hdr_hashMerkleRoot = null_hash, hdr_nTime = 0,
     hdr_nBits = 0, hdr_nNonce = 0\<rparr>"

definition CBlockHeader_IsNull :: "'a CBlockHeader_scheme \<Rightarrow> bool" where
  "CBlockHeader_IsNull h \<longleftrightarrow> hdr_nBits h = 0"

definition CBlockHeader_GetHash :: "(bytes \<Rightarrow> uint256) \<Rightarrow> 'a CBlockHeader_scheme \<Rightarrow> uint256" where
  "CBlockHeader_GetHash HashX11 h = HashX11 (Serialize_CBlockHeader h)"

definition header_GetBlockTime :: "'a CBlockHeader_scheme \<Rightarrow> int" where
  "header_GetBlockTime h = uint (hdr_nTime h)"

record CBlock = CBlockHeader +
  block_vtx :: "CTransaction list"
  fChecked :: bool

definition Serialize_CBlock :: "CBlock \<Rightarrow> bytes" where
  "Serialize_CBlock b = Serialize_CBlockHeader b @ Vector_Ser Serialize_CTransaction (block_vtx b)"

definition Unserialize_CBlock :: "CBlock reader" where
  "Unserialize_CBlock =
     rbind Unserialize_CBlockHeader (\<lambda>h. rbind (Vector_Unser Unserialize_CTransaction) (\<lambda>vtx.
       rreturn (CBlockHeader.extend h \<lparr>block_vtx = vtx, fChecked = False\<rparr>)))"

text \<open>\<open>GetBlockHeader\<close>, and the conversion of a derived object to its base class.\<close>

abbreviation GetBlockHeader_of :: "'a CBlockHeader_scheme \<Rightarrow> CBlockHeader" where
  "GetBlockHeader_of \<equiv> CBlockHeader.truncate"

section \<open>Compressed headers\<close>

subsection \<open>The bit field\<close>

definition FLAG_PREV_BLOCK_HASH :: byte where "FLAG_PREV_BLOCK_HASH = push_bit 3 1"
definition FLAG_TIMESTAMP :: byte where "FLAG_TIMESTAMP = push_bit 4 1"
definition FLAG_NBITS :: byte where "FLAG_NBITS = push_bit 5 1"
definition VERSION_BIT_MASK :: byte where "VERSION_BIT_MASK = push_bit 0 1 OR push_bit 1 1 OR push_bit 2 1"

lemmas flag_field_defs = FLAG_PREV_BLOCK_HASH_def FLAG_TIMESTAMP_def FLAG_NBITS_def VERSION_BIT_MASK_def

definition IsCompressed :: "byte \<Rightarrow> byte \<Rightarrow> bool" where
  "IsCompressed bf fl \<longleftrightarrow> bf AND fl = 0"

definition MarkAsUncompressed :: "byte \<Rightarrow> byte \<Rightarrow> byte" where
  "MarkAsUncompressed fl bf = bf OR fl"

definition MarkAsCompressed :: "byte \<Rightarrow> byte \<Rightarrow> byte" where
  "MarkAsCompressed fl bf = bf AND NOT fl"

definition GetVersionOffset :: "byte \<Rightarrow> nat" where
  "GetVersionOffset bf = unat (bf AND VERSION_BIT_MASK)"

definition IsVersionCompressed :: "byte \<Rightarrow> bool" where
  "IsVersionCompressed bf \<longleftrightarrow> GetVersionOffset bf \<noteq> 0"

definition SetVersionOffset :: "byte \<Rightarrow> byte \<Rightarrow> byte" where
  "SetVersionOffset version bf = (bf AND NOT VERSION_BIT_MASK) OR (version AND VERSION_BIT_MASK)"

subsection \<open>Compression\<close>

record CompressibleBlockHeader = CBlockHeader +
  bit_field :: byte
  time_offset :: u16

definition new_CompressibleBlockHeader :: "CBlockHeader \<Rightarrow> CompressibleBlockHeader" where
  "new_CompressibleBlockHeader h =
     CBlockHeader.extend h
       \<lparr>bit_field = MarkAsUncompressed FLAG_NBITS (MarkAsUncompressed FLAG_TIMESTAMP (MarkAsUncompressed FLAG_PREV_BLOCK_HASH (SetVersionOffset 0 0))),
        time_offset = 0\<rparr>"

definition MarkVersionAsMostRecent :: "u32 list \<Rightarrow> nat \<Rightarrow> u32 list" where
  "MarkVersionAsMostRecent vs it = (if it \<noteq> 0 then vs ! it # take it vs @ drop (Suc it) vs else vs)"

definition SaveVersionAsMostRecent :: "u32 list \<Rightarrow> u32 \<Rightarrow> u32 list" where
  "SaveVersionAsMostRecent vs version = (let vs' = version # vs in if length vs' > 7 then butlast vs' else vs')"

text \<open>The position of the first entry equal to the version, or the length of the list.\<close>

fun find_version :: "u32 list \<Rightarrow> u32 \<Rightarrow> nat" where
  "find_version [] v = 0"
| "find_version (w # vs) v = (if w = v then 0 else Suc (find_version vs v))"

text \<open>The difference of the times is computed on 32-bit unsigned integers and then widened.\<close>

definition Compress :: "CompressibleBlockHeader list \<Rightarrow> CompressibleBlockHeader \<times> u32 list \<Rightarrow> CompressibleBlockHeader \<times> u32 list" where
  "Compress previous_blocks s =
     (case s of (h, vs) \<Rightarrow>
        if previous_blocks = [] then (h, SaveVersionAsMostRecent vs (hdr_nVersion h))
        else let it = find_version vs (hdr_nVersion h);
                 (bf1, vs1) = (if it < length vs then (SetVersionOffset (word_of_nat (it + 1)) (bit_field h), MarkVersionAsMostRecent vs it)
                               else (bit_field h, SaveVersionAsMostRecent vs (hdr_nVersion h)));
                 last_block = last previous_blocks;
                 bf2 = MarkAsCompressed FLAG_PREV_BLOCK_HASH bf1;
                 time_diff = uint (hdr_nTime h - hdr_nTime last_block);
                 (off, bf3) = (if time_diff \<le> 32767 \<and> time_diff \<ge> - 32768 then (word_of_int time_diff, MarkAsCompressed FLAG_TIMESTAMP bf2)
                               else (time_offset h, bf2));
                 bf4 = (if hdr_nBits h = hdr_nBits last_block then MarkAsCompressed FLAG_NBITS bf3 else bf3)
             in (h\<lparr>bit_field := bf4, time_offset := off\<rparr>, vs1))"

definition Uncompress :: "(bytes \<Rightarrow> uint256) \<Rightarrow> CBlockHeader list \<Rightarrow> CompressibleBlockHeader \<times> u32 list \<Rightarrow> CompressibleBlockHeader \<times> u32 list" where
  "Uncompress HashX11 previous_blocks s =
     (case s of (h, vs) \<Rightarrow>
        if previous_blocks = [] then (h, SaveVersionAsMostRecent vs (hdr_nVersion h))
        else let last_block = last previous_blocks; bf = bit_field h;
                 (h1, vs1) =
                   (if IsVersionCompressed bf
                    then let version_offset = GetVersionOffset bf
                         in if version_offset \<le> length vs
                            then (h\<lparr>hdr_nVersion := vs ! (version_offset - 1)\<rparr>, MarkVersionAsMostRecent vs (version_offset - 1))
                            else (h, vs)
                    else (h, SaveVersionAsMostRecent vs (hdr_nVersion h)));
                 h2 = (if IsCompressed bf FLAG_PREV_BLOCK_HASH then h1\<lparr>hdr_hashPrevBlock := CBlockHeader_GetHash HashX11 last_block\<rparr> else h1);
                 h3 = (if IsCompressed bf FLAG_TIMESTAMP then h2\<lparr>hdr_nTime := hdr_nTime last_block + scast (time_offset h)\<rparr> else h2);
                 h4 = (if IsCompressed bf FLAG_NBITS then h3\<lparr>hdr_nBits := hdr_nBits last_block\<rparr> else h3)
             in (h4, vs1))"

definition Serialize_CompressibleBlockHeader :: "CompressibleBlockHeader \<Rightarrow> bytes" where
  "Serialize_CompressibleBlockHeader h =
     ser_writedata8 (bit_field h)
     @ (if \<not> IsVersionCompressed (bit_field h) then ser_writedata32 (hdr_nVersion h) else [])
     @ (if \<not> IsCompressed (bit_field h) FLAG_PREV_BLOCK_HASH then Serialize_uint256 (hdr_hashPrevBlock h) else [])
     @ Serialize_uint256 (hdr_hashMerkleRoot h)
     @ (if \<not> IsCompressed (bit_field h) FLAG_TIMESTAMP then ser_writedata32 (hdr_nTime h) else ser_writedata16 (time_offset h))
     @ (if \<not> IsCompressed (bit_field h) FLAG_NBITS then ser_writedata32 (hdr_nBits h) else [])
     @ ser_writedata32 (hdr_nNonce h)"

text \<open>The object that is read into has the values of the default constructors.\<close>

definition Unserialize_CompressibleBlockHeader :: "CompressibleBlockHeader reader" where
  "Unserialize_CompressibleBlockHeader =
     rbind ser_readdata8 (\<lambda>bf.
     rbind (if \<not> IsVersionCompressed bf then ser_readdata32 else rreturn (hdr_nVersion CBlockHeader_null)) (\<lambda>v.
     rbind (if \<not> IsCompressed bf FLAG_PREV_BLOCK_HASH then Unserialize_uint256 else rreturn (hdr_hashPrevBlock CBlockHeader_null)) (\<lambda>p.
     rbind Unserialize_uint256 (\<lambda>m.
     rbind (if \<not> IsCompressed bf FLAG_TIMESTAMP then rbind ser_readdata32 (\<lambda>t. rreturn (t, 0))
            else rbind ser_readdata16 (\<lambda>off. rreturn (hdr_nTime CBlockHeader_null, off))) (\<lambda>(t, off).
     rbind (if \<not> IsCompressed bf FLAG_NBITS then ser_readdata32 else rreturn (hdr_nBits CBlockHeader_null)) (\<lambda>b.
     rbind ser_readdata32 (\<lambda>n.
       rreturn \<lparr>hdr_nVersion = v, hdr_hashPrevBlock = p, hdr_hashMerkleRoot = m, hdr_nTime = t, hdr_nBits = b, hdr_nNonce = n,
                bit_field = bf, time_offset = off\<rparr>)))))))"

subsection \<open>The message\<close>

definition MAX_HEADERS_RESULTS :: nat where "MAX_HEADERS_RESULTS = 2000"

text \<open>
  The answer to \<open>getheaders2\<close>: the first header is not passed to \<open>Compress\<close>; and the announcement of new blocks, where
  every header is.
\<close>

definition compress_reply :: "CBlockHeader \<Rightarrow> CompressibleBlockHeader list \<times> u32 list \<Rightarrow> CompressibleBlockHeader list \<times> u32 list" where
  "compress_reply h s =
     (case s of (v_headers, vs) \<Rightarrow>
        case (if v_headers \<noteq> [] then Compress v_headers (new_CompressibleBlockHeader h, vs) else (new_CompressibleBlockHeader h, vs)) of
          (c, vs') \<Rightarrow> (v_headers @ [c], vs'))"

definition compress_announced :: "CBlockHeader \<Rightarrow> CompressibleBlockHeader list \<times> u32 list \<Rightarrow> CompressibleBlockHeader list \<times> u32 list" where
  "compress_announced h s =
     (case s of (v_headers, vs) \<Rightarrow>
        case Compress v_headers (new_CompressibleBlockHeader h, vs) of (c, vs') \<Rightarrow> (v_headers @ [c], vs'))"

definition headers2_reply :: "CBlockHeader list \<Rightarrow> bytes" where
  "headers2_reply hs = Vector_Ser Serialize_CompressibleBlockHeader (fst (fold compress_reply hs ([], [])))"

definition headers2_announced :: "CBlockHeader list \<Rightarrow> bytes" where
  "headers2_announced hs = Vector_Ser Serialize_CompressibleBlockHeader (fst (fold compress_announced hs ([], [])))"

primrec read_headers2 :: "(bytes \<Rightarrow> uint256) \<Rightarrow> nat \<Rightarrow> CBlockHeader list \<Rightarrow> u32 list \<Rightarrow> CBlockHeader list reader" where
  "read_headers2 HashX11 0 headers vs = rreturn headers"
| "read_headers2 HashX11 (Suc n) headers vs =
     rbind Unserialize_CompressibleBlockHeader (\<lambda>c.
       case Uncompress HashX11 headers (c, vs) of (c', vs') \<Rightarrow>
         read_headers2 HashX11 n (headers @ [GetBlockHeader_of c']) vs')"

text \<open>\<open>None\<close> is a message with too many headers, for which the sender is punished.\<close>

definition receive_headers2 :: "(bytes \<Rightarrow> uint256) \<Rightarrow> CBlockHeader list option reader" where
  "receive_headers2 HashX11 =
     rbind (ReadCompactSize True) (\<lambda>nCount.
       if nCount > MAX_HEADERS_RESULTS then rreturn None
       else rbind (read_headers2 HashX11 nCount [] []) (\<lambda>hs. rreturn (Some hs)))"

section \<open>The formats\<close>

abbreviation valid_header :: "'a CBlockHeader_scheme \<Rightarrow> bool" where
  "valid_header h \<equiv> length (hdr_hashPrevBlock h) = 32 \<and> length (hdr_hashMerkleRoot h) = 32"

interpretation header: canonical_codec Serialize_CBlockHeader Unserialize_CBlockHeader valid_header
  by unfold_locales
    (auto simp: Serialize_CBlockHeader_def Unserialize_CBlockHeader_def uint256.bind_back int32.bind_back rbind_eq_Inr
      uint256.reads_iff int32.reads_iff reader_simps)

text \<open>Transactions and blocks; the negative versions are not read back.\<close>

interpretation tx: codec Serialize_CTransaction Unserialize_CTransaction "\<lambda>tx. valid_tx tx \<and> 0 \<le> sint (tx_nVersion tx)"
  by unfold_locales (simp add: Unserialize_Serialize_CTransaction)

interpretation block: codec Serialize_CBlock Unserialize_CBlock
  "\<lambda>b. valid_header b \<and> \<not> fChecked b \<and> length (block_vtx b) \<le> MAX_SIZE
    \<and> (\<forall>tx \<in> set (block_vtx b). valid_tx tx \<and> 0 \<le> sint (tx_nVersion tx))"
proof unfold_locales
  fix b :: CBlock and r
  assume b: "valid_header b \<and> \<not> fChecked b \<and> length (block_vtx b) \<le> MAX_SIZE
    \<and> (\<forall>tx \<in> set (block_vtx b). valid_tx tx \<and> 0 \<le> sint (tx_nVersion tx))"
  have h: "Serialize_CBlockHeader b = Serialize_CBlockHeader (GetBlockHeader_of b)" "valid_header (GetBlockHeader_of b)"
    using b by (simp_all add: Serialize_CBlockHeader_def CBlockHeader.defs)
  have v: "Vector_Unser Unserialize_CTransaction (Vector_Ser Serialize_CTransaction (block_vtx b) @ r) = Inr (block_vtx b, r)"
    using b by (intro tx.vector_read_back) simp_all
  show "Unserialize_CBlock (Serialize_CBlock b @ r) = Inr (b, r)"
    unfolding Unserialize_CBlock_def Serialize_CBlock_def h(1) append_assoc header.bind_back [OF h(2)]
    using b by (simp add: rbind_def v rreturn_def CBlockHeader.defs)
qed

text \<open>What the reader leaves of a compressed header: the fields that were not sent have their default values.\<close>

definition blanked :: "CompressibleBlockHeader \<Rightarrow> CompressibleBlockHeader" where
  "blanked h =
     h\<lparr>hdr_nVersion := if IsVersionCompressed (bit_field h) then 0 else hdr_nVersion h,
       hdr_hashPrevBlock := if IsCompressed (bit_field h) FLAG_PREV_BLOCK_HASH then null_hash else hdr_hashPrevBlock h,
       hdr_nTime := if IsCompressed (bit_field h) FLAG_TIMESTAMP then 0 else hdr_nTime h,
       hdr_nBits := if IsCompressed (bit_field h) FLAG_NBITS then 0 else hdr_nBits h,
       time_offset := if IsCompressed (bit_field h) FLAG_TIMESTAMP then time_offset h else 0\<rparr>"

lemma read_compressible:
  assumes "valid_header h"
  shows "Unserialize_CompressibleBlockHeader (Serialize_CompressibleBlockHeader h @ r) = Inr (blanked h, r)"
  using assms
  by (simp add: Unserialize_CompressibleBlockHeader_def Serialize_CompressibleBlockHeader_def blanked_def CBlockHeader_null_def
      int8.bind_back int32.bind_back int16.bind_back uint256.bind_back reader_simps)

section \<open>Compression is lossless\<close>

text \<open>The bit field of a header that \<open>Compress\<close> has treated.\<close>

definition compressed_field :: "nat \<Rightarrow> bool \<Rightarrow> bool \<Rightarrow> byte" where
  "compressed_field k t b =
     (let bf2 = MarkAsCompressed FLAG_PREV_BLOCK_HASH (if k = 0 then 0x38 else SetVersionOffset (word_of_nat k) 0x38);
          bf3 = (if t then MarkAsCompressed FLAG_TIMESTAMP bf2 else bf2)
      in if b then MarkAsCompressed FLAG_NBITS bf3 else bf3)"

lemma compressed_field:
  assumes "k \<le> 7"
  shows "GetVersionOffset (compressed_field k t b) = k" "IsCompressed (compressed_field k t b) FLAG_PREV_BLOCK_HASH"
    "IsCompressed (compressed_field k t b) FLAG_TIMESTAMP = t" "IsCompressed (compressed_field k t b) FLAG_NBITS = b"
proof -
  from assms have "k \<in> {0, 1, 2, 3, 4, 5, 6, 7}" by auto
  then show "GetVersionOffset (compressed_field k t b) = k" "IsCompressed (compressed_field k t b) FLAG_PREV_BLOCK_HASH"
    "IsCompressed (compressed_field k t b) FLAG_TIMESTAMP = t" "IsCompressed (compressed_field k t b) FLAG_NBITS = b"
    by (auto simp: compressed_field_def GetVersionOffset_def IsCompressed_def MarkAsCompressed_def SetVersionOffset_def flag_field_defs Let_def)
qed

lemma new_field: "bit_field (new_CompressibleBlockHeader h) = 0x38"
  by (simp add: new_CompressibleBlockHeader_def MarkAsUncompressed_def SetVersionOffset_def flag_field_defs CBlockHeader.defs)

text \<open>The list of versions: the sender's is a prefix of the receiver's, up to the limit of seven.\<close>

lemma SaveVersionAsMostRecent_take: "length vs \<le> 7 \<Longrightarrow> SaveVersionAsMostRecent vs v = take 7 (v # vs)"
  by (cases "length vs = 7") (simp_all add: SaveVersionAsMostRecent_def butlast_conv_take)

lemma find_version:
  "find_version vs v \<le> length vs" "find_version vs v < length vs \<Longrightarrow> vs ! find_version vs v = v"
  by (induction vs) auto

lemma length_MarkVersionAsMostRecent: "it < length vs \<Longrightarrow> length (MarkVersionAsMostRecent vs it) = length vs"
  by (cases vs) (auto simp: MarkVersionAsMostRecent_def)

lemma versions_mark:
  assumes "length S \<le> 7" "it < length S"
  shows "MarkVersionAsMostRecent (take 7 (S @ T)) it = take 7 (MarkVersionAsMostRecent S it @ T)"
proof (cases "it = 6")
  case True
  with assms have "length S = 7" by simp
  with True show ?thesis by (simp add: MarkVersionAsMostRecent_def nth_append)
next
  case False
  with assms have "it \<le> 6" by simp
  with assms False show ?thesis by (auto simp: MarkVersionAsMostRecent_def nth_append min_def take_Cons')
qed

lemma versions_save:
  assumes "length S \<le> 7"
  shows "SaveVersionAsMostRecent (take 7 (S @ T)) v = take 7 (SaveVersionAsMostRecent S v @ T)"
proof -
  have "SaveVersionAsMostRecent (take 7 (S @ T)) v = take 7 (v # take 7 (S @ T))"
    by (rule SaveVersionAsMostRecent_take) simp
  also have "\<dots> = take 7 (SaveVersionAsMostRecent S v @ T)"
    using assms by (cases "length S = 7") (simp_all add: SaveVersionAsMostRecent_take min_def)
  finally show ?thesis .
qed

text \<open>One header: what \<open>Compress\<close> makes of it, and what \<open>Uncompress\<close> restores.\<close>

definition version_code :: "u32 list \<Rightarrow> u32 \<Rightarrow> nat" where
  "version_code vs v = (if find_version vs v < length vs then find_version vs v + 1 else 0)"

definition versions_after :: "u32 list \<Rightarrow> u32 \<Rightarrow> u32 list" where
  "versions_after vs v = (if find_version vs v < length vs then MarkVersionAsMostRecent vs (find_version vs v) else SaveVersionAsMostRecent vs v)"

lemma versions_after_bound: "length vs \<le> 7 \<Longrightarrow> length (versions_after vs v) \<le> 7" "length vs \<le> 7 \<Longrightarrow> version_code vs v \<le> 7"
  by (auto simp: versions_after_def version_code_def length_MarkVersionAsMostRecent SaveVersionAsMostRecent_take)

lemma Compress_new:
  assumes "prev \<noteq> []"
  shows "Compress prev (new_CompressibleBlockHeader h, vs) =
    (let d = hdr_nTime h - hdr_nTime (last prev); t = uint d \<le> 32767
     in (CBlockHeader.extend h \<lparr>bit_field = compressed_field (version_code vs (hdr_nVersion h)) t (hdr_nBits h = hdr_nBits (last prev)),
           time_offset = if t then ucast d else 0\<rparr>,
         versions_after vs (hdr_nVersion h)))"
proof -
  have f: "new_CompressibleBlockHeader h = CBlockHeader.extend h \<lparr>bit_field = 0x38, time_offset = 0\<rparr>"
    using new_field [of h] by (simp add: new_CompressibleBlockHeader_def CBlockHeader.defs)
  have p: "- 32768 \<le> uint d" for d :: u32 using uint_ge_0 [of d] by linarith
  show ?thesis using assms p
    by (simp add: Compress_def f Let_def compressed_field_def version_code_def versions_after_def CBlockHeader.defs unsigned_ucast_eq)
qed

lemma Uncompress_Compress:
  assumes "length S \<le> 7" "prev \<noteq> []" "hdr_hashPrevBlock h = CBlockHeader_GetHash X (last prev)"
    and "pc \<noteq> []" "hdr_nTime (last pc) = hdr_nTime (last prev)" "hdr_nBits (last pc) = hdr_nBits (last prev)"
    and "Compress pc (new_CompressibleBlockHeader h, S) = (c, S')"
  shows "\<exists>c'. Uncompress X prev (blanked c, take 7 (S @ T)) = (c', take 7 (S' @ T)) \<and> GetBlockHeader_of c' = h
    \<and> GetBlockHeader_of c = h \<and> length S' \<le> 7"
proof -
  define d where "d = hdr_nTime h - hdr_nTime (last prev)"
  define t where "t \<longleftrightarrow> uint d \<le> 32767"
  define k where "k = version_code S (hdr_nVersion h)"
  define b where "b \<longleftrightarrow> hdr_nBits h = hdr_nBits (last prev)"
  have c: "c = CBlockHeader.extend h \<lparr>bit_field = compressed_field k t b, time_offset = if t then ucast d else 0\<rparr>"
    "S' = versions_after S (hdr_nVersion h)"
    using assms(7) unfolding Compress_new [OF assms(4)] Let_def assms(5,6) k_def [symmetric] d_def [symmetric] t_def [symmetric] b_def [symmetric]
    by auto
  have k: "k \<le> 7" using versions_after_bound [OF assms(1)] by (simp add: k_def)
  note field = compressed_field [OF k, of t b]
  have bits: "hdr_nBits (last prev) = hdr_nBits h" if b using that by (simp add: b_def)
  have time: "hdr_nTime (last prev) + scast (ucast d :: u16) = hdr_nTime h" if t
  proof -
    have "- (2 ^ 15) \<le> uint d" by (rule order_trans [OF _ uint_ge_0]) simp
    then have "signed_take_bit 15 (uint d) = uint d" using that by (intro signed_take_bit_int_eq_self) (simp_all add: t_def)
    then have "sint (ucast d :: u16) = uint d" using that by (simp add: t_def sint_uint unsigned_ucast_eq take_bit_int_eq_self)
    then have "(word_of_int (sint (ucast d :: u16)) :: u32) = d" by simp
    then have "scast (ucast d :: u16) = d" by simp
    then show ?thesis by (simp add: d_def)
  qed
  have "Uncompress X prev (blanked c, take 7 (S @ T)) = (c\<lparr>time_offset := if t then ucast d else 0\<rparr>, take 7 (S' @ T))"
  proof (cases "find_version S (hdr_nVersion h) < length S")
    case True
    then have "k = Suc (find_version S (hdr_nVersion h))" "S' = MarkVersionAsMostRecent S (find_version S (hdr_nVersion h))"
      by (simp_all add: k_def version_code_def c(2) versions_after_def)
    then show ?thesis using True assms(1-3) field time find_version(2) [of S "hdr_nVersion h"] versions_mark [OF assms(1) True, of T]
      by (cases t; cases b; cases h) (simp_all add: Uncompress_def c(1) blanked_def CBlockHeader.defs IsVersionCompressed_def bits nth_append Let_def)
  next
    case False
    then have "k = 0" "S' = SaveVersionAsMostRecent S (hdr_nVersion h)"
      by (simp_all add: k_def version_code_def c(2) versions_after_def)
    then show ?thesis using assms(1-3) field time versions_save [OF assms(1), of T]
      by (cases t; cases b; cases h) (simp_all add: Uncompress_def c(1) blanked_def CBlockHeader.defs IsVersionCompressed_def bits Let_def)
  qed
  then show ?thesis using versions_after_bound [OF assms(1)] by (simp add: c CBlockHeader.defs)
qed

lemma Uncompress_first:
  "Uncompress X [] (blanked (new_CompressibleBlockHeader h), []) = (new_CompressibleBlockHeader h, [hdr_nVersion h])"
  "GetBlockHeader_of (new_CompressibleBlockHeader h) = h"
proof -
  have "\<not> IsVersionCompressed 0x38" "\<not> IsCompressed 0x38 FLAG_PREV_BLOCK_HASH" "\<not> IsCompressed 0x38 FLAG_TIMESTAMP" "\<not> IsCompressed 0x38 FLAG_NBITS"
    by (simp_all add: IsVersionCompressed_def GetVersionOffset_def IsCompressed_def flag_field_defs)
  moreover have "time_offset (new_CompressibleBlockHeader h) = 0" by (simp add: new_CompressibleBlockHeader_def CBlockHeader.defs)
  ultimately have "blanked (new_CompressibleBlockHeader h) = new_CompressibleBlockHeader h" by (simp add: blanked_def new_field)
  then show "Uncompress X [] (blanked (new_CompressibleBlockHeader h), []) = (new_CompressibleBlockHeader h, [hdr_nVersion h])"
    "GetBlockHeader_of (new_CompressibleBlockHeader h) = h"
    by (simp_all add: Uncompress_def SaveVersionAsMostRecent_def new_CompressibleBlockHeader_def CBlockHeader.defs)
qed

abbreviation chained :: "(bytes \<Rightarrow> uint256) \<Rightarrow> CBlockHeader list \<Rightarrow> bool" where
  "chained X \<equiv> successively (\<lambda>a b. hdr_hashPrevBlock b = CBlockHeader_GetHash X a)"

lemma truncate_fields:
  "hdr_nTime (GetBlockHeader_of c) = hdr_nTime c" "hdr_nBits (GetBlockHeader_of c) = hdr_nBits c"
  "hdr_hashPrevBlock (GetBlockHeader_of c) = hdr_hashPrevBlock c" "hdr_hashMerkleRoot (GetBlockHeader_of c) = hdr_hashMerkleRoot c"
  by (simp_all add: CBlockHeader.defs)

text \<open>The loops in step: every further header arrives as it was sent.\<close>

lemma read_sent:
  "pc \<noteq> [] \<Longrightarrow> length S \<le> 7 \<Longrightarrow> chained X (last (map GetBlockHeader_of pc) # hs) \<Longrightarrow> \<forall>h \<in> set hs. valid_header h \<Longrightarrow>
    \<exists>cs S'. fold compress_announced hs (pc, S) = (pc @ cs, S') \<and> length cs = length hs \<and>
      read_headers2 X (length hs) (map GetBlockHeader_of pc) (take 7 (S @ T)) (concat (map Serialize_CompressibleBlockHeader cs) @ r)
        = Inr (map GetBlockHeader_of pc @ hs, r)"
proof (induction hs arbitrary: pc S)
  case (Cons h hs)
  let ?prev = "map GetBlockHeader_of pc"
  have l: "last ?prev = GetBlockHeader_of (last pc)" using Cons.prems(1) by (rule last_map)
  obtain c S' where c: "Compress pc (new_CompressibleBlockHeader h, S) = (c, S')" by fastforce
  have "hdr_hashPrevBlock h = CBlockHeader_GetHash X (last ?prev)" using Cons.prems(3) by simp
  from Uncompress_Compress [OF Cons.prems(2) _ this Cons.prems(1) _ _ c, of T] Cons.prems(1)
  obtain c' where c': "Uncompress X ?prev (blanked c, take 7 (S @ T)) = (c', take 7 (S' @ T))" "GetBlockHeader_of c' = h"
    "GetBlockHeader_of c = h" "length S' \<le> 7"
    by (auto simp: l truncate_fields)
  have v: "valid_header c" using Cons.prems(4) c'(3) truncate_fields(3,4) [of c] by simp
  have "chained X (last (map GetBlockHeader_of (pc @ [c])) # hs)" using Cons.prems(3) c'(3) by simp
  with Cons.IH [of "pc @ [c]" S'] c'(4) Cons.prems(4) obtain cs S'' where
    cs: "fold compress_announced hs (pc @ [c], S') = (pc @ [c] @ cs, S'')" "length cs = length hs"
      "read_headers2 X (length hs) (?prev @ [h]) (take 7 (S' @ T)) (concat (map Serialize_CompressibleBlockHeader cs) @ r)
        = Inr (?prev @ [h] @ hs, r)"
    using c'(3) by auto
  have "fold compress_announced (h # hs) (pc, S) = (pc @ c # cs, S'')" using cs(1) by (simp add: compress_announced_def c)
  moreover have "read_headers2 X (length (h # hs)) ?prev (take 7 (S @ T)) (concat (map Serialize_CompressibleBlockHeader (c # cs)) @ r)
      = Inr (?prev @ h # hs, r)"
    using cs(3) c'(1,2) by (simp add: rbind_def read_compressible [OF v])
  ultimately show ?case using cs(2) by (metis length_Cons)
qed (simp add: reader_simps)

text \<open>The first header is sent as it is, whether or not its version is remembered by the sender.\<close>

lemma receive_sent:
  assumes "chained X hs" "\<forall>h \<in> set hs. valid_header h" "length hs \<le> MAX_HEADERS_RESULTS" "S = [] \<or> S = [hdr_nVersion (hd hs)]"
    and "cs = (if hs = [] then [] else fst (fold compress_announced (tl hs) ([new_CompressibleBlockHeader (hd hs)], S)))"
  shows "receive_headers2 X (Vector_Ser Serialize_CompressibleBlockHeader cs @ r) = Inr (Some hs, r)"
proof (cases hs)
  case Nil
  then show ?thesis by (simp add: assms(5) receive_headers2_def Vector_Ser_def compact_bind_back reader_simps MAX_SIZE_def)
next
  case (Cons h hs')
  let ?c = "new_CompressibleBlockHeader h"
  have T: "take 7 (S @ (if S = [] then [hdr_nVersion h] else [])) = [hdr_nVersion h]" using assms(4) Cons by auto
  have v: "valid_header ?c" using Cons assms(2) Uncompress_first(2) [of h] truncate_fields(3,4) [of ?c] by simp
  have "\<exists>cs' S'. fold compress_announced hs' ([?c], S) = ([?c] @ cs', S') \<and> length cs' = length hs' \<and>
      read_headers2 X (length hs') (map GetBlockHeader_of [?c]) (take 7 (S @ (if S = [] then [hdr_nVersion h] else [])))
        (concat (map Serialize_CompressibleBlockHeader cs') @ r) = Inr (map GetBlockHeader_of [?c] @ hs', r)"
    using assms(1,2,4) Cons by (intro read_sent) (auto simp: Uncompress_first(2))
  then obtain cs' S' where cs': "fold compress_announced hs' ([?c], S) = (?c # cs', S')" "length cs' = length hs'"
      "read_headers2 X (length hs') [h] [hdr_nVersion h] (concat (map Serialize_CompressibleBlockHeader cs') @ r) = Inr (h # hs', r)"
    unfolding T by (auto simp: Uncompress_first(2))
  have cs: "cs = ?c # cs'" by (simp add: assms(5) Cons cs'(1))
  have "read_headers2 X (length hs) [] [] (concat (map Serialize_CompressibleBlockHeader cs) @ r) = Inr (hs, r)"
    using cs'(3) by (simp add: Cons cs rbind_def read_compressible [OF v] Uncompress_first)
  moreover have "length cs = length hs" "length hs \<le> MAX_SIZE"
    using cs'(2) assms(3) by (simp_all add: Cons cs MAX_SIZE_def MAX_HEADERS_RESULTS_def)
  ultimately show ?thesis using assms(3) by (simp add: receive_headers2_def Vector_Ser_def compact_bind_back reader_simps)
qed

lemma compress_reply_rest: "pc \<noteq> [] \<Longrightarrow> fold compress_reply hs (pc, S) = fold compress_announced hs (pc, S)"
  by (induction hs arbitrary: pc S) (auto simp: compress_reply_def compress_announced_def split: prod.split)

text \<open>
  C38: A \<open>headers2\<close> message is lossless: whatever its versions, times and difficulties are, a chain of headers (each with the
  hash of the one before it) that is sent compressed, in reply to \<open>getheaders2\<close> or as an announcement, is read back
  unchanged, although the two senders keep different lists of recent versions.
\<close>

theorem headers2_roundtrip:
  assumes "chained X hs" "\<forall>h \<in> set hs. valid_header h" "length hs \<le> MAX_HEADERS_RESULTS"
  shows "receive_headers2 X (headers2_reply hs @ r) = Inr (Some hs, r)
    \<and> receive_headers2 X (headers2_announced hs @ r) = Inr (Some hs, r)"
proof (cases hs)
  case Nil
  then show ?thesis using receive_sent [OF assms, of "[]"] by (simp add: headers2_reply_def headers2_announced_def)
next
  case (Cons h hs')
  have "fold compress_reply hs ([], []) = fold compress_announced hs' ([new_CompressibleBlockHeader h], [])"
    by (simp add: Cons compress_reply_def compress_reply_rest)
  moreover have "fold compress_announced hs ([], []) = fold compress_announced hs' ([new_CompressibleBlockHeader h], [hdr_nVersion h])"
    by (simp add: Cons compress_announced_def Compress_def SaveVersionAsMostRecent_def new_CompressibleBlockHeader_def CBlockHeader.defs)
  ultimately show ?thesis
    using receive_sent [OF assms, of "[]"] receive_sent [OF assms, of "[hdr_nVersion h]"] Cons
    by (simp add: headers2_reply_def headers2_announced_def)
qed

text \<open>Three headers with different versions; the third goes back in time.\<close>

definition example_header :: "u32 \<Rightarrow> uint256 \<Rightarrow> u32 \<Rightarrow> CBlockHeader" where
  "example_header version prev time = \<lparr>hdr_nVersion = version, hdr_hashPrevBlock = prev, hdr_hashMerkleRoot = null_hash, hdr_nTime = time,
     hdr_nBits = 0x1e0ffff0, hdr_nNonce = 7\<rparr>"

definition example_headers :: "CBlockHeader list" where
  "example_headers =
     (let h1 = example_header 1 null_hash 1000; h2 = example_header 2 (CBlockHeader_GetHash (take 32) h1) 1150
      in [h1, h2, example_header 2 (CBlockHeader_GetHash (take 32) h2) 1100])"

theorem headers2_roundtrip_witness:
  "receive_headers2 (take 32) (headers2_reply example_headers @ [5]) = Inr (Some example_headers, [5])
    \<and> receive_headers2 (take 32) (headers2_announced example_headers @ [5]) = Inr (Some example_headers, [5])"
proof (rule headers2_roundtrip)
  show "chained (take 32) example_headers" by (simp add: example_headers_def example_header_def Let_def)
  show "\<forall>h \<in> set example_headers. valid_header h"
    by (simp add: example_headers_def example_header_def Let_def CBlockHeader_GetHash_def Serialize_CBlockHeader_def null_hash_def
        ser_writedata32_def WriteLE32_def Serialize_uint256_def)
  show "length example_headers \<le> MAX_HEADERS_RESULTS" by (simp add: example_headers_def MAX_HEADERS_RESULTS_def Let_def)
qed

text \<open>The time offset is never negative: a header with an earlier time than its predecessor is sent with its full time.\<close>

lemma Compress_earlier_time:
  assumes "pc \<noteq> []" "hdr_nTime h < hdr_nTime (last pc)" "uint (hdr_nTime (last pc)) - uint (hdr_nTime h) \<le> 2 ^ 31" "length vs \<le> 7"
  shows "\<not> IsCompressed (bit_field (fst (Compress pc (new_CompressibleBlockHeader h, vs)))) FLAG_TIMESTAMP"
proof -
  let ?d = "hdr_nTime h - hdr_nTime (last pc)"
  have "uint ?d = uint (hdr_nTime h) - uint (hdr_nTime (last pc)) + 2 ^ 32"
    using assms(2) by (simp add: uint_sub_if' word_less_def linorder_not_le)
  then have "\<not> uint ?d \<le> 32767" using assms(3) by simp
  then show ?thesis
    using compressed_field(3) [OF versions_after_bound(2) [OF assms(4)], of "hdr_nVersion h" False "hdr_nBits h = hdr_nBits (last pc)"]
    by (auto simp: Compress_new [OF assms(1)] Let_def CBlockHeader.defs)
qed

end
