(* ===== verification/BlockCheck.thy ===== *)
theory BlockCheck
  imports TxVerify Merkle Payments VersionBits Blocks
begin

text \<open>
  The checks of a block that do not need the coins, \<^verbatim>\<open>validation.cpp\<close>: \<open>CheckBlockHeader\<close>, \<open>CheckBlock\<close>,
  \<open>ContextualCheckTransaction\<close>, \<open>ContextualCheckBlockHeader\<close> and \<open>ContextualCheckBlock\<close>, and \<open>GetBlockScriptFlags\<close>, the
  script rules in force at a block.  The lemmas say what an accepted block satisfies.
\<close>

unbundle bit_operations_syntax

section \<open>Checks without context\<close>

definition CheckBlockHeader :: "(bytes \<Rightarrow> uint256) \<Rightarrow> Params \<Rightarrow> 'a CBlockHeader_scheme \<Rightarrow> bool \<Rightarrow> tx_error + unit" where
  "CheckBlockHeader HashX11 params block fCheckPOW =
     (let hash = CBlockHeader_GetHash HashX11 block
      in if fCheckPOW \<and> \<not> CheckProofOfWork hash (hdr_nBits block) params then Inl (Invalid BLOCK_INVALID_HEADER ''high-hash'')
         else if hashDevnetGenesisBlock params \<noteq> null_hash \<and> hdr_hashPrevBlock block = hashGenesisBlock params
                 \<and> hash \<noteq> hashDevnetGenesisBlock params
              then Inl (Invalid CONSENSUS ''devnet-genesis'')
         else Inr ())"

fun check_transactions :: "CTransaction list \<Rightarrow> tx_error + unit" where
  "check_transactions [] = Inr ()"
| "check_transactions (tx # vtx) = (case CheckTransaction tx of Inl e \<Rightarrow> Inl e | Inr _ \<Rightarrow> check_transactions vtx)"

definition legacy_sigops :: "CTransaction list \<Rightarrow> u32" where
  "legacy_sigops vtx = fold (\<lambda>tx n. n + GetLegacySigOpCount tx) vtx 0"

text \<open>An accepted block is returned with its flag; \<open>fChecked\<close> is the only part of it that the function changes.\<close>

definition CheckBlock :: "(bytes \<Rightarrow> uint256) \<Rightarrow> crypto \<Rightarrow> Params \<Rightarrow> CBlock \<Rightarrow> bool \<Rightarrow> bool \<Rightarrow> tx_error + CBlock" where
  "CheckBlock HashX11 cr params block fCheckPOW fCheckMerkleRoot =
     (if fChecked block then Inr block
      else case CheckBlockHeader HashX11 params block fCheckPOW of
             Inl e \<Rightarrow> Inl e
           | Inr _ \<Rightarrow>
               let vtx = block_vtx block; (hashMerkleRoot2, mutated) = BlockMerkleRoot cr vtx
               in if fCheckMerkleRoot \<and> hdr_hashMerkleRoot block \<noteq> hashMerkleRoot2 then Inl (Invalid BLOCK_MUTATED ''bad-txnmrklroot'')
                  else if fCheckMerkleRoot \<and> mutated then Inl (Invalid BLOCK_MUTATED ''bad-txns-duplicate'')
                  else if vtx = [] \<or> length vtx > MaxBlockSize True \<or> length (Serialize_CBlock block) > MaxBlockSize True
                       then Inl (Invalid CONSENSUS ''bad-blk-length'')
                  else if vtx = [] \<or> \<not> IsCoinBase (hd vtx) then Inl (Invalid CONSENSUS ''bad-cb-missing'')
                  else if \<exists>tx \<in> set (tl vtx). IsCoinBase tx then Inl (Invalid CONSENSUS ''bad-cb-multiple'')
                  else case check_transactions vtx of
                         Inl e \<Rightarrow> Inl e
                       | Inr _ \<Rightarrow>
                           if unat (legacy_sigops vtx) > MaxBlockSigOps True then Inl (Invalid CONSENSUS ''bad-blk-sigops'')
                           else Inr (if fCheckPOW \<and> fCheckMerkleRoot then block\<lparr>fChecked := True\<rparr> else block))"

section \<open>Checks in the context of the previous headers\<close>

definition MAX_STANDARD_TX_SIZE :: nat where "MAX_STANDARD_TX_SIZE = 400000"
definition MAX_FUTURE_BLOCK_TIME :: int where "MAX_FUTURE_BLOCK_TIME = 2 * 60 * 60"
definition LOCKTIME_MEDIAN_TIME_PAST :: u32 where "LOCKTIME_MEDIAN_TIME_PAST = push_bit 1 1"

definition next_height :: "index_store \<Rightarrow> ptr option \<Rightarrow> int option" where
  "next_height st pindexPrev = (case pindexPrev of None \<Rightarrow> Some 0 | Some p \<Rightarrow> map_option (\<lambda>b. nHeight b + 1) (st p))"

definition ContextualCheckTransaction :: "Params \<Rightarrow> int \<Rightarrow> CTransaction \<Rightarrow> tx_error + unit" where
  "ContextualCheckTransaction params height tx =
     (let type = tx_nType tx
      in if height \<ge> DIP0003Height params \<and>
            (if sint (tx_nVersion tx) \<ge> 3
             then type \<notin> {TRANSACTION_NORMAL, TRANSACTION_PROVIDER_REGISTER, TRANSACTION_PROVIDER_UPDATE_SERVICE,
                    TRANSACTION_PROVIDER_UPDATE_REGISTRAR, TRANSACTION_PROVIDER_UPDATE_REVOKE, TRANSACTION_COINBASE,
                    TRANSACTION_QUORUM_COMMITMENT, TRANSACTION_MNHF_SIGNAL, TRANSACTION_SMSG_ROOM}
             else type \<noteq> TRANSACTION_NORMAL)
         then Inl (Invalid CONSENSUS ''bad-txns-type'')
         else if height \<ge> DIP0003Height params \<and> sint (tx_nVersion tx) \<ge> 3 \<and> IsCoinBase tx \<and> type \<noteq> TRANSACTION_COINBASE
              then Inl (Invalid CONSENSUS ''bad-txns-cb-type'')
         else if height \<ge> DIP0001Height params \<and> GetTotalSize tx > MAX_STANDARD_TX_SIZE
              then Inl (Invalid CONSENSUS ''bad-txns-oversize'')
         else Inr ())"

text \<open>\<open>abs(n1 - n2)\<close> and \<open>>\<close> on floating-point numbers.\<close>

fun abs_diff :: "double \<Rightarrow> double \<Rightarrow> double" where
  "abs_diff (Fin a) (Fin b) = Fin \<bar>fl (a - b)\<bar>"
| "abs_diff Inf (Fin b) = Inf"
| "abs_diff (Fin a) Inf = Inf"
| "abs_diff x y = NaN"

fun fgreater :: "double \<Rightarrow> double \<Rightarrow> bool" where
  "fgreater (Fin a) (Fin b) = (a > b)"
| "fgreater Inf (Fin b) = True"
| "fgreater x y = False"

text \<open>\<open>GetLastCheckpoint\<close>: the checkpoints are ordered by height and tried from the last.\<close>

definition GetLastCheckpoint :: "(uint256 \<Rightarrow> ptr option) \<Rightarrow> (int \<times> uint256) list \<Rightarrow> ptr option" where
  "GetLastCheckpoint block_index checkpoints =
     fold (\<lambda>(h, hash) r. case r of Some p \<Rightarrow> Some p | None \<Rightarrow> block_index hash) (rev checkpoints) None"

text \<open>What the check of a header reads besides the block.\<close>

record header_context =
  hc_net :: network
  hc_params :: Params
  hc_float :: kgw_float
  hc_bm :: BlockManager
  fCheckpointsEnabled :: bool
  hc_checkpoints :: "(int \<times> uint256) list"
  nAdjustedTime :: int

definition header_work_ok :: "header_context \<Rightarrow> 'a CBlockHeader_scheme \<Rightarrow> int \<Rightarrow> u32 \<Rightarrow> bool" where
  "header_work_ok ctx block height required =
     (if hc_net ctx = MAIN \<and> height \<le> 68589
      then let n1 = ConvertBitsToDouble (hdr_nBits block); n2 = ConvertBitsToDouble required
           in \<not> fgreater (abs_diff n1 n2) (fmul n1 (lit (1 / 2)))
      else hdr_nBits block = required)"

definition ContextualCheckBlockHeader :: "header_context \<Rightarrow> 'a CBlockHeader_scheme \<Rightarrow> ptr \<Rightarrow> tx_error + unit" where
  "ContextualCheckBlockHeader ctx block pindexPrev =
     (let st = heap (hc_bm ctx); params = hc_params ctx
      in case (st pindexPrev, GetNextWorkRequired (hc_float ctx) st pindexPrev (GetBlockHeader_of block) params, GetMedianTimePast st pindexPrev) of
           (Some prev, Some required, Some mtp) \<Rightarrow>
             let height = nHeight prev + 1; time = header_GetBlockTime block; version = sint (hdr_nVersion block)
             in if \<not> header_work_ok ctx block height required then Inl (Invalid BLOCK_INVALID_HEADER ''bad-diffbits'')
                else if fCheckpointsEnabled ctx \<and>
                        (case Option.bind (GetLastCheckpoint (m_block_index (hc_bm ctx)) (hc_checkpoints ctx)) st of
                           None \<Rightarrow> False | Some pcheckpoint \<Rightarrow> height < nHeight pcheckpoint)
                     then Inl (Invalid BLOCK_CHECKPOINT ''bad-fork-prior-to-checkpoint'')
                else if time \<le> mtp then Inl (Invalid BLOCK_INVALID_HEADER ''time-too-old'')
                else if height \<ge> nPowLWMAHeight params \<and> time < GetBlockTime prev + nPowTargetSpacing params div 2
                     then Inl (Invalid BLOCK_INVALID_HEADER ''time-too-close'')
                else if time > nAdjustedTime ctx + MAX_FUTURE_BLOCK_TIME then Inl (Invalid BLOCK_TIME_FUTURE ''time-too-new'')
                else if (version < 2 \<and> height \<ge> BIP34Height params) \<or> (version < 3 \<and> height \<ge> BIP66Height params)
                        \<or> (version < 4 \<and> height \<ge> BIP65Height params)
                     then Inl (Invalid BLOCK_INVALID_HEADER ''bad-version'')
                else Inr ()
         | _ \<Rightarrow> Inl null_pointer)"

fun check_final :: "Params \<Rightarrow> int \<Rightarrow> int \<Rightarrow> CTransaction list \<Rightarrow> tx_error + unit" where
  "check_final params height cutoff [] = Inr ()"
| "check_final params height cutoff (tx # vtx) =
     (if \<not> IsFinalTx tx height cutoff then Inl (Invalid CONSENSUS ''bad-txns-nonfinal'')
      else case ContextualCheckTransaction params height tx of Inl e \<Rightarrow> Inl e | Inr _ \<Rightarrow> check_final params height cutoff vtx)"

text \<open>\<open>csv_active\<close>: relative lock times are enforced; the answer of the version bits is cached.\<close>

definition csv_active :: "index_store \<Rightarrow> Params \<Rightarrow> ptr option \<Rightarrow> int \<Rightarrow> VersionBitsCache \<Rightarrow> (VersionBitsCache \<times> bool) option" where
  "csv_active st params pindexPrev height vbc =
     (if height \<ge> nSchnorrHeight params then Some (vbc, True)
      else map_option (\<lambda>(c, s). (c, s = ACTIVE)) (VersionBitsState st pindexPrev params DEPLOYMENT_CSV vbc))"

definition ContextualCheckBlock :: "index_store \<Rightarrow> Params \<Rightarrow> CBlock \<Rightarrow> ptr option \<Rightarrow> VersionBitsCache \<Rightarrow> tx_error + VersionBitsCache" where
  "ContextualCheckBlock st params block pindexPrev vbc =
     (case next_height st pindexPrev of
        None \<Rightarrow> Inl null_pointer
      | Some height \<Rightarrow>
          (case (if pindexPrev = None \<and> height < nSchnorrHeight params then Some (vbc, False) else csv_active st params pindexPrev height vbc) of
             None \<Rightarrow> Inl null_pointer
           | Some (vbc1, csv) \<Rightarrow>
               if csv \<and> pindexPrev = None then Inl assertion_failed
               else case (if csv then GetMedianTimePast st (the pindexPrev) else Some (header_GetBlockTime block)) of
                      None \<Rightarrow> Inl null_pointer
                    | Some nLockTimeCutoff \<Rightarrow>
                        let vtx = block_vtx block; nMaxBlockSize = MaxBlockSize (height \<ge> DIP0001Height params);
                            dip3 = (height \<ge> DIP0003Height params); expect = push_int64 [] height; sig = scriptSig (hd (tx_vin (hd vtx)))
                        in if vtx = [] \<or> length vtx > nMaxBlockSize \<or> length (Serialize_CBlock block) > nMaxBlockSize
                           then Inl (Invalid CONSENSUS ''bad-blk-length'')
                           else case check_final params height nLockTimeCutoff vtx of
                                  Inl e \<Rightarrow> Inl e
                                | Inr _ \<Rightarrow>
                                    if unat (legacy_sigops vtx) > MaxBlockSigOps (height \<ge> DIP0001Height params)
                                    then Inl (Invalid CONSENSUS ''bad-blk-sigops'')
                                    else if height \<ge> BIP34Height params \<and> \<not> dip3 \<and> tx_vin (hd vtx) = [] then Inl null_pointer
                                    else if height \<ge> BIP34Height params \<and> \<not> dip3 \<and> (length sig < length expect \<or> take (length expect) sig \<noteq> expect)
                                         then Inl (Invalid CONSENSUS ''bad-cb-height'')
                                    else if dip3 \<and> tx_nType (hd vtx) \<noteq> TRANSACTION_COINBASE then Inl (Invalid CONSENSUS ''bad-cb-type'')
                                    else Inr vbc1))"

section \<open>The script rules of a block\<close>

definition deployment_flag :: "index_store \<Rightarrow> Params \<Rightarrow> ptr option \<Rightarrow> DeploymentPos \<Rightarrow> u32 \<Rightarrow> VersionBitsCache \<times> u32 \<Rightarrow> (VersionBitsCache \<times> u32) option" where
  "deployment_flag st params pindexPrev pos rule s =
     (case s of (vbc, flags) \<Rightarrow>
        map_option (\<lambda>(c, state). (c, if state = ACTIVE then flags OR rule else flags)) (VersionBitsState st pindexPrev params pos vbc))"

definition GetBlockScriptFlags :: "index_store \<Rightarrow> Params \<Rightarrow> CBlockIndex \<Rightarrow> VersionBitsCache \<Rightarrow> (VersionBitsCache \<times> u32) option" where
  "GetBlockScriptFlags st params pindex vbc =
     (let height = nHeight pindex; nBIP16SwitchTime = 1333238400;
          flags0 = (if GetBlockTime pindex \<ge> nBIP16SwitchTime then SCRIPT_VERIFY_P2SH else SCRIPT_VERIFY_NONE);
          flags1 = (if height \<ge> BIP66Height params then flags0 OR SCRIPT_VERIFY_DERSIG else flags0);
          flags2 = (if height \<ge> BIP65Height params then flags1 OR SCRIPT_VERIFY_CHECKLOCKTIMEVERIFY else flags1)
      in case (if height \<ge> nSchnorrHeight params
               then Some (vbc, flags2 OR SCRIPT_VERIFY_CHECKSEQUENCEVERIFY OR SCRIPT_VERIFY_NULLDUMMY OR SCRIPT_ENABLE_DIP0020_OPCODES)
               else Option.bind (Option.bind (deployment_flag st params (pprev pindex) DEPLOYMENT_CSV SCRIPT_VERIFY_CHECKSEQUENCEVERIFY (vbc, flags2))
                      (deployment_flag st params (pprev pindex) DEPLOYMENT_BIP147 SCRIPT_VERIFY_NULLDUMMY))
                      (deployment_flag st params (pprev pindex) DEPLOYMENT_DIP0020 SCRIPT_ENABLE_DIP0020_OPCODES)) of
           None \<Rightarrow> None
         | Some (vbc1, flags3) \<Rightarrow>
             let flags4 = (if height \<ge> nSchnorrHeight params then flags3 OR SCRIPT_ENABLE_SCHNORR else flags3);
                 flags5 = (if height \<ge> nLargeElementsHeight params then flags4 OR SCRIPT_ENABLE_LARGE_ELEMENTS else flags4)
             in Some (vbc1, flags5))"

section \<open>Accepted blocks\<close>

lemma check_transactions_iff: "check_transactions vtx = Inr () \<longleftrightarrow> (\<forall>tx \<in> set vtx. CheckTransaction tx = Inr ())"
  by (induction vtx) (auto split: sum.split)

text \<open>What the checks without context establish; the flag is the record that they have passed before.\<close>

definition block_checked :: "(bytes \<Rightarrow> uint256) \<Rightarrow> crypto \<Rightarrow> Params \<Rightarrow> CBlock \<Rightarrow> bool \<Rightarrow> bool \<Rightarrow> bool" where
  "block_checked X cr params b fPOW fRoot \<longleftrightarrow>
     (fPOW \<longrightarrow> CheckProofOfWork (CBlockHeader_GetHash X b) (hdr_nBits b) params)
     \<and> (fRoot \<longrightarrow> BlockMerkleRoot cr (block_vtx b) = (hdr_hashMerkleRoot b, False))
     \<and> block_vtx b \<noteq> [] \<and> length (Serialize_CBlock b) \<le> MaxBlockSize True
     \<and> IsCoinBase (hd (block_vtx b)) \<and> (\<forall>tx \<in> set (tl (block_vtx b)). \<not> IsCoinBase tx)
     \<and> (\<forall>tx \<in> set (block_vtx b). CheckTransaction tx = Inr ()) \<and> unat (legacy_sigops (block_vtx b)) \<le> MaxBlockSigOps True"

lemma CheckBlock_accepts:
  assumes "CheckBlock X cr params b fPOW fRoot = Inr b'"
  shows "fChecked b \<and> b' = b \<or> block_checked X cr params b fPOW fRoot \<and> b' = b\<lparr>fChecked := fChecked b \<or> fPOW \<and> fRoot\<rparr>"
proof (cases "fChecked b")
  case False
  then have u: "b\<lparr>fChecked := False\<rparr> = b" by (cases b) simp
  obtain r m where rm: "BlockMerkleRoot cr (block_vtx b) = (r, m)" by fastforce
  have h: "CheckBlockHeader X params b fPOW = Inr ()"
    using assms False by (cases "CheckBlockHeader X params b fPOW") (simp_all add: CheckBlock_def)
  have t: "check_transactions (block_vtx b) = Inr ()"
    using assms False h rm by (cases "check_transactions (block_vtx b)") (simp_all add: CheckBlock_def Let_def split: if_split_asm)
  have pow: "fPOW \<longrightarrow> CheckProofOfWork (CBlockHeader_GetHash X b) (hdr_nBits b) params"
    using h by (simp add: CheckBlockHeader_def Let_def split: if_split_asm)
  have "block_checked X cr params b fPOW fRoot"
    using assms False pow t [unfolded check_transactions_iff]
    by (simp add: CheckBlock_def h t rm Let_def block_checked_def split: if_split_asm)
  moreover have "b' = b\<lparr>fChecked := fPOW \<and> fRoot\<rparr>"
    using assms False h t rm u by (simp add: CheckBlock_def Let_def split: if_split_asm)
  ultimately show ?thesis using False by simp
qed (use assms in \<open>simp add: CheckBlock_def\<close>)

section \<open>The header commits to the transactions\<close>

lemma length_pair_inputs: "\<forall>h \<in> set hs. length h = 32 \<Longrightarrow> p \<in> set (pair_inputs hs) \<Longrightarrow> length p = 64"
  by (induction hs rule: pair_inputs.induct) auto

lemma length_merkle_inputs:
  "\<forall>x. length (SHA256 cr x) = 32 \<Longrightarrow> \<forall>h \<in> set hs. length h = 32 \<Longrightarrow> p \<in> set (merkle_inputs cr hs) \<Longrightarrow> length p = 64"
proof (induction cr hs rule: merkle_inputs.induct)
  case (1 cr hs)
  then have l: "length hs > 1" "hs \<noteq> []" "p \<in> set (pair_inputs (pad_even hs)) \<or> p \<in> set (merkle_inputs cr (level cr hs))"
    by (auto simp: merkle_inputs.simps [of cr hs] split: if_splits)
  have "\<forall>h \<in> set (pad_even hs). length h = 32" using 1(3) by (simp add: set_pad_even [OF l(2)])
  moreover have "\<forall>h \<in> set (level cr hs). length h = 32" using 1(2) by (auto simp: level_inputs Hash256_def)
  ultimately show ?case using l(3) length_pair_inputs 1(1) [OF l(1) 1(2)] by blast
qed

lemma transactions_bound:
  assumes "\<forall>x. length (SHA256 cr x) = 32" "xs \<noteq> []" "ys \<noteq> []"
    and "BlockMerkleRoot cr xs = (rt, False)" "BlockMerkleRoot cr ys = (rt, False)"
    and inj: "inj_on (Hash256 cr) (set (map Serialize_CTransaction (xs @ ys) @ merkle_inputs cr (map (GetHash cr) xs) @ merkle_inputs cr (map (GetHash cr) ys)))"
    and "\<forall>tx \<in> set (xs @ ys). GetTotalSize tx \<noteq> 64"
  shows "map Serialize_CTransaction xs = map Serialize_CTransaction ys"
proof -
  let ?hs = "map (GetHash cr) xs" and ?ks = "map (GetHash cr) ys"
  have len: "\<forall>h \<in> set ?hs \<union> set ?ks. length h = 32" using assms(1) by (auto simp: GetHash_def Hash256_def)
  have 64: "length p = 64" if "p \<in> set (merkle_inputs cr ?hs) \<union> set (merkle_inputs cr ?ks)" for p
    using length_merkle_inputs [of cr ?hs p] length_merkle_inputs [of cr ?ks p] assms(1) len that by blast
  have ne: "GetHash cr tx \<noteq> Hash256 cr p" if "tx \<in> set (xs @ ys)" "p \<in> set (merkle_inputs cr ?hs) \<union> set (merkle_inputs cr ?ks)" for tx p
  proof
    assume "GetHash cr tx = Hash256 cr p"
    then have "Hash256 cr (Serialize_CTransaction tx) = Hash256 cr p" by (simp only: GetHash_def)
    moreover have "Serialize_CTransaction tx \<in> set (map Serialize_CTransaction (xs @ ys))" using that(1) by (simp only: set_map imageI)
    ultimately have "Serialize_CTransaction tx = p" using that(2) inj_onD [OF inj, of "Serialize_CTransaction tx" p]
      unfolding set_append by blast
    then show False using 64 [OF that(2)] assms(7) that(1) by (auto simp: GetTotalSize_def)
  qed
  have "?hs = ?ks"
  proof (rule merkle_root_binding [OF assms(1), where root = rt])
    show "inj_on (Hash256 cr) (set (merkle_inputs cr ?hs) \<union> set (merkle_inputs cr ?ks))"
      by (rule inj_on_subset [OF inj]) auto
    show "set ?hs \<inter> Hash256 cr ` set (merkle_inputs cr ?ks) = {}" "set ?ks \<inter> Hash256 cr ` set (merkle_inputs cr ?hs) = {}"
      unfolding set_map using ne by fastforce+
  qed (use assms(2-5) len in \<open>simp_all add: BlockMerkleRoot_def\<close>)
  then have "map (Hash256 cr) (map Serialize_CTransaction xs) = map (Hash256 cr) (map Serialize_CTransaction ys)"
    by (simp add: GetHash_def [abs_def] comp_def)
  then show ?thesis by (rule map_inj_on) (rule inj_on_subset [OF inj], auto)
qed

text \<open>
  C39: A block cannot be altered under its header, and an altered copy is not held against the header: when a block has passed
  \<open>CheckBlock\<close>, every block with the same header and other transactions is rejected as mutated, the one reason for which
  the node does not mark the header as invalid.  This assumes that double SHA-256 does not collide on the
  strings hashed for the two blocks and that no transaction has 64 bytes, the size of an inner node of the Merkle tree.
\<close>

theorem altered_block_is_mutated:
  assumes "CheckBlock X cr params b True True = Inr b'" "\<not> fChecked b"
    and "GetBlockHeader_of a = GetBlockHeader_of b" "\<not> fChecked a" "block_vtx a \<noteq> []"
    and "map Serialize_CTransaction (block_vtx a) \<noteq> map Serialize_CTransaction (block_vtx b)"
    and "\<forall>x. length (SHA256 cr x) = 32" "\<forall>tx \<in> set (block_vtx a @ block_vtx b). GetTotalSize tx \<noteq> 64"
    and "inj_on (Hash256 cr) (set (map Serialize_CTransaction (block_vtx a @ block_vtx b)
      @ merkle_inputs cr (map (GetHash cr) (block_vtx a)) @ merkle_inputs cr (map (GetHash cr) (block_vtx b))))"
  shows "\<exists>why. CheckBlock X cr params a True True = Inl (Invalid BLOCK_MUTATED why)"
proof -
  have b: "block_checked X cr params b True True" using CheckBlock_accepts [OF assms(1)] assms(2) by blast
  have h: "hdr_nVersion a = hdr_nVersion b" "hdr_hashPrevBlock a = hdr_hashPrevBlock b" "hdr_hashMerkleRoot a = hdr_hashMerkleRoot b"
    "hdr_nTime a = hdr_nTime b" "hdr_nBits a = hdr_nBits b" "hdr_nNonce a = hdr_nNonce b"
    using assms(3) by (simp_all add: CBlockHeader.defs)
  have "CBlockHeader_GetHash X a = CBlockHeader_GetHash X b" by (simp add: CBlockHeader_GetHash_def Serialize_CBlockHeader_def h)
  then have "CheckBlockHeader X params a True = CheckBlockHeader X params b True" by (simp add: CheckBlockHeader_def Let_def h(2,5))
  moreover have "CheckBlockHeader X params b True = Inr ()" using assms(1,2) by (auto simp: CheckBlock_def split: sum.splits)
  ultimately have ok: "CheckBlockHeader X params a True = Inr ()" by simp
  have "BlockMerkleRoot cr (block_vtx a) \<noteq> (hdr_hashMerkleRoot a, False)"
    using transactions_bound [OF assms(7,5) _ _ _ assms(9,8), of "hdr_hashMerkleRoot b"] b assms(6) by (auto simp: h block_checked_def)
  then show ?thesis using assms(4) ok by (cases "BlockMerkleRoot cr (block_vtx a)") (auto simp: CheckBlock_def Let_def)
qed

text \<open>
  A block of one transaction, and the copy in which it is repeated.  The hash function of the example only looks at the length.
\<close>

definition size_crypto :: crypto where
  "size_crypto = sum_crypto\<lparr>SHA256 := \<lambda>x. if length x = 32 then x else replicate 32 (word_of_nat (length x))\<rparr>"

definition example_coinbase :: "byte \<Rightarrow> CTransaction" where
  "example_coinbase n = \<lparr>tx_vin = [\<lparr>prevout = COutPoint_null, scriptSig = [1, n], in_nSequence = SEQUENCE_FINAL\<rparr>],
     tx_vout = [\<lparr>nValue = 5, scriptPubKey = [0x51]\<rparr>], tx_nVersion = 2, tx_nType = 0, tx_nLockTime = 0, tx_vExtraPayload = []\<rparr>"

definition example_block :: "CTransaction list \<Rightarrow> CBlock" where
  "example_block vtx = \<lparr>hdr_nVersion = 2, hdr_hashPrevBlock = null_hash, hdr_hashMerkleRoot = replicate 32 63,
     hdr_nTime = 1000, hdr_nBits = 0x1e0fffff, hdr_nNonce = 0, block_vtx = vtx, fChecked = False\<rparr>"

lemmas ser_length_defs = ser_writedata8_def ser_writedata32_def ser_writedata64_def WriteLE32_def WriteLE64_def Serialize_COutPoint_def
  Serialize_uint256_def Serialize_CAmount_def Vector_Ser_def Serialize_CTxIn_def Serialize_CTxOut_def WriteCompactSize_def Serialize_bytes_def

lemma example_coinbase_size: "length (Serialize_CTransaction (example_coinbase n)) = 63"
  by (simp add: example_coinbase_def COutPoint_null_def null_hash_def has_payload_def Serialize_CTransaction_def ser_length_defs)

lemma size_hash: "Hash256 size_crypto x = (if length x = 32 then x else replicate 32 (word_of_nat (length x)))"
  by (simp add: Hash256_def size_crypto_def)

lemma example_coinbase_hash: "GetHash size_crypto (example_coinbase n) = replicate 32 63"
  by (simp add: GetHash_def size_hash example_coinbase_size)

lemma zero_hash_pow:
  assumes "in_range params bits" "compact_num bits \<noteq> 0"
  shows "CheckProofOfWork null_hash bits params"
proof -
  obtain a where "SetCompact bits = (a, compact_num bits \<noteq> 0 \<and> bit bits 23, 2 ^ 256 \<le> compact_num bits)"
    "wf_uint a" "le_val a = compact_num bits mod 2 ^ 256" by (rule SetCompact_cases)
  with assms show ?thesis
    by (auto simp: CheckProofOfWork_def in_range_def EqualTo_iff CompareTo_iff le_val_UintToArith256 not_less null_hash_def)
qed

lemma example_header_ok: "CheckBlockHeader (\<lambda>_. null_hash) main_params (example_block vtx) True = Inr ()"
proof -
  have "in_range main_params 0x1e0fffff" using main_store_in_range by (auto simp: index_in_range_def main_store_def dest!: spec [of _ 100])
  then have "CheckProofOfWork null_hash 0x1e0fffff main_params" by (rule zero_hash_pow) (simp add: main_compact)
  moreover have "hashDevnetGenesisBlock main_params = null_hash" by (simp add: main_params_def null_hash_def)
  ultimately show ?thesis by (simp add: CheckBlockHeader_def CBlockHeader_GetHash_def example_block_def)
qed

lemma example_block_accepted: "CheckBlock (\<lambda>_. null_hash) size_crypto main_params (example_block [example_coinbase 7]) True True
    = Inr ((example_block [example_coinbase 7])\<lparr>fChecked := True\<rparr>)"
proof -
  have "CheckTransaction (example_coinbase 7) = Inr ()" "IsCoinBase (example_coinbase 7)"
    unfolding CheckTransaction_def GetTotalSize_def example_coinbase_size
    by (simp_all add: example_coinbase_def MoneyRange_def MAX_MONEY_def COIN_def MAX_LEGACY_BLOCK_SIZE_def TRANSACTION_QUORUM_COMMITMENT_def
        check_coinbase_def IsCoinBase_def COutPoint_null_def COutPoint_IsNull_def null_hash_def list_all_iff NULL_INDEX_def)
  moreover have "BlockMerkleRoot size_crypto [example_coinbase 7] = (replicate 32 63, False)"
    by (simp add: BlockMerkleRoot_def ComputeMerkleRoot_def merkle_loop.simps [of size_crypto "[x]" for x] example_coinbase_hash)
  moreover have "length (Serialize_CBlock (example_block [example_coinbase 7])) = 144"
    by (simp add: Serialize_CBlock_def Serialize_CBlockHeader_def example_block_def example_coinbase_size ser_length_defs null_hash_def)
  moreover have "legacy_sigops [example_coinbase 7] = 0" by code_simp
  ultimately show ?thesis using example_header_ok [of "[example_coinbase 7]"]
    by (simp add: CheckBlock_def MaxBlockSize_def MAX_DIP0001_BLOCK_SIZE_def example_block_def)
qed

theorem altered_block_is_mutated_witness:
  "\<exists>why. CheckBlock (\<lambda>_. null_hash) size_crypto main_params (example_block [example_coinbase 7, example_coinbase 7]) True True
     = Inl (Invalid BLOCK_MUTATED why)"
proof (rule altered_block_is_mutated [OF example_block_accepted])
  have "merkle_inputs size_crypto [replicate 32 63, replicate 32 63] = [replicate 64 63]" "merkle_inputs size_crypto [replicate 32 63] = []"
    by (simp_all add: merkle_inputs_pair merkle_inputs.simps [of size_crypto "[x]" for x] flip: replicate_add)
  then show "inj_on (Hash256 size_crypto) (set (map Serialize_CTransaction (block_vtx (example_block [example_coinbase 7, example_coinbase 7])
      @ block_vtx (example_block [example_coinbase 7]))
      @ merkle_inputs size_crypto (map (GetHash size_crypto) (block_vtx (example_block [example_coinbase 7, example_coinbase 7])))
      @ merkle_inputs size_crypto (map (GetHash size_crypto) (block_vtx (example_block [example_coinbase 7])))))"
    by (auto simp: example_block_def example_coinbase_hash size_hash example_coinbase_size)
qed (simp_all add: example_block_def CBlockHeader.defs size_crypto_def GetTotalSize_def example_coinbase_size)

section \<open>The coinbase of a block carries its height\<close>

lemma serialize_inject: "\<bar>m\<bar> < 2 ^ 63 \<Longrightarrow> \<bar>n\<bar> < 2 ^ 63 \<Longrightarrow> serialize m = serialize n \<Longrightarrow> m = n"
  by (metis serialize_num)

text \<open>The bytes pushed for a height: one opcode, or a length of at most four and the number.\<close>

lemma push_height:
  assumes "0 \<le> n" "n < 2 ^ 31"
  shows "push_int64 [] n = (if n = 0 then [0] else if n \<le> 16 then [word_of_int (n + 80)] else word_of_nat (length (serialize n)) # serialize n)"
    and "length (serialize n) \<le> 4"
proof -
  show l: "length (serialize n) \<le> 4" using serialize_length [of n 4] assms by simp
  then show "push_int64 [] n = (if n = 0 then [0] else if n \<le> 16 then [word_of_int (n + 80)] else word_of_nat (length (serialize n)) # serialize n)"
    using assms(1) by (simp add: push_int64_def push_data_def OP_1_def OP_0_def OP_PUSHDATA1_def)
qed

text \<open>The first byte tells the three forms apart.\<close>

definition first_code :: "int \<Rightarrow> int" where
  "first_code n = (if n = 0 then 0 else if n \<le> 16 then n + 80 else int (length (serialize n)))"

lemma first_code:
  assumes "0 \<le> n" "n < 2 ^ 31"
  shows "push_int64 [] n \<noteq> []" "uint (hd (push_int64 [] n)) = first_code n" "16 < n \<Longrightarrow> 1 \<le> first_code n \<and> first_code n \<le> 4"
proof -
  note p = push_height [OF assms]
  show "push_int64 [] n \<noteq> []" by (simp add: p(1))
  have "serialize n \<noteq> []" if "n \<noteq> 0" using that serialize_num [of n] assms by (auto simp: num_val_def)
  then show c: "16 < n \<Longrightarrow> 1 \<le> first_code n \<and> first_code n \<le> 4" using p(2) by (simp add: first_code_def Suc_le_eq)
  show "uint (hd (push_int64 [] n)) = first_code n"
  proof -
    have "uint (word_of_int (n + 80) :: byte) = n + 80" if "n \<le> 16"
      using assms that by (simp add: unsigned_of_int take_bit_int_eq_self del: of_int_add)
    moreover have "uint (word_of_nat (length (serialize n)) :: byte) = int (length (serialize n))"
      using p(2) by (simp add: unsigned_of_nat take_bit_nat_eq_self)
    ultimately show ?thesis by (simp add: p(1) first_code_def)
  qed
qed

lemma height_prefix:
  assumes "0 \<le> m" "m < 2 ^ 31" "0 \<le> n" "n < 2 ^ 31"
    and "take (length (push_int64 [] m)) sig = push_int64 [] m" "take (length (push_int64 [] n)) sig = push_int64 [] n"
  shows "m = n"
proof -
  note m = first_code [OF assms(1,2)] and n = first_code [OF assms(3,4)]
  have "hd (push_int64 [] m) = hd sig" "hd (push_int64 [] n) = hd sig"
    using m(1) n(1) assms(5,6) by (metis hd_take length_greater_0_conv)+
  then have eq: "first_code m = first_code n" using m(2) n(2) by simp
  show ?thesis
  proof (cases "16 < m \<and> 16 < n")
    case True
    then have "length (serialize m) = length (serialize n)" using eq by (simp add: first_code_def)
    then have "push_int64 [] m = push_int64 [] n"
      using True assms(5,6) push_height(1) [OF assms(1,2)] push_height(1) [OF assms(3,4)] by simp
    then have "serialize m = serialize n" using True push_height(1) [OF assms(1,2)] push_height(1) [OF assms(3,4)] by simp
    then show ?thesis using assms(1-4) by (intro serialize_inject) simp_all
  next
    case False
    then show ?thesis using eq m(3) n(3) assms(1,3) by (auto simp: first_code_def split: if_splits)
  qed
qed

lemma ContextualCheckBlock_height:
  assumes "ContextualCheckBlock st params block pindexPrev vbc = Inr vbc'" "next_height st pindexPrev = Some h"
    and "BIP34Height params \<le> h" "h < DIP0003Height params"
  shows "take (length (push_int64 [] h)) (scriptSig (hd (tx_vin (hd (block_vtx block))))) = push_int64 [] h"
  using assms
  by (auto simp: ContextualCheckBlock_def Let_def split: option.splits prod.splits sum.splits if_splits)

text \<open>
  C40: Between the heights of BIP34 and DIP3 two blocks of different heights that pass \<open>ContextualCheckBlock\<close> have different coinbase
  transactions, because their input scripts start with different heights: this is what lets \<open>ConnectBlock\<close> skip the search for
  overwritten transactions there.
\<close>

theorem coinbases_differ:
  assumes "ContextualCheckBlock st params a p vbc = Inr vbc1" "next_height st p = Some m"
    and "ContextualCheckBlock st params b q vbc = Inr vbc2" "next_height st q = Some n"
    and "BIP34Height params \<le> m" "m < DIP0003Height params" "BIP34Height params \<le> n" "n < DIP0003Height params"
    and "0 \<le> m" "m < 2 ^ 31" "0 \<le> n" "n < 2 ^ 31" "m \<noteq> n"
  shows "hd (block_vtx a) \<noteq> hd (block_vtx b)"
  using height_prefix [OF assms(9-12)] ContextualCheckBlock_height [OF assms(1,2,5,6)] ContextualCheckBlock_height [OF assms(3,4,7,8)] assms(13)
  by auto

text \<open>Blocks of the heights 20 and 30.\<close>

definition height_store :: index_store where
  "height_store p = Some ((dev_block 0)\<lparr>nHeight := int p, pprev := None\<rparr>)"

definition height_params :: Params where
  "height_params = main_params\<lparr>nSchnorrHeight := 0\<rparr>"

lemma height_example:
  assumes "n \<in> {20, 30}"
  shows "ContextualCheckBlock height_store height_params (example_block [example_coinbase (word_of_nat n)]) (Some (n - 1)) vbc = Inr vbc"
proof -
  have push: "push_int64 [] 20 = [1, 20]" "push_int64 [] 30 = [1, 30]" by code_simp+
  have sig: "legacy_sigops [example_coinbase 20] = 0" "legacy_sigops [example_coinbase 30] = 0" by code_simp+
  have size: "length (Serialize_CBlock (example_block [example_coinbase m])) = 144" for m
    by (simp add: Serialize_CBlock_def Serialize_CBlockHeader_def example_block_def example_coinbase_size ser_length_defs null_hash_def)
  have mtp: "\<exists>t. GetMedianTimePast height_store p = Some t" for p
    by (simp add: GetMedianTimePast_def nMedianTimeSpan_def height_store_def numeral_eq_Suc)
  have p: "nSchnorrHeight height_params = 0" "BIP34Height height_params = 1" "DIP0001Height height_params = 782208" "DIP0003Height height_params = 2250000"
    by (simp_all add: height_params_def main_params_def)
  have tx: "ContextualCheckTransaction height_params h (example_coinbase m) = Inr ()" "IsFinalTx (example_coinbase m) h t" if "h \<le> 30" for h m t
    using that by (simp_all add: ContextualCheckTransaction_def p example_coinbase_def IsFinalTx_def)
  obtain t where t: "GetMedianTimePast height_store (n - 1) = Some t" using mtp by blast
  have "next_height height_store (Some (n - 1)) = Some (int n)" using assms by (auto simp: next_height_def height_store_def)
  moreover have "scriptSig (hd (tx_vin (example_coinbase m))) = [1, m]" "tx_vin (example_coinbase m) \<noteq> []" "block_vtx (example_block v) = v" for m v
    by (simp_all add: example_coinbase_def example_block_def)
  ultimately show ?thesis using assms t
    by (auto simp: ContextualCheckBlock_def csv_active_def p size tx sig push MaxBlockSize_def MAX_LEGACY_BLOCK_SIZE_def Let_def)
qed

theorem coinbases_differ_witness: "example_coinbase 20 \<noteq> example_coinbase 30"
proof -
  have h: "next_height height_store (Some 19) = Some 20" "next_height height_store (Some 29) = Some 30"
    by (simp_all add: next_height_def height_store_def)
  have p: "BIP34Height height_params = 1" "DIP0003Height height_params = 2250000" by (simp_all add: height_params_def main_params_def)
  have "hd (block_vtx (example_block [example_coinbase 20])) \<noteq> hd (block_vtx (example_block [example_coinbase 30]))"
    using coinbases_differ [OF height_example [of 20, simplified] h(1) height_example [of 30, simplified] h(2)] by (simp add: p)
  then show ?thesis by (simp add: example_block_def)
qed

end
