(* ===== verification/Spec2Isabelle.thy ===== *)
theory Spec2Isabelle
  imports ArithUint256 ActiveChain StandardScripts CoinsUpdate BlockCheck
begin

text \<open>
  A verification library for the Omega node (C++ sources under \<^verbatim>\<open>src/src\<close>).  The consensus core of the node, what
  decides whether a block or a transaction is valid and what the set of coins is afterwards, is translated into executable definitions,
  one theory per component, and the theorems state what each component promises.

  \<^bold>\<open>The program and its parts.\<close>  A node keeps an index of block headers, chooses the chain with the most work, checks each block of it
  against the consensus rules, applies its transactions to the set of unspent outputs (coins), and takes blocks back when the chain
  changes.  The parts depend on each other in the order of the theories: numbers, block index and active chain; consensus parameters,
  proof of work and deployments; scripts; encodings and transactions; the coins; checks of transactions; updates of the coins; Merkle
  trees; subsidy and payments.

  \<^bold>\<open>Conventions.\<close>  A class is a record with the source's member names (with a prefix where two classes share a name), an enumeration is a
  datatype, an operation is a function with the source's name.  Unsigned members are words of their width; \<open>int\<close> and \<open>int64_t\<close> values that
  cannot leave their range are integers, and where wrap-around matters the words are kept.  Pointers into the block index are keys of
  a store.  State is passed explicitly: an operation that changes an object returns it.  A failing assertion, an exception, undefined behaviour and a
  null pointer are values (\<open>None\<close>, or an error of a sum type), and the text before a definition says which.  A loop is a recursive
  function; a loop that may run forever is a partial function into an option type, and a theorem says when it returns.

  \<^bold>\<open>Numbers and index.\<close>
  \<^item> \<open>Prelude\<close>: machine types, little-endian word lists, the byte-order helpers of \<^verbatim>\<open>crypto/common.h\<close>, and the collections of
    simplification rules.
  \<^item> \<open>ArithUint256\<close> (\<^verbatim>\<open>arith_uint256.{h,cpp}\<close>): 256-bit integers on eight limbs.  The operators compute modulo \<open>2\<^sup>2\<^sup>5\<^sup>6\<close>, division is
    division, and the compact encoding is exact and is read back.
  \<^item> \<open>BlockIndex\<close> (\<^verbatim>\<open>chain.{h,cpp}\<close>, \<open>BlockManager::AddToBlockIndex\<close> of \<^verbatim>\<open>validation.cpp\<close>): headers, skip pointers, chain work.  Every reachable index is
    well formed, and \<open>GetAncestor\<close> over the skip list is the walk along the parents.
  \<^item> \<open>ActiveChain\<close> (\<open>CChain\<close>): \<open>SetTip\<close>, \<open>FindFork\<close>, \<open>LastCommonAncestor\<close>, locators.
  \<^item> \<open>ConsensusParams\<close>, \<open>Pow\<close> (\<^verbatim>\<open>pow.cpp\<close>), \<open>VersionBits\<close> (\<^verbatim>\<open>versionbits.cpp\<close>): the parameters of the main network, the four difficulty
    rules and the check of the work, and the deployment states with their caches.

  \<^bold>\<open>Scripts.\<close>
  \<^item> \<open>Script\<close> (\<^verbatim>\<open>script/script.{h,cpp}\<close>): script numbers, the decoding of opcodes, signature operation counts.
  \<^item> \<open>Interpreter\<close> (\<^verbatim>\<open>script/interpreter.cpp\<close>): \<open>EvalScript\<close> with every opcode, \<open>VerifyScript\<close>, the encoding checks of signatures and
    keys.  The hash functions and the signature library are the fields of a record \<open>crypto\<close>, a parameter.
  \<^item> \<open>StandardScripts\<close> (\<^verbatim>\<open>script/standard.cpp\<close>): templates and destinations; what it takes to spend a payment to a key hash or a script hash, the
    limits every evaluation obeys.

  \<^bold>\<open>Transactions.\<close>
  \<^item> \<open>Serialize\<close> (\<^verbatim>\<open>serialize.h\<close>): compact sizes, variable-length integers, vectors, bit sets, as codecs with their laws in the locales \<open>codec\<close>
    and \<open>canonical_codec\<close>.
  \<^item> \<open>Transaction\<close> (\<^verbatim>\<open>primitives/transaction.{h,cpp}\<close>, \<^verbatim>\<open>amount.h\<close>), \<open>SigHash\<close> (\<open>SignatureHash\<close>, the transaction signature checker): the encoding of transactions is
    read back, and a signature commits to all of the transaction.
  \<^item> \<open>TxVerify\<close> (\<^verbatim>\<open>consensus/tx_check.cpp\<close>, \<^verbatim>\<open>consensus/tx_verify.cpp\<close>): which transactions pass, and that the lock times a
    script demands are enforced.

  \<^bold>\<open>Coins.\<close>
  \<^item> \<open>Coins\<close> (\<^verbatim>\<open>coins.{h,cpp}\<close>, the coin part of \<^verbatim>\<open>txdb.cpp\<close>): the cache with its dirty and fresh flags over a view.  The locale \<open>coins_view\<close> is the contract
    of a view; it is interpreted for the database, for the cache over it and for a block's cache over both, and every stack of
    caches implements the plain map of unspent outputs, also when a write to the database is interrupted.
  \<^item> \<open>CoinsUpdate\<close> (\<open>UpdateCoins\<close>, \<open>ApplyTxInUndo\<close>, \<open>DisconnectBlock\<close>): connecting and disconnecting transactions against the map of unspent outputs.

  \<^bold>\<open>Blocks.\<close>
  \<^item> \<open>Merkle\<close> (\<^verbatim>\<open>consensus/merkle.cpp\<close>, \<^verbatim>\<open>merkleblock.{h,cpp}\<close>): an unmutated root determines the transactions, partial trees give back what was put
    into them, and cannot prove what is not there.
  \<^item> \<open>Subsidy\<close> (\<open>GetBlockSubsidy\<close>), \<open>Payments\<close> (\<^verbatim>\<open>masternode/payments.cpp\<close>, \<^verbatim>\<open>governance/classes.cpp\<close>): the subsidy with its floating-point arithmetic, superblocks, the
    payees of a block.  The node accepts the coinbase it fills itself.

  \<^bold>\<open>Hypotheses on code outside the model.\<close>  The hash functions and the signature library enter as parameters.  Theorems that need
  them to be collision-free say so for the finitely many strings that are hashed in the statement at hand, and their witnesses
  instantiate the parameters with concrete functions.

  \<^bold>\<open>Bounds and fuel.\<close>  No definition has fuel: recursion is structural or has a termination proof, except for the loop over the halving
  intervals of the subsidy, which does not end for a non-positive interval and is proved to end otherwise.

  \<^bold>\<open>Not modelled.\<close>  The network code, the wallet, the user interfaces and the remote procedure calls move data that the modelled parts compute.
  The memory pool orders by time and by floating-point fee rates.  Masternode lists, quorums, chain locks, instant locks, governance
  objects and the messaging layer are driven by network messages, threads and embedded databases; what the modelled parts read of them is a
  parameter.  The X11 hash functions and the bundled libraries are third-party code.
\<close>

end
